(* ===== verification/Prelude.thy ===== *)
theory Prelude
  imports Main "HOL-Library.Word" "HOL-Library.List_Lexorder" "HOL-Library.Char_ord"
    "HOL-Library.Product_Lexorder" "HOL-Library.Multiset"
    "HOL-Library.Code_Target_Numeral"
begin

text \<open>
  Shared vocabulary of the development: the machine types of the C++ sources, the standard
  library algorithms they use on vectors (\<open>std::sort\<close>, \<open>std::unique\<close>,
  \<open>std::adjacent_find\<close>, \<open>std::lower_bound\<close>, \<open>std::binary_search\<close>), and the
  generic lemmas on lists and words that the component theories rest on.

  Identifiers are \<open>std::string\<close> values ordered byte by byte. They are modelled as
  \<open>string\<close>; the lexicographic order of \<open>List_Lexorder\<close> over the character order of
  \<open>Char_ord\<close> is exactly the byte order of \<open>std::string\<close>.
\<close>

type_synonym u8 = "8 word"
type_synonym u16 = "16 word"
type_synonym u32 = "32 word"
type_synonym u64 = "64 word"
type_synonym bytes = "8 word list"

named_theorems codec_simps \<open>round-trip and length facts of the canonical encoding\<close>
named_theorems reader_simps \<open>effect of one read on a positioned reader\<close>
named_theorems limit_defs \<open>the numeric bounds of limits.hpp\<close>
named_theorems canonical_intros \<open>canonical order of built vectors\<close>

section \<open>Standard library algorithms on vectors\<close>

text \<open>\<open>std::adjacent_find(v) != v.end()\<close>: two neighbours are equal.\<close>

fun adjacent_equal :: "'a list \<Rightarrow> bool" where
  "adjacent_equal (x # y # zs) = (x = y \<or> adjacent_equal (y # zs))"
| "adjacent_equal _ = False"

text \<open>The loop \<open>if (!(v[i-1] < v[i])) return error\<close> over all neighbours.\<close>

fun strictly_increasing :: "'a::linorder list \<Rightarrow> bool" where
  "strictly_increasing (x # y # zs) = (x < y \<and> strictly_increasing (y # zs))"
| "strictly_increasing _ = True"

text \<open>\<open>std::sort\<close> followed by \<open>erase(unique(...))\<close>.\<close>

definition sort_unique :: "'a::linorder list \<Rightarrow> 'a list" where
  "sort_unique xs = remdups_adj (sort xs)"

text \<open>
  \<open>std::lower_bound(v.begin(), v.end(), x, less)\<close> on a range partitioned by
  \<open>less\<close>: the number of leading elements that are less than the value.
\<close>

definition lower_bound :: "('a \<Rightarrow> 'b \<Rightarrow> bool) \<Rightarrow> 'a list \<Rightarrow> 'b \<Rightarrow> nat" where
  "lower_bound lt xs x = length (takeWhile (\<lambda>y. lt y x) xs)"

definition binary_search :: "'a::linorder list \<Rightarrow> 'a \<Rightarrow> bool" where
  "binary_search xs x =
     (let i = lower_bound (<) xs x in i < length xs \<and> \<not> x < xs ! i)"

section \<open>Lemmas on the algorithms\<close>

lemma strictly_increasing_iff: "strictly_increasing xs \<longleftrightarrow> sorted_wrt (<) xs"
  by (induction xs rule: strictly_increasing.induct) (auto intro: less_trans)

lemma strictly_increasing_iff_sorted_distinct:
  "strictly_increasing xs \<longleftrightarrow> sorted xs \<and> distinct xs"
  by (simp add: strictly_increasing_iff strict_sorted_iff)

lemma strictly_increasingD [dest]:
  assumes "strictly_increasing xs"
  shows "sorted xs" "distinct xs"
  using assms by (simp_all add: strictly_increasing_iff_sorted_distinct)

lemma adjacent_equal_sorted: "sorted xs \<Longrightarrow> adjacent_equal xs \<longleftrightarrow> \<not> distinct xs"
  by (induction xs rule: adjacent_equal.induct) fastforce+

lemma strictly_increasing_if_no_adjacent:
  "sorted xs \<Longrightarrow> \<not> adjacent_equal xs \<Longrightarrow> strictly_increasing xs"
  by (simp add: adjacent_equal_sorted strictly_increasing_iff_sorted_distinct)

lemma remdups_adj_sorted_distinct: "sorted xs \<Longrightarrow> distinct (remdups_adj xs)"
  by (induction xs rule: remdups_adj.induct) (auto simp: antisym)

lemma sort_unique_strict [simp, canonical_intros]: "strictly_increasing (sort_unique xs)"
  by (simp add: sort_unique_def strictly_increasing_iff_sorted_distinct sorted_remdups_adj
      remdups_adj_sorted_distinct)

lemma set_sort_unique [simp]: "set (sort_unique xs) = set xs"
  by (simp add: sort_unique_def)

lemma sort_unique_eq: "sort_unique xs = sorted_list_of_set (set xs)"
  by (metis List.finite_set set_sort_unique sort_unique_strict sorted_list_of_set.idem_if_sorted_distinct
      strictly_increasingD)

lemma sort_unique_idem [simp]: "sort_unique (sort_unique xs) = sort_unique xs"
  by (simp add: sort_unique_eq)

lemma length_sort_unique_le: "length (sort_unique xs) \<le> length xs"
  by (simp add: sort_unique_def) (metis length_sort remdups_adj_length)

lemma sort_unique_id: "strictly_increasing xs \<Longrightarrow> sort_unique xs = xs"
  by (simp add: sort_unique_eq sorted_list_of_set.idem_if_sorted_distinct strictly_increasingD)

lemma lower_bound_sorted:
  assumes "sorted xs"
  shows "binary_search xs x \<longleftrightarrow> x \<in> set xs"
  using assms
proof (induction xs)
  case Nil
  then show ?case by (simp add: binary_search_def lower_bound_def)
next
  case (Cons y ys)
  then show ?case
    by (auto simp: binary_search_def lower_bound_def Let_def dest: antisym_conv3)
qed

lemmas binary_search_iff = lower_bound_sorted

lemma map_fst_sort_key: "sorted (map f (sort_key f xs))"
  by simp

lemma strictly_increasing_map_inj:
  "strictly_increasing (map f xs) \<Longrightarrow> x \<in> set xs \<Longrightarrow> y \<in> set xs \<Longrightarrow> f x = f y \<Longrightarrow> x = y"
  by (metis strictly_increasingD(2) distinct_map inj_onD)

text \<open>
  Sorting by a key that identifies the elements forgets the order of the input: two
  permutations with pairwise distinct keys sort to the same vector. This is what makes the
  canonical form independent of the declaration order.
\<close>

lemma sort_key_perm_eq:
  assumes "mset xs = mset ys" and "distinct (map f xs)"
  shows "sort_key f xs = sort_key f ys"
proof (rule map_sorted_distinct_set_unique)
  show "inj_on f (set (sort_key f xs) \<union> set (sort_key f ys))"
    using assms by (metis distinct_map set_mset_mset set_sort sup.idem)
  show "sorted (map f (sort_key f xs))" "sorted (map f (sort_key f ys))" by simp_all
  show "distinct (map f (sort_key f xs))"
    using assms(2) by (metis distinct_map distinct_sort set_sort)
  show "distinct (map f (sort_key f ys))"
    using assms by (metis distinct_map distinct_sort set_sort mset_eq_setD mset_eq_imp_distinct_iff)
  show "set (sort_key f xs) = set (sort_key f ys)"
    using assms(1) by (metis set_sort mset_eq_setD)
qed

lemma sort_key_Nil_iff [simp]: "sort_key f xs = [] \<longleftrightarrow> xs = []"
  by (metis length_0_conv length_sort)

lemma pair_le_fst: "(a :: 'a::linorder \<times> 'b::linorder) \<le> b \<Longrightarrow> fst a \<le> fst b"
  by (auto simp: less_eq_prod_def)

lemma pair_le_snd: "(e :: 'a::linorder, s :: 'b::linorder) \<le> (e, t) \<longleftrightarrow> s \<le> t"
  by (auto simp: less_eq_prod_def)

lemma enumerate_0_map: "enumerate 0 xs = map (\<lambda>i. (i, xs ! i)) [0..<length xs]"
  by (rule nth_equalityI) (simp_all add: nth_enumerate_eq)

text \<open>What is reachable from a point: the point and what is reachable from its successors.\<close>

lemma reachable_unfold: "{a. r\<^sup>*\<^sup>* x a} = insert x (\<Union>y\<in>{y. r x y}. {a. r\<^sup>*\<^sup>* y a})"
  by (auto intro: converse_rtranclp_into_rtranclp elim: converse_rtranclpE)

section \<open>Words\<close>

lemma u64_numeral_le [simp]: "unat (w :: u64) < 18446744073709551616"
  using unsigned_less [of w] by simp

lemma u32_numeral_le [simp]: "unat (w :: u32) < 4294967296"
  using unsigned_less [of w] by simp

lemma unat_plus_no_overflow_u64:
  "unat (a :: u64) + unat b < 2 ^ 64 \<Longrightarrow> unat (a + b) = unat a + unat b"
  by (simp add: unat_word_ariths)

lemma unat_mult_no_overflow_u64:
  "unat (a :: u64) * unat b < 2 ^ 64 \<Longrightarrow> unat (a * b) = unat a * unat b"
  by (simp add: unat_word_ariths)

lemma unat_of_nat_small [simp]: "n < 2 ^ 64 \<Longrightarrow> unat (of_nat n :: u64) = n"
  by (simp add: unat_of_nat)

lemma unat_of_nat_small32 [simp]: "n < 2 ^ 32 \<Longrightarrow> unat (of_nat n :: u32) = n"
  by (simp add: unat_of_nat)

end
