(* ===== verification/Status.thy ===== *)
theory Status
  imports Prelude
begin

text \<open>
  The deterministic error model (\<open>include/cpath/status.hpp\<close>, \<open>src/status.cpp\<close>).
  A \<open>Status\<close> is a stable code plus a human-readable detail. The code is the contract
  (it travels in logs, exit codes and error frames); the detail is prose and is not
  modelled. \<open>Status\<close> is therefore an \<open>error_code\<close>, \<open>kOk\<close> meaning success,
  and \<open>Result<T>\<close> is \<open>error_code + 'a\<close>, \<open>Inl\<close> carrying the failing status.

  \<open>enum class ErrorCode : std::uint16_t\<close> is its numeric value under a constructor; each
  enumerator is an abbreviation with the value the header gives it.
\<close>

section \<open>Error codes\<close>

datatype error_code = ErrorCode (code_value: nat)

type_synonym 'a result = "error_code + 'a"

abbreviation (input) kOk :: error_code where "kOk \<equiv> ErrorCode 0"
abbreviation (input) kInvalidSyntax :: error_code where "kInvalidSyntax \<equiv> ErrorCode 1"
abbreviation (input) kUnknownKeyword :: error_code where "kUnknownKeyword \<equiv> ErrorCode 2"
abbreviation (input) kDuplicateIdentifier :: error_code where "kDuplicateIdentifier \<equiv> ErrorCode 3"
abbreviation (input) kMissingRequiredField :: error_code where "kMissingRequiredField \<equiv> ErrorCode 4"
abbreviation (input) kValueOutOfRange :: error_code where "kValueOutOfRange \<equiv> ErrorCode 5"
abbreviation (input) kTooManyItems :: error_code where "kTooManyItems \<equiv> ErrorCode 6"
abbreviation (input) kStringTooLong :: error_code where "kStringTooLong \<equiv> ErrorCode 7"
abbreviation (input) kLineTooLong :: error_code where "kLineTooLong \<equiv> ErrorCode 8"
abbreviation (input) kInputTooLarge :: error_code where "kInputTooLarge \<equiv> ErrorCode 9"
abbreviation (input) kInvalidCharacter :: error_code where "kInvalidCharacter \<equiv> ErrorCode 10"
abbreviation (input) kUnknownReference :: error_code where "kUnknownReference \<equiv> ErrorCode 11"
abbreviation (input) kTrailingGarbage :: error_code where "kTrailingGarbage \<equiv> ErrorCode 12"
abbreviation (input) kUnsupportedFormatVersion :: error_code where "kUnsupportedFormatVersion \<equiv> ErrorCode 13"
abbreviation (input) kEmptyInput :: error_code where "kEmptyInput \<equiv> ErrorCode 14"
abbreviation (input) kMalformedNumber :: error_code where "kMalformedNumber \<equiv> ErrorCode 15"
abbreviation (input) kInconsistentMetadata :: error_code where "kInconsistentMetadata \<equiv> ErrorCode 16"
abbreviation (input) kDuplicateLogicalEdge :: error_code where "kDuplicateLogicalEdge \<equiv> ErrorCode 17"
abbreviation (input) kSelfLoopLogicalEdge :: error_code where "kSelfLoopLogicalEdge \<equiv> ErrorCode 18"
abbreviation (input) kEmptyCollective :: error_code where "kEmptyCollective \<equiv> ErrorCode 19"
abbreviation (input) kParticipantNotInCollective :: error_code where "kParticipantNotInCollective \<equiv> ErrorCode 20"
abbreviation (input) kUnknownEndpointNode :: error_code where "kUnknownEndpointNode \<equiv> ErrorCode 21"
abbreviation (input) kPathCountUnsupported :: error_code where "kPathCountUnsupported \<equiv> ErrorCode 22"
abbreviation (input) kDuplicateBinding :: error_code where "kDuplicateBinding \<equiv> ErrorCode 23"
abbreviation (input) kStaleTopologyGeneration :: error_code where "kStaleTopologyGeneration \<equiv> ErrorCode 100"
abbreviation (input) kStaleFailureDomainGeneration :: error_code where "kStaleFailureDomainGeneration \<equiv> ErrorCode 101"
abbreviation (input) kStaleCapacityEvidenceGeneration :: error_code where "kStaleCapacityEvidenceGeneration \<equiv> ErrorCode 102"
abbreviation (input) kStalePolicyGeneration :: error_code where "kStalePolicyGeneration \<equiv> ErrorCode 103"
abbreviation (input) kStalePlanGeneration :: error_code where "kStalePlanGeneration \<equiv> ErrorCode 104"
abbreviation (input) kStaleEpoch :: error_code where "kStaleEpoch \<equiv> ErrorCode 105"
abbreviation (input) kIncarnationMismatch :: error_code where "kIncarnationMismatch \<equiv> ErrorCode 106"
abbreviation (input) kPlanInputMismatch :: error_code where "kPlanInputMismatch \<equiv> ErrorCode 107"
abbreviation (input) kRevalidationRequired :: error_code where "kRevalidationRequired \<equiv> ErrorCode 108"
abbreviation (input) kNotAuthoritative :: error_code where "kNotAuthoritative \<equiv> ErrorCode 109"
abbreviation (input) kPlanNotCurrent :: error_code where "kPlanNotCurrent \<equiv> ErrorCode 110"
abbreviation (input) kGenerationRegression :: error_code where "kGenerationRegression \<equiv> ErrorCode 111"
abbreviation (input) kUnboundParticipant :: error_code where "kUnboundParticipant \<equiv> ErrorCode 200"
abbreviation (input) kNoPath :: error_code where "kNoPath \<equiv> ErrorCode 202"
abbreviation (input) kHopLimitExceeded :: error_code where "kHopLimitExceeded \<equiv> ErrorCode 203"
abbreviation (input) kCostLimitExceeded :: error_code where "kCostLimitExceeded \<equiv> ErrorCode 204"
abbreviation (input) kInsufficientDisjointPaths :: error_code where "kInsufficientDisjointPaths \<equiv> ErrorCode 205"
abbreviation (input) kDomainDiversityUnsatisfiable :: error_code where "kDomainDiversityUnsatisfiable \<equiv> ErrorCode 206"
abbreviation (input) kFailureDomainForbidden :: error_code where "kFailureDomainForbidden \<equiv> ErrorCode 207"
abbreviation (input) kTierForbidden :: error_code where "kTierForbidden \<equiv> ErrorCode 208"
abbreviation (input) kNodeForbidden :: error_code where "kNodeForbidden \<equiv> ErrorCode 209"
abbreviation (input) kCapacityEvidenceInsufficient :: error_code where "kCapacityEvidenceInsufficient \<equiv> ErrorCode 210"
abbreviation (input) kEdgeHasNoVerifiedCapacity :: error_code where "kEdgeHasNoVerifiedCapacity \<equiv> ErrorCode 211"
abbreviation (input) kUnsupportedDisjointness :: error_code where "kUnsupportedDisjointness \<equiv> ErrorCode 215"
abbreviation (input) kEndpointBudgetExceeded :: error_code where "kEndpointBudgetExceeded \<equiv> ErrorCode 217"
abbreviation (input) kSearchBudgetExceeded :: error_code where "kSearchBudgetExceeded \<equiv> ErrorCode 218"
abbreviation (input) kEndpointIneligible :: error_code where "kEndpointIneligible \<equiv> ErrorCode 219"
abbreviation (input) kInsufficientCapacity :: error_code where "kInsufficientCapacity \<equiv> ErrorCode 221"
abbreviation (input) kNotFound :: error_code where "kNotFound \<equiv> ErrorCode 300"
abbreviation (input) kCorruptRecord :: error_code where "kCorruptRecord \<equiv> ErrorCode 301"
abbreviation (input) kTruncatedRecord :: error_code where "kTruncatedRecord \<equiv> ErrorCode 302"
abbreviation (input) kOversizedRecord :: error_code where "kOversizedRecord \<equiv> ErrorCode 303"
abbreviation (input) kUnsupportedRecordVersion :: error_code where "kUnsupportedRecordVersion \<equiv> ErrorCode 304"
abbreviation (input) kDigestMismatch :: error_code where "kDigestMismatch \<equiv> ErrorCode 305"
abbreviation (input) kStoreCapacityExceeded :: error_code where "kStoreCapacityExceeded \<equiv> ErrorCode 306"
abbreviation (input) kAtomicReplaceFailed :: error_code where "kAtomicReplaceFailed \<equiv> ErrorCode 307"
abbreviation (input) kStoreIoFailure :: error_code where "kStoreIoFailure \<equiv> ErrorCode 308"
abbreviation (input) kStoreNotOpen :: error_code where "kStoreNotOpen \<equiv> ErrorCode 309"
abbreviation (input) kStoreAlreadyOpen :: error_code where "kStoreAlreadyOpen \<equiv> ErrorCode 310"
abbreviation (input) kRecordIncompatible :: error_code where "kRecordIncompatible \<equiv> ErrorCode 311"
abbreviation (input) kPathEscape :: error_code where "kPathEscape \<equiv> ErrorCode 312"
abbreviation (input) kBadMagic :: error_code where "kBadMagic \<equiv> ErrorCode 400"
abbreviation (input) kBadProtocolVersion :: error_code where "kBadProtocolVersion \<equiv> ErrorCode 401"
abbreviation (input) kBadHeaderChecksum :: error_code where "kBadHeaderChecksum \<equiv> ErrorCode 402"
abbreviation (input) kBadPayloadDigest :: error_code where "kBadPayloadDigest \<equiv> ErrorCode 403"
abbreviation (input) kFrameTooLarge :: error_code where "kFrameTooLarge \<equiv> ErrorCode 404"
abbreviation (input) kUnexpectedFrameType :: error_code where "kUnexpectedFrameType \<equiv> ErrorCode 405"
abbreviation (input) kSequenceMismatch :: error_code where "kSequenceMismatch \<equiv> ErrorCode 406"
abbreviation (input) kSessionClosed :: error_code where "kSessionClosed \<equiv> ErrorCode 407"
abbreviation (input) kSessionLimitExceeded :: error_code where "kSessionLimitExceeded \<equiv> ErrorCode 408"
abbreviation (input) kSessionHandshakeRequired :: error_code where "kSessionHandshakeRequired \<equiv> ErrorCode 409"
abbreviation (input) kSocketFailure :: error_code where "kSocketFailure \<equiv> ErrorCode 410"
abbreviation (input) kConnectionRefused :: error_code where "kConnectionRefused \<equiv> ErrorCode 411"
abbreviation (input) kSendFailure :: error_code where "kSendFailure \<equiv> ErrorCode 412"
abbreviation (input) kReceiveFailure :: error_code where "kReceiveFailure \<equiv> ErrorCode 413"
abbreviation (input) kServiceStopping :: error_code where "kServiceStopping \<equiv> ErrorCode 414"
abbreviation (input) kReplayDetected :: error_code where "kReplayDetected \<equiv> ErrorCode 415"
abbreviation (input) kMessageTooLarge :: error_code where "kMessageTooLarge \<equiv> ErrorCode 416"
abbreviation (input) kPeerClosed :: error_code where "kPeerClosed \<equiv> ErrorCode 417"
abbreviation (input) kNoRouteToService :: error_code where "kNoRouteToService \<equiv> ErrorCode 418"
abbreviation (input) kInternalError :: error_code where "kInternalError \<equiv> ErrorCode 900"
abbreviation (input) kNotImplemented :: error_code where "kNotImplemented \<equiv> ErrorCode 901"
abbreviation (input) kOverflow :: error_code where "kOverflow \<equiv> ErrorCode 902"
abbreviation (input) kCancelled :: error_code where "kCancelled \<equiv> ErrorCode 903"
abbreviation (input) kTimeout :: error_code where "kTimeout \<equiv> ErrorCode 904"

datatype error_category =
    cNone | cInput | cAuthority | cPlanning | cPersistence | cProtocol | cInternal

definition kCodeTable :: "(error_code \<times> string \<times> string) list" where
  "kCodeTable = [
   (kOk, ''ok'', ''ok''),
   (kInvalidSyntax, ''invalid_syntax'', ''invalid syntax''),
   (kUnknownKeyword, ''unknown_keyword'', ''unknown keyword''),
   (kDuplicateIdentifier, ''duplicate_identifier'', ''duplicate identifier''),
   (kMissingRequiredField, ''missing_required_field'', ''missing required field''),
   (kValueOutOfRange, ''value_out_of_range'', ''value out of range''),
   (kTooManyItems, ''too_many_items'', ''too many items''),
   (kStringTooLong, ''string_too_long'', ''string too long''),
   (kLineTooLong, ''line_too_long'', ''line too long''),
   (kInputTooLarge, ''input_too_large'', ''input too large''),
   (kInvalidCharacter, ''invalid_character'', ''invalid character''),
   (kUnknownReference, ''unknown_reference'', ''unknown reference''),
   (kTrailingGarbage, ''trailing_garbage'', ''trailing garbage''),
   (kUnsupportedFormatVersion, ''unsupported_format_version'', ''unsupported format version''),
   (kEmptyInput, ''empty_input'', ''empty input''),
   (kMalformedNumber, ''malformed_number'', ''malformed number''),
   (kInconsistentMetadata, ''inconsistent_metadata'', ''inconsistent metadata''),
   (kDuplicateLogicalEdge, ''duplicate_logical_edge'', ''duplicate logical edge''),
   (kSelfLoopLogicalEdge, ''self_loop_logical_edge'', ''self-loop logical edge''),
   (kEmptyCollective, ''empty_collective'', ''empty collective''),
   (kParticipantNotInCollective, ''participant_not_in_collective'', ''participant not in collective''),
   (kUnknownEndpointNode, ''unknown_endpoint_node'', ''unknown endpoint node''),
   (kPathCountUnsupported, ''path_count_unsupported'', ''path count unsupported''),
   (kDuplicateBinding, ''duplicate_binding'', ''duplicate binding''),
   (kStaleTopologyGeneration, ''stale_topology_generation'', ''stale topology generation''),
   (kStaleFailureDomainGeneration, ''stale_failure_domain_generation'', ''stale failure domain generation''),
   (kStaleCapacityEvidenceGeneration, ''stale_capacity_evidence_generation'', ''stale capacity evidence generation''),
   (kStalePolicyGeneration, ''stale_policy_generation'', ''stale policy generation''),
   (kStalePlanGeneration, ''stale_plan_generation'', ''stale plan generation''),
   (kStaleEpoch, ''stale_epoch'', ''stale epoch''),
   (kIncarnationMismatch, ''incarnation_mismatch'', ''incarnation mismatch''),
   (kPlanInputMismatch, ''plan_input_mismatch'', ''plan input mismatch''),
   (kRevalidationRequired, ''revalidation_required'', ''revalidation required''),
   (kNotAuthoritative, ''not_authoritative'', ''not authoritative''),
   (kPlanNotCurrent, ''plan_not_current'', ''plan not current''),
   (kGenerationRegression, ''generation_regression'', ''generation regression''),
   (kUnboundParticipant, ''unbound_participant'', ''unbound participant''),
   (kNoPath, ''no_path'', ''no path''),
   (kHopLimitExceeded, ''hop_limit_exceeded'', ''hop limit exceeded''),
   (kCostLimitExceeded, ''cost_limit_exceeded'', ''cost limit exceeded''),
   (kInsufficientDisjointPaths, ''insufficient_disjoint_paths'', ''insufficient disjoint paths''),
   (kDomainDiversityUnsatisfiable, ''domain_diversity_unsatisfiable'', ''domain diversity unsatisfiable''),
   (kFailureDomainForbidden, ''failure_domain_forbidden'', ''failure domain forbidden''),
   (kTierForbidden, ''tier_forbidden'', ''tier forbidden''),
   (kNodeForbidden, ''node_forbidden'', ''node forbidden''),
   (kCapacityEvidenceInsufficient, ''capacity_evidence_insufficient'', ''capacity evidence insufficient''),
   (kEdgeHasNoVerifiedCapacity, ''edge_has_no_verified_capacity'', ''edge has no verified capacity''),
   (kUnsupportedDisjointness, ''unsupported_disjointness'', ''unsupported disjointness''),
   (kEndpointBudgetExceeded, ''endpoint_budget_exceeded'', ''endpoint budget exceeded''),
   (kSearchBudgetExceeded, ''search_budget_exceeded'', ''search budget exceeded''),
   (kEndpointIneligible, ''endpoint_ineligible'', ''endpoint ineligible''),
   (kInsufficientCapacity, ''insufficient_capacity'', ''insufficient verified capacity''),
   (kNotFound, ''not_found'', ''not found''),
   (kCorruptRecord, ''corrupt_record'', ''corrupt record''),
   (kTruncatedRecord, ''truncated_record'', ''truncated record''),
   (kOversizedRecord, ''oversized_record'', ''oversized record''),
   (kUnsupportedRecordVersion, ''unsupported_record_version'', ''unsupported record version''),
   (kDigestMismatch, ''digest_mismatch'', ''digest mismatch''),
   (kStoreCapacityExceeded, ''store_capacity_exceeded'', ''store capacity exceeded''),
   (kAtomicReplaceFailed, ''atomic_replace_failed'', ''atomic replace failed''),
   (kStoreIoFailure, ''store_io_failure'', ''store io failure''),
   (kStoreNotOpen, ''store_not_open'', ''store not open''),
   (kStoreAlreadyOpen, ''store_already_open'', ''store already open''),
   (kRecordIncompatible, ''record_incompatible'', ''record incompatible''),
   (kPathEscape, ''path_escape'', ''path escape''),
   (kBadMagic, ''bad_magic'', ''bad magic''),
   (kBadProtocolVersion, ''bad_protocol_version'', ''bad protocol version''),
   (kBadHeaderChecksum, ''bad_header_checksum'', ''bad header checksum''),
   (kBadPayloadDigest, ''bad_payload_digest'', ''bad payload digest''),
   (kFrameTooLarge, ''frame_too_large'', ''frame too large''),
   (kUnexpectedFrameType, ''unexpected_frame_type'', ''unexpected frame type''),
   (kSequenceMismatch, ''sequence_mismatch'', ''sequence mismatch''),
   (kSessionClosed, ''session_closed'', ''session closed''),
   (kSessionLimitExceeded, ''session_limit_exceeded'', ''session limit exceeded''),
   (kSessionHandshakeRequired, ''session_handshake_required'', ''session handshake required''),
   (kSocketFailure, ''socket_failure'', ''socket failure''),
   (kConnectionRefused, ''connection_refused'', ''connection refused''),
   (kSendFailure, ''send_failure'', ''send failure''),
   (kReceiveFailure, ''receive_failure'', ''receive failure''),
   (kServiceStopping, ''service_stopping'', ''service stopping''),
   (kReplayDetected, ''replay_detected'', ''replay detected''),
   (kMessageTooLarge, ''message_too_large'', ''message too large''),
   (kPeerClosed, ''peer_closed'', ''peer closed''),
   (kNoRouteToService, ''no_route_to_service'', ''no route to service''),
   (kInternalError, ''internal_error'', ''internal error''),
   (kNotImplemented, ''not_implemented'', ''not implemented''),
   (kOverflow, ''overflow'', ''arithmetic overflow''),
   (kCancelled, ''cancelled'', ''cancelled''),
   (kTimeout, ''timeout'', ''timeout'')]"

fun find_entry :: "(error_code \<times> string \<times> string) list \<Rightarrow> error_code \<Rightarrow> (string \<times> string) option" where
  "find_entry [] code = None"
| "find_entry ((c, e) # rest) code = (if c = code then Some e else find_entry rest code)"

definition to_string_code :: "error_code \<Rightarrow> string" where
  "to_string_code code =
     (case find_entry kCodeTable code of Some (symbol, display) \<Rightarrow> display
      | None \<Rightarrow> ''unknown error code'')"

definition code_symbol :: "error_code \<Rightarrow> string" where
  "code_symbol code =
     (case find_entry kCodeTable code of Some (symbol, display) \<Rightarrow> symbol
      | None \<Rightarrow> ''unknown'')"

text \<open>The argument is a 32-bit value that is first narrowed to 16 bits.\<close>

definition is_defined_error_code :: "u32 \<Rightarrow> bool" where
  "is_defined_error_code raw =
     (let narrowed = unat raw mod 2 ^ 16
      in list_ex (\<lambda>entry. code_value (fst entry) = narrowed) kCodeTable)"

definition category_of :: "error_code \<Rightarrow> error_category" where
  "category_of code =
     (let raw = code_value code in
      if raw = 0 then cNone else if raw < 100 then cInput else if raw < 200 then cAuthority
      else if raw < 300 then cPlanning else if raw < 400 then cPersistence
      else if raw < 500 then cProtocol else cInternal)"

definition is_ok :: "error_code \<Rightarrow> bool" where
  "is_ok code \<longleftrightarrow> code = kOk"

text \<open>\<open>Status::to_string\<close>, the detail passed as an argument.\<close>

definition status_to_string :: "error_code \<Rightarrow> string \<Rightarrow> string" where
  "status_to_string code detail =
     (if is_ok code then ''ok''
      else if detail \<noteq> [] then code_symbol code @ '': '' @ detail else code_symbol code)"

text \<open>
  The loop \<open>for (x : xs) if (...) return error\<close>: the first failing check decides, and
  \<open>kOk\<close> means that every check passed.
\<close>

fun first_error :: "('a \<Rightarrow> error_code) \<Rightarrow> 'a list \<Rightarrow> error_code" where
  "first_error check [] = kOk"
| "first_error check (x # xs) = (if is_ok (check x) then first_error check xs else check x)"

text \<open>\<open>if (Status s = a; !s.is_ok()) return s; return b\<close>.\<close>

definition and_then :: "error_code \<Rightarrow> error_code \<Rightarrow> error_code" where
  "and_then a b = (if is_ok a then b else a)"

text \<open>
  The loop \<open>for (x : xs) { ... return error ...; out.push_back(y); }\<close>: the first error
  ends it, otherwise the outputs are collected in order.
\<close>

fun collect :: "('a \<Rightarrow> 'b result) \<Rightarrow> 'a list \<Rightarrow> 'b list result" where
  "collect f [] = Inr []"
| "collect f (x # xs) =
     (case f x of Inl e \<Rightarrow> Inl e
      | Inr y \<Rightarrow> (case collect f xs of Inl e \<Rightarrow> Inl e | Inr ys \<Rightarrow> Inr (y # ys)))"

section \<open>Lemmas\<close>

lemma collect_okD: "collect f xs = Inr ys \<Longrightarrow> list_all2 (\<lambda>x y. f x = Inr y) xs ys"
  by (induction xs arbitrary: ys) (auto split: sum.splits)

lemma collect_okI: "list_all2 (\<lambda>x y. f x = Inr y) xs ys \<Longrightarrow> collect f xs = Inr ys"
  by (induction rule: list_all2_induct) simp_all

lemma collect_ok: "collect f xs = Inr ys \<longleftrightarrow> list_all2 (\<lambda>x y. f x = Inr y) xs ys"
  using collect_okD collect_okI by blast

lemma collect_error: "collect f xs = Inl e \<Longrightarrow> \<exists>x\<in>set xs. f x = Inl e"
  by (induction xs) (auto split: sum.splits)

lemma collect_total: "(\<exists>ys. collect f xs = Inr ys) \<longleftrightarrow> (\<forall>x\<in>set xs. \<exists>y. f x = Inr y)"
  by (induction xs) (auto split: sum.splits)

lemma is_ok_code [simp]: "is_ok (ErrorCode n) \<longleftrightarrow> n = 0"
  by (simp add: is_ok_def)

lemma first_error_ok: "is_ok (first_error check xs) \<longleftrightarrow> (\<forall>x\<in>set xs. is_ok (check x))"
  by (induction xs) auto

lemma and_then_ok [simp]: "is_ok (and_then a b) \<longleftrightarrow> is_ok a \<and> is_ok b"
  by (simp add: and_then_def)

lemma is_ok_iff: "is_ok code \<longleftrightarrow> code_value code = 0"
  by (cases code) (simp add: is_ok_def)

lemma find_entry_map_of: "find_entry t code = map_of t code"
  by (induction t code rule: find_entry.induct) auto

lemma kCodeTable_codes_distinct: "distinct (map fst kCodeTable)"
  by (simp add: kCodeTable_def)

lemma kCodeTable_symbols_distinct: "distinct (map (fst \<circ> snd) kCodeTable)"
  by (simp add: kCodeTable_def)

lemma kCodeTable_values_small: "entry \<in> set kCodeTable \<Longrightarrow> code_value (fst entry) < 905"
  by (auto simp: kCodeTable_def)

lemma find_entry_in_table:
  "(code, symbol, display) \<in> set kCodeTable \<Longrightarrow> find_entry kCodeTable code = Some (symbol, display)"
  by (simp add: find_entry_map_of map_of_eq_Some_iff kCodeTable_codes_distinct)

end
