(* ===== verification/Limits.thy ===== *)
theory Limits
  imports Prelude
begin

text \<open>
  The hard resource and format bounds (\<open>include/cpath/limits.hpp\<close>). Sizes and counts
  are natural numbers; the scoring ceilings, which take part in 64-bit arithmetic, are
  64-bit words. The definitions stay folded in the component proofs and are unfolded by
  \<open>limit_defs\<close> where a number matters.
\<close>

definition kCanonicalFormatVersion :: u16 where [limit_defs]: "kCanonicalFormatVersion = 1"
definition kStoreFormatVersion :: u16 where [limit_defs]: "kStoreFormatVersion = 1"
definition kWireProtocolVersion :: u16 where [limit_defs]: "kWireProtocolVersion = 1"

definition kMaxIdentifierBytes :: nat where [limit_defs]: "kMaxIdentifierBytes = 64"
definition kMaxTierNameBytes :: nat where [limit_defs]: "kMaxTierNameBytes = 32"
definition kMaxPlacementLabelBytes :: nat where [limit_defs]: "kMaxPlacementLabelBytes = 32"
definition kMaxDetailBytes :: nat where [limit_defs]: "kMaxDetailBytes = 512"

definition kMaxNodes :: nat where [limit_defs]: "kMaxNodes = 65536"
definition kMaxEdges :: nat where [limit_defs]: "kMaxEdges = 1048576"
definition kMaxFailureDomains :: nat where [limit_defs]: "kMaxFailureDomains = 65536"
definition kMaxParticipants :: nat where [limit_defs]: "kMaxParticipants = 65536"
definition kMaxLogicalEdges :: nat where [limit_defs]: "kMaxLogicalEdges = 262144"
definition kMaxBindings :: nat where [limit_defs]: "kMaxBindings = 65536"
definition kMaxGroups :: nat where [limit_defs]: "kMaxGroups = 4096"
definition kMaxGroupMembers :: nat where [limit_defs]: "kMaxGroupMembers = 65536"
definition kMaxPolicySetEntries :: nat where [limit_defs]: "kMaxPolicySetEntries = 4096"

definition kMinPathsPerLogicalEdge :: nat where [limit_defs]: "kMinPathsPerLogicalEdge = 1"
definition kMaxPathsPerLogicalEdge :: nat where [limit_defs]: "kMaxPathsPerLogicalEdge = 8"
definition kMaxHops :: nat where [limit_defs]: "kMaxHops = 256"
definition kMaxStages :: nat where [limit_defs]: "kMaxStages = 64"
definition kMaxHierarchyLevels :: nat where [limit_defs]: "kMaxHierarchyLevels = 8"
definition kMaxSearchExpansions :: nat where [limit_defs]: "kMaxSearchExpansions = 16777216"

definition kCostCeiling :: u64 where [limit_defs]: "kCostCeiling = 4611686018427387904"
definition kMaxScoringWeightMilli :: u64 where [limit_defs]: "kMaxScoringWeightMilli = 1000000"
definition kMaxCapacityMbps :: u64 where [limit_defs]: "kMaxCapacityMbps = 1099511627776"
definition kMaxLatencyMicros :: u64 where [limit_defs]: "kMaxLatencyMicros = 1099511627776"

definition kMaxPlanRecordBytes :: nat where [limit_defs]: "kMaxPlanRecordBytes = 16777216"
definition kMaxStoreRecords :: nat where [limit_defs]: "kMaxStoreRecords = 4096"
definition kMaxStoreTotalBytes :: nat where [limit_defs]: "kMaxStoreTotalBytes = 536870912"
definition kMaxFramePayloadBytes :: nat where [limit_defs]: "kMaxFramePayloadBytes = 1048576"

definition kMaxPendingRequestsPerSession :: nat where [limit_defs]: "kMaxPendingRequestsPerSession = 64"

definition kDigestBytes :: nat where [limit_defs]: "kDigestBytes = 32"

end
