(* ===== verification/Ids.thy ===== *)
theory Ids
  imports Status Limits
begin

text \<open>
  Identities (\<open>include/cpath/ids.hpp\<close>, \<open>src/ids.cpp\<close>). A \<open>StrongId\<close> over
  \<open>std::string\<close> is a \<open>string\<close> and over \<open>std::uint64_t\<close> a 64-bit word; the
  empty string and zero are the invalid sentinels.
\<close>

type_synonym node_id = string
type_synonym edge_id = string
type_synonym participant_id = string
type_synonym group_id = string
type_synonym domain_id = string
type_synonym tier_id = string
type_synonym generation = u64

definition id_valid :: "string \<Rightarrow> bool" where
  "id_valid s \<longleftrightarrow> s \<noteq> []"

definition generation_valid :: "generation \<Rightarrow> bool" where
  "generation_valid g \<longleftrightarrow> g \<noteq> 0"

definition alphanumeric_or_underscore :: "char \<Rightarrow> bool" where
  "alphanumeric_or_underscore c \<longleftrightarrow>
     (CHR ''a'' \<le> c \<and> c \<le> CHR ''z'') \<or> (CHR ''A'' \<le> c \<and> c \<le> CHR ''Z'') \<or>
     (CHR ''0'' \<le> c \<and> c \<le> CHR ''9'') \<or> c = CHR ''_''"

definition valid_identifier :: "string \<Rightarrow> nat \<Rightarrow> bool" where
  "valid_identifier text max_bytes =
     (if text = [] \<or> length text > max_bytes then False
      else if \<not> alphanumeric_or_underscore (hd text) then False
      else list_all (\<lambda>ch. alphanumeric_or_underscore ch \<or> ch = CHR ''-'' \<or> ch = CHR ''.''
                          \<or> ch = CHR '':'') text)"

definition is_valid_identifier :: "string \<Rightarrow> bool" where
  "is_valid_identifier text = valid_identifier text kMaxIdentifierBytes"

definition is_valid_tier_name :: "string \<Rightarrow> bool" where
  "is_valid_tier_name text = valid_identifier text kMaxTierNameBytes"

definition make_identifier :: "string \<Rightarrow> string result" where
  "make_identifier text =
     (if \<not> is_valid_identifier text then
        (if text = [] then Inl kMissingRequiredField
         else if length text > kMaxIdentifierBytes then Inl kStringTooLong
         else Inl kInvalidCharacter)
      else Inr text)"

definition make_tier_name :: "string \<Rightarrow> string result" where
  "make_tier_name text =
     (if \<not> is_valid_tier_name text then
        (if text = [] then Inl kMissingRequiredField
         else if length text > kMaxTierNameBytes then Inl kStringTooLong
         else Inl kInvalidCharacter)
      else Inr text)"

section \<open>Lemmas\<close>

lemma id_valid_Nil [simp]: "\<not> id_valid []"
  by (simp add: id_valid_def)

lemma is_valid_identifier_length: "is_valid_identifier s \<Longrightarrow> length s \<le> kMaxIdentifierBytes"
  by (auto simp: is_valid_identifier_def valid_identifier_def split: if_splits)

lemma is_valid_identifier_nonempty: "is_valid_identifier s \<Longrightarrow> id_valid s"
  by (auto simp: is_valid_identifier_def valid_identifier_def id_valid_def split: if_splits)

lemma is_valid_tier_name_identifier: "is_valid_tier_name s \<Longrightarrow> is_valid_identifier s"
  by (auto simp: is_valid_tier_name_def is_valid_identifier_def valid_identifier_def limit_defs
      split: if_splits)

end
