(* ===== verification/Digest.thy ===== *)
theory Digest
  imports Status Limits
begin

text \<open>
  Digests and integrity primitives (\<open>include/cpath/digest.hpp\<close>, \<open>src/digest.cpp\<close>):
  the incremental SHA-256 hasher with its 64-byte buffer, the table-driven CRC-32, FNV-1a,
  the hexadecimal form of a digest, and the saturating 64-bit arithmetic every cost and
  demand computation of the planner goes through.
\<close>

unbundle bit_operations_syntax

section \<open>Saturating arithmetic\<close>

definition saturating_add :: "u64 \<Rightarrow> u64 \<Rightarrow> u64 \<Rightarrow> u64" where
  "saturating_add a b ceiling =
     (if a \<ge> ceiling \<or> b \<ge> ceiling \<or> a > ceiling - b then ceiling else a + b)"

definition saturating_mul :: "u64 \<Rightarrow> u64 \<Rightarrow> u64 \<Rightarrow> u64" where
  "saturating_mul a b ceiling =
     (if a = 0 \<or> b = 0 then 0
      else if a \<ge> ceiling \<or> b \<ge> ceiling then ceiling
      else if a > ceiling div b then ceiling
      else a * b)"

definition saturating_sub :: "u64 \<Rightarrow> u64 \<Rightarrow> u64" where
  "saturating_sub a b = (if a > b then a - b else 0)"

section \<open>Digest values and their hexadecimal form\<close>

type_synonym digest = bytes

definition is_zero :: "digest \<Rightarrow> bool" where
  "is_zero d = (fold (\<lambda>b acc. acc OR b) d 0 = 0)"

definition kHexDigits :: string where
  "kHexDigits = ''0123456789abcdef''"

definition hex_of_byte :: "u8 \<Rightarrow> string" where
  "hex_of_byte b = [kHexDigits ! unat (drop_bit 4 b AND 15), kHexDigits ! unat (b AND 15)]"

definition hex :: "digest \<Rightarrow> string" where
  "hex d = concat (map hex_of_byte d)"

definition hex_value :: "char \<Rightarrow> int" where
  "hex_value ch =
     (let c = int (of_char ch) in
      if 48 \<le> c \<and> c \<le> 57 then c - 48
      else if 97 \<le> c \<and> c \<le> 102 then 10 + (c - 97)
      else if 65 \<le> c \<and> c \<le> 70 then 10 + (c - 65)
      else -1)"

fun from_hex_bytes :: "string \<Rightarrow> digest result" where
  "from_hex_bytes (h # l # rest) =
     (let high = hex_value h; low = hex_value l in
      if high < 0 \<or> low < 0 then Inl kInvalidCharacter
      else (case from_hex_bytes rest of Inl e \<Rightarrow> Inl e
            | Inr bs \<Rightarrow> Inr (word_of_int (or (push_bit 4 high) low) # bs)))"
| "from_hex_bytes _ = Inr []"

definition from_hex :: "string \<Rightarrow> digest result" where
  "from_hex text = (if length text \<noteq> kDigestBytes * 2 then Inl kInvalidSyntax
                    else from_hex_bytes text)"

definition short_id :: "digest \<Rightarrow> u64" where
  "short_id d = fold (\<lambda>i v. v OR push_bit (8 * i) (ucast (d ! i))) [0..<8] 0"

section \<open>SHA-256\<close>

definition kRoundConstants :: "u32 list" where
  "kRoundConstants = concat [
    [0x428a2f98, 0x71374491, 0xb5c0fbcf, 0xe9b5dba5, 0x3956c25b, 0x59f111f1, 0x923f82a4, 0xab1c5ed5],
    [0xd807aa98, 0x12835b01, 0x243185be, 0x550c7dc3, 0x72be5d74, 0x80deb1fe, 0x9bdc06a7, 0xc19bf174],
    [0xe49b69c1, 0xefbe4786, 0x0fc19dc6, 0x240ca1cc, 0x2de92c6f, 0x4a7484aa, 0x5cb0a9dc, 0x76f988da],
    [0x983e5152, 0xa831c66d, 0xb00327c8, 0xbf597fc7, 0xc6e00bf3, 0xd5a79147, 0x06ca6351, 0x14292967],
    [0x27b70a85, 0x2e1b2138, 0x4d2c6dfc, 0x53380d13, 0x650a7354, 0x766a0abb, 0x81c2c92e, 0x92722c85],
    [0xa2bfe8a1, 0xa81a664b, 0xc24b8b70, 0xc76c51a3, 0xd192e819, 0xd6990624, 0xf40e3585, 0x106aa070],
    [0x19a4c116, 0x1e376c08, 0x2748774c, 0x34b0bcb5, 0x391c0cb3, 0x4ed8aa4a, 0x5b9cca4f, 0x682e6ff3],
    [0x748f82ee, 0x78a5636f, 0x84c87814, 0x8cc70208, 0x90befffa, 0xa4506ceb, 0xbef9a3f7, 0xc67178f2]]"

definition kInitialState :: "u32 list" where
  "kInitialState = [
    0x6a09e667, 0xbb67ae85, 0x3c6ef372, 0xa54ff53a, 0x510e527f, 0x9b05688c, 0x1f83d9ab, 0x5be0cd19]"

definition rotr :: "u32 \<Rightarrow> nat \<Rightarrow> u32" where
  "rotr v shift = drop_bit shift v OR push_bit (32 - shift) v"

definition block_word :: "bytes \<Rightarrow> nat \<Rightarrow> u32" where
  "block_word block i =
     push_bit 24 (ucast (block ! (i * 4))) OR push_bit 16 (ucast (block ! (i * 4 + 1)))
     OR push_bit 8 (ucast (block ! (i * 4 + 2))) OR ucast (block ! (i * 4 + 3))"

definition schedule_step :: "u32 list \<Rightarrow> u32 list" where
  "schedule_step w =
     (let i = length w;
          s0 = rotr (w ! (i - 15)) 7 XOR rotr (w ! (i - 15)) 18 XOR drop_bit 3 (w ! (i - 15));
          s1 = rotr (w ! (i - 2)) 17 XOR rotr (w ! (i - 2)) 19 XOR drop_bit 10 (w ! (i - 2))
      in w @ [w ! (i - 16) + s0 + w ! (i - 7) + s1])"

definition schedule :: "bytes \<Rightarrow> u32 list" where
  "schedule block = (schedule_step ^^ 48) (map (block_word block) [0..<16])"

fun compress_round :: "u32 \<Rightarrow> u32 \<Rightarrow> u32 list \<Rightarrow> u32 list" where
  "compress_round k w [a, b, c, d, e, f, g, h] =
     (let big_s1 = rotr e 6 XOR rotr e 11 XOR rotr e 25;
          choice = (e AND f) XOR (NOT e AND g);
          temp1 = h + big_s1 + choice + k + w;
          big_s0 = rotr a 2 XOR rotr a 13 XOR rotr a 22;
          majority = (a AND b) XOR (a AND c) XOR (b AND c);
          temp2 = big_s0 + majority
      in [temp1 + temp2, a, b, c, d + temp1, e, f, g])"
| "compress_round k w st = st"

definition compress :: "u32 list \<Rightarrow> bytes \<Rightarrow> u32 list" where
  "compress st block =
     map2 (+) st (fold (\<lambda>(k, w). compress_round k w) (zip kRoundConstants (schedule block)) st)"

record sha256 =
  sha_state :: "u32 list"
  total_bytes :: u64
  sha_buffer :: bytes
  buffered :: nat

definition sha256_init :: sha256 where
  "sha256_init = \<lparr>sha_state = kInitialState, total_bytes = 0,
                  sha_buffer = replicate 64 0, buffered = 0\<rparr>"

text \<open>\<open>memcpy(dst + offset, src, n)\<close> on a fixed-size array.\<close>

definition memcpy :: "bytes \<Rightarrow> nat \<Rightarrow> bytes \<Rightarrow> nat \<Rightarrow> bytes" where
  "memcpy dst offset src n = take offset dst @ take n src @ drop (offset + n) dst"

text \<open>The loop \<open>while (size >= 64u) compress(data)\<close>.\<close>

fun absorb_blocks :: "u32 list \<Rightarrow> bytes \<Rightarrow> u32 list \<times> bytes" where
  "absorb_blocks st data =
     (if length data \<ge> 64 then absorb_blocks (compress st (take 64 data)) (drop 64 data)
      else (st, data))"

declare absorb_blocks.simps [simp del]

definition fill_buffer :: "sha256 \<Rightarrow> bytes \<Rightarrow> sha256 \<times> bytes" where
  "fill_buffer h data =
     (if buffered h > 0 then
        (let missing = 64 - buffered h;
             n = (if length data < missing then length data else missing);
             buf = memcpy (sha_buffer h) (buffered h) data n;
             h' = h\<lparr>sha_buffer := buf, buffered := buffered h + n\<rparr>
         in if buffered h' = 64
            then (h'\<lparr>sha_state := compress (sha_state h') buf, buffered := 0\<rparr>, drop n data)
            else (h', drop n data))
      else (h, data))"

definition sha256_update :: "sha256 \<Rightarrow> bytes \<Rightarrow> sha256" where
  "sha256_update h data =
     (let h0 = h\<lparr>total_bytes := total_bytes h + of_nat (length data)\<rparr>;
          (h1, rest) = fill_buffer h0 data;
          (st, tail) = absorb_blocks (sha_state h1) rest;
          h2 = h1\<lparr>sha_state := st\<rparr>
      in if length tail > 0
         then h2\<lparr>sha_buffer := memcpy (sha_buffer h2) 0 tail (length tail), buffered := length tail\<rparr>
         else h2)"

lemma buffered_update_one:
  "buffered (sha256_update h [z]) =
     (if buffered h = 63 then 0 else if buffered h < 63 then buffered h + 1 else 1)"
  by (auto simp: sha256_update_def fill_buffer_def absorb_blocks.simps Let_def)

text \<open>The padding loop \<open>while (buffered_ != 56u) update(&zero, 1)\<close>.\<close>

function pad_zeros :: "sha256 \<Rightarrow> sha256" where
  "pad_zeros h = (if buffered h = 56 then h else pad_zeros (sha256_update h [0]))"
  by pat_completeness auto
termination
  by (relation "measure (\<lambda>h. if buffered h \<le> 56 then 56 - buffered h
                             else if buffered h < 64 then 121 - buffered h else 200)")
     (auto simp: buffered_update_one)

declare pad_zeros.simps [simp del]

definition length_bytes :: "u64 \<Rightarrow> bytes" where
  "length_bytes bit_length =
     map (\<lambda>i. ucast (drop_bit (56 - 8 * i) bit_length AND 0xFF)) [0..<8]"

definition state_bytes :: "u32 \<Rightarrow> bytes" where
  "state_bytes w = [ucast (drop_bit 24 w AND 0xFF), ucast (drop_bit 16 w AND 0xFF),
                    ucast (drop_bit 8 w AND 0xFF), ucast (w AND 0xFF)]"

definition sha256_finish :: "sha256 \<Rightarrow> digest" where
  "sha256_finish h =
     (let bit_length = total_bytes h * 8;
          h1 = sha256_update h [0x80];
          h2 = pad_zeros h1;
          h3 = sha256_update h2 (length_bytes bit_length)
      in concat (map state_bytes (sha_state h3)))"

definition sha256_hash :: "bytes \<Rightarrow> digest" where
  "sha256_hash data = sha256_finish (sha256_update sha256_init data)"

section \<open>CRC-32 and FNV-1a\<close>

definition crc32_step :: "u32 \<Rightarrow> u32" where
  "crc32_step v = (if v AND 1 \<noteq> 0 then 0xEDB88320 XOR drop_bit 1 v else drop_bit 1 v)"

definition crc32_table :: "u32 list" where
  "crc32_table = map (\<lambda>i. (crc32_step ^^ 8) (of_nat i)) [0..<256]"

definition crc32 :: "bytes \<Rightarrow> u32" where
  "crc32 data =
     fold (\<lambda>b v. (crc32_table ! unat ((v XOR ucast b) AND 0xFF)) XOR drop_bit 8 v) data 0xFFFFFFFF
     XOR 0xFFFFFFFF"

definition fnv1a64 :: "bytes \<Rightarrow> u64" where
  "fnv1a64 data = fold (\<lambda>b v. (v XOR ucast b) * 0x100000001B3) data 0xCBF29CE484222325"

section \<open>Reference definitions\<close>

text \<open>
  What the hasher promises, stated without its buffer: pad the whole message as FIPS 180-4
  does, cut it into 64-byte blocks and fold the compression function over them. The bytes
  buffered by an incremental hasher are \<open>pending\<close>.
\<close>

definition pending :: "sha256 \<Rightarrow> bytes" where
  "pending h = take (buffered h) (sha_buffer h)"

definition sha_wf :: "sha256 \<Rightarrow> bool" where
  "sha_wf h \<longleftrightarrow> buffered h < 64 \<and> length (sha_buffer h) = 64"

fun chunks64 :: "bytes \<Rightarrow> bytes list" where
  "chunks64 data = (if length data \<ge> 64 then take 64 data # chunks64 (drop 64 data) else [])"

declare chunks64.simps [simp del]

definition sha_pad :: "bytes \<Rightarrow> bytes" where
  "sha_pad data =
     data @ [0x80] @ replicate ((119 - length data mod 64) mod 64) 0
     @ length_bytes (of_nat (length data) * 8)"

definition sha256_reference :: "bytes \<Rightarrow> digest" where
  "sha256_reference data =
     concat (map state_bytes (foldl compress kInitialState (chunks64 (sha_pad data))))"

text \<open>CRC-32 without the table: eight polynomial division steps per byte.\<close>

definition crc32_reference :: "bytes \<Rightarrow> u32" where
  "crc32_reference data =
     fold (\<lambda>b v. (crc32_step ^^ 8) (v XOR ucast b)) data 0xFFFFFFFF XOR 0xFFFFFFFF"

section \<open>Saturating arithmetic is exact below its ceiling\<close>

lemma unat_saturating_add:
  "unat (saturating_add a b c) = min (unat c) (unat a + unat b)"
proof (cases "a \<ge> c \<or> b \<ge> c \<or> a > c - b")
  case True
  then have "unat c \<le> unat a + unat b"
  proof (elim disjE)
    assume "c - b < a"
    then show ?thesis
      by (cases "b \<le> c") (auto simp: word_less_nat_alt word_le_nat_alt unat_sub)
  qed (simp_all add: word_le_nat_alt)
  with True show ?thesis by (simp add: saturating_add_def)
next
  case False
  then have "b \<le> c" "a \<le> c - b" by auto
  then have "unat a + unat b \<le> unat c"
    by (simp add: word_le_nat_alt unat_sub)
  moreover from this have "unat (a + b) = unat a + unat b"
    using u64_numeral_le [of c] by (auto intro!: unat_plus_no_overflow_u64 intro: le_less_trans)
  ultimately show ?thesis using False by (simp add: saturating_add_def)
qed

lemma unat_saturating_mul:
  "unat (saturating_mul a b c) = min (unat c) (unat a * unat b)"
proof (cases "a = 0 \<or> b = 0")
  case True
  then show ?thesis by (auto simp: saturating_mul_def)
next
  case False
  then have pos: "unat a > 0" "unat b > 0" by (auto simp: unat_gt_0)
  show ?thesis
  proof (cases "a \<ge> c \<or> b \<ge> c \<or> a > c div b")
    case True
    then have "unat c \<le> unat a * unat b"
    proof (elim disjE)
      assume "c \<le> a"
      with pos show ?thesis by (simp add: word_le_nat_alt) (metis le_trans mult.right_neutral mult_le_mono2 One_nat_def Suc_leI)
    next
      assume "c \<le> b"
      with pos show ?thesis by (simp add: word_le_nat_alt) (metis le_trans mult_le_mono1 nat_mult_1 One_nat_def Suc_leI)
    next
      assume "c div b < a"
      then have "unat c div unat b < unat a" by (simp add: word_less_nat_alt unat_div)
      with pos show ?thesis by (metis div_less_iff_less_mult less_imp_le)
    qed
    with True False show ?thesis by (auto simp: saturating_mul_def)
  next
    case guard: False
    then have "unat a \<le> unat c div unat b" by (simp add: not_less word_le_nat_alt unat_div)
    with pos have le: "unat a * unat b \<le> unat c" by (simp add: less_eq_div_iff_mult_less_eq)
    moreover from le have "unat (a * b) = unat a * unat b"
      using u64_numeral_le [of c] by (auto intro!: unat_mult_no_overflow_u64 intro: le_less_trans)
    ultimately show ?thesis using guard False by (simp add: saturating_mul_def)
  qed
qed

lemma unat_saturating_sub: "unat (saturating_sub a b) = unat a - unat b"
  by (auto simp: saturating_sub_def word_less_nat_alt unat_sub word_le_nat_alt)

lemma saturating_add_le: "saturating_add a b c \<le> c"
  by (simp add: word_le_nat_alt unat_saturating_add)

lemma saturating_add_mono:
  "a \<le> a' \<Longrightarrow> b \<le> b' \<Longrightarrow> saturating_add a b c \<le> saturating_add a' b' c"
  by (simp add: word_le_nat_alt unat_saturating_add)

lemma saturating_add_zero: "a \<le> c \<Longrightarrow> saturating_add a 0 c = a"
  by (simp add: word_le_nat_alt unat_saturating_add word_unat_eq_iff)

section \<open>Hexadecimal digests\<close>

lemma hex_value_digit: "n < 16 \<Longrightarrow> hex_value (kHexDigits ! n) = int n"
proof -
  assume "n < 16"
  then have "n \<in> set [0..<16]" by simp
  then show ?thesis by (auto simp: upt_rec hex_value_def kHexDigits_def)
qed

lemma nibble_bound: "unat (x AND 15 :: u8) < 16"
proof -
  have "x AND 15 \<le> (15 :: u8)" by (rule word_and_le1)
  then show ?thesis by (simp add: word_le_nat_alt)
qed

lemma nibbles_join:
  "(word_of_int (or (push_bit 4 (uint (drop_bit 4 b AND 15))) (uint (b AND 15))) :: u8) = b"
proof (rule bit_word_eqI)
  fix n assume "n < LENGTH(8)"
  then have "n \<in> {0, 1, 2, 3, 4, 5, 6, 7}" by auto
  then show "bit (word_of_int (or (push_bit 4 (uint (drop_bit 4 b AND 15))) (uint (b AND 15))) :: u8) n = bit b n"
    by (auto simp: bit_simps)
qed

lemma from_hex_bytes_hex_of_byte:
  "from_hex_bytes (hex_of_byte b @ rest) =
     (case from_hex_bytes rest of Inl e \<Rightarrow> Inl e | Inr bs \<Rightarrow> Inr (b # bs))"
  by (simp add: hex_of_byte_def hex_value_digit nibble_bound nibbles_join split: sum.split)

lemma from_hex_bytes_hex: "from_hex_bytes (hex d) = Inr d"
  by (induction d) (simp_all add: hex_def from_hex_bytes_hex_of_byte)

lemma length_hex: "length (hex d) = 2 * length d"
  by (induction d) (simp_all add: hex_def hex_of_byte_def)

lemma from_hex_hex: "length d = kDigestBytes \<Longrightarrow> from_hex (hex d) = Inr d"
  by (simp add: from_hex_def length_hex from_hex_bytes_hex)

section \<open>SHA-256\<close>

lemma absorb_blocks_short: "length data < 64 \<Longrightarrow> absorb_blocks st data = (st, data)"
  by (subst absorb_blocks.simps) simp

lemma absorb_blocks_append:
  "absorb_blocks st xs = (st', r) \<Longrightarrow> absorb_blocks st (xs @ ys) = absorb_blocks st' (r @ ys)"
proof (induction st xs arbitrary: st' r rule: absorb_blocks.induct)
  case (1 st data)
  show ?case
  proof (cases "length data \<ge> 64")
    case True
    with 1 show ?thesis
      by (simp add: absorb_blocks.simps [of st data] absorb_blocks.simps [of st "data @ ys"])
  next
    case False
    with 1 show ?thesis by (simp add: absorb_blocks_short)
  qed
qed

lemma absorb_blocks_rest: "absorb_blocks st xs = (st', r) \<Longrightarrow> length r = length xs mod 64"
proof (induction st xs arbitrary: st' r rule: absorb_blocks.induct)
  case (1 st data)
  show ?case
  proof (cases "length data \<ge> 64")
    case True
    have "absorb_blocks (compress st (take 64 data)) (drop 64 data) = (st', r)"
      using 1(2) True by (subst (asm) absorb_blocks.simps) simp
    then have "length r = length (drop 64 data) mod 64" by (rule 1(1) [OF True])
    with True show ?thesis by (metis le_mod_geq length_drop)
  next
    case False
    with 1(2) show ?thesis by (simp add: absorb_blocks_short)
  qed
qed

lemma absorb_blocks_fold: "fst (absorb_blocks st xs) = foldl compress st (chunks64 xs)"
proof (induction st xs rule: absorb_blocks.induct)
  case (1 st data)
  show ?case
  proof (cases "length data \<ge> 64")
    case True
    with 1 show ?thesis
      by (simp add: absorb_blocks.simps [of st data] chunks64.simps [of data])
  next
    case False
    then show ?thesis
      by (simp add: absorb_blocks_short chunks64.simps [of data])
  qed
qed

lemma sha256_update_absorbs:
  assumes wf: "sha_wf h"
  shows "absorb_blocks (sha_state h) (pending h @ data)
           = (sha_state (sha256_update h data), pending (sha256_update h data))
         \<and> sha_wf (sha256_update h data)
         \<and> total_bytes (sha256_update h data) = total_bytes h + of_nat (length data)"
proof (cases "buffered h > 0 \<and> length data < 64 - buffered h")
  case True
  with wf show ?thesis
    by (auto simp: sha_wf_def pending_def sha256_update_def fill_buffer_def memcpy_def
        absorb_blocks_short min_def Let_def)
next
  case False
  define n where "n = (if buffered h > 0 then 64 - buffered h else 0)"
  define st1 where "st1 = (if buffered h > 0 then compress (sha_state h) (pending h @ take n data)
                           else sha_state h)"
  obtain st tail where absorb: "absorb_blocks st1 (drop n data) = (st, tail)" by fastforce
  then have tail: "length tail < 64" using absorb_blocks_rest by fastforce
  have "absorb_blocks (sha_state h) (pending h @ data) = absorb_blocks st1 (drop n data)"
  proof (cases "buffered h > 0")
    case True
    have "length (pending h) = buffered h" "buffered h < 64"
      using wf by (simp_all add: sha_wf_def pending_def)
    moreover from this True False have "64 \<le> buffered h + length data" by linarith
    ultimately show ?thesis using True
      by (simp add: absorb_blocks.simps [of "sha_state h" "pending h @ data"] st1_def n_def)
  qed (simp add: st1_def n_def pending_def)
  moreover have "sha_state (sha256_update h data) = st \<and> pending (sha256_update h data) = tail
      \<and> sha_wf (sha256_update h data)
      \<and> total_bytes (sha256_update h data) = total_bytes h + of_nat (length data)"
    using wf False absorb tail
    by (auto simp: sha256_update_def fill_buffer_def memcpy_def st1_def n_def pending_def
        sha_wf_def Let_def split: if_splits)
  ultimately show ?thesis using absorb by simp
qed

lemma pad_zeros_absorbs:
  assumes "sha_wf h"
  shows "absorb_blocks (sha_state h) (pending h @ replicate ((120 - buffered h) mod 64) 0)
           = (sha_state (pad_zeros h), pending (pad_zeros h))
         \<and> sha_wf (pad_zeros h) \<and> buffered (pad_zeros h) = 56"
  using assms
proof (induction h rule: pad_zeros.induct)
  case (1 h)
  show ?case
  proof (cases "buffered h = 56")
    case True
    with 1 show ?thesis
      by (simp add: pad_zeros.simps [of h] sha_wf_def pending_def absorb_blocks_short)
  next
    case False
    let ?h = "sha256_update h [0]"
    from sha256_update_absorbs [OF 1(2), of "[0]"] have step:
      "absorb_blocks (sha_state h) (pending h @ [0]) = (sha_state ?h, pending ?h)" "sha_wf ?h"
      by simp_all
    have "buffered h < 64" using 1(2) by (simp add: sha_wf_def)
    then have "buffered h = 63 \<or> buffered h < 56 \<or> 56 < buffered h \<and> buffered h < 63"
      using False by auto
    then have count: "(120 - buffered h) mod 64 = Suc ((120 - buffered ?h) mod 64)"
      by (auto simp: buffered_update_one mod_if)
    have "absorb_blocks (sha_state h) (pending h @ replicate ((120 - buffered h) mod 64) 0)
       = absorb_blocks (sha_state ?h) (pending ?h @ replicate ((120 - buffered ?h) mod 64) 0)"
      using absorb_blocks_append [OF step(1), of "replicate ((120 - buffered ?h) mod 64) 0"]
      by (simp add: count)
    with 1(1) [OF False step(2)] False show ?thesis
      by (simp add: pad_zeros.simps [of h])
  qed
qed

lemma sha256_init_facts [simp]:
  "sha_wf sha256_init" "pending sha256_init = []" "sha_state sha256_init = kInitialState"
  "total_bytes sha256_init = 0"
  by (simp_all add: sha256_init_def sha_wf_def pending_def)

lemma length_pending: "sha_wf h \<Longrightarrow> length (pending h) = buffered h"
  by (simp add: sha_wf_def pending_def)

lemma sha256_update_append:
  assumes "sha_wf h"
  shows "sha_state (sha256_update (sha256_update h a) b) = sha_state (sha256_update h (a @ b))"
    and "pending (sha256_update (sha256_update h a) b) = pending (sha256_update h (a @ b))"
    and "total_bytes (sha256_update (sha256_update h a) b) = total_bytes (sha256_update h (a @ b))"
proof -
  note a = sha256_update_absorbs [OF assms, of a]
  note b = sha256_update_absorbs [of "sha256_update h a" b]
  note ab = sha256_update_absorbs [OF assms, of "a @ b"]
  from a have "absorb_blocks (sha_state h) (pending h @ a @ b) =
      absorb_blocks (sha_state (sha256_update h a)) (pending (sha256_update h a) @ b)"
    using absorb_blocks_append [of "sha_state h" "pending h @ a"] by simp
  with a b ab show
    "sha_state (sha256_update (sha256_update h a) b) = sha_state (sha256_update h (a @ b))"
    "pending (sha256_update (sha256_update h a) b) = pending (sha256_update h (a @ b))"
    "total_bytes (sha256_update (sha256_update h a) b) = total_bytes (sha256_update h (a @ b))"
    by simp_all
qed

lemma length_length_bytes: "length (length_bytes x) = 8"
  by (simp add: length_bytes_def)

lemma sha256_hash_reference: "sha256_hash data = sha256_reference data"
proof -
  define h0 where "h0 = sha256_update sha256_init data"
  define h1 where "h1 = sha256_update h0 [0x80]"
  define h2 where "h2 = pad_zeros h1"
  define bits where "bits = length_bytes (total_bytes h0 * 8)"
  note u0 = sha256_update_absorbs [OF sha256_init_facts(1), of data, folded h0_def]
  note u1 = sha256_update_absorbs [of h0 "[0x80]", folded h1_def]
  note u2 = pad_zeros_absorbs [of h1, folded h2_def]
  note u3 = sha256_update_absorbs [of h2 bits]
  let ?z = "replicate ((120 - buffered h1) mod 64) (0::u8)"
  have "absorb_blocks kInitialState data = (sha_state h0, pending h0)" using u0 by simp
  then have "absorb_blocks kInitialState (data @ [0x80] @ ?z @ bits)
      = absorb_blocks (sha_state h0) (pending h0 @ [0x80] @ ?z @ bits)"
    by (rule absorb_blocks_append)
  also have "\<dots> = absorb_blocks (sha_state h1) (pending h1 @ ?z @ bits)"
    using absorb_blocks_append [of "sha_state h0" "pending h0 @ [0x80]"] u0 u1 by simp
  also have "\<dots> = absorb_blocks (sha_state h2) (pending h2 @ bits)"
    using absorb_blocks_append [of "sha_state h1" "pending h1 @ ?z"] u0 u1 u2 by simp
  finally have all: "fst (absorb_blocks kInitialState (data @ [0x80] @ ?z @ bits))
      = sha_state (sha256_update h2 bits)" using u0 u1 u2 u3 by simp
  have "buffered h1 = length (data @ [0x80]) mod 64"
    using absorb_blocks_rest [of kInitialState "data @ [0x80]" "sha_state h1" "pending h1"]
      absorb_blocks_append [of kInitialState data "sha_state h0" "pending h0" "[0x80]"] u0 u1
    by (simp add: length_pending)
  then have "(120 - buffered h1) mod 64 = (119 - length data mod 64) mod 64"
    by (simp add: mod_Suc)
  then have "data @ [0x80] @ ?z @ bits = sha_pad data"
    using u0 by (simp add: sha_pad_def bits_def)
  with all show ?thesis
    by (simp add: sha256_hash_def sha256_finish_def sha256_reference_def Let_def h0_def h1_def
        h2_def bits_def flip: absorb_blocks_fold)
qed

lemma length_fold_rounds:
  "length st = 8 \<Longrightarrow> length (fold (\<lambda>(k, w). compress_round k w) kws st) = 8"
proof (induction kws arbitrary: st)
  case (Cons kw kws)
  then show ?case
    by (cases kw) (auto simp: numeral_eq_Suc length_Suc_conv Let_def)
qed simp

lemma length_compress: "length st = 8 \<Longrightarrow> length (compress st b) = 8"
  by (simp add: compress_def length_fold_rounds)

lemma length_sha256_hash: "length (sha256_hash data) = kDigestBytes"
proof -
  have "length (foldl compress st bs) = 8" if "length st = 8" for st bs
    using that by (induction bs arbitrary: st) (simp_all add: length_compress)
  then have "length (foldl compress kInitialState (chunks64 (sha_pad data))) = 8"
    by (simp add: kInitialState_def)
  then show ?thesis
    by (simp add: sha256_hash_reference sha256_reference_def state_bytes_def length_concat
        comp_def sum_list_triv kDigestBytes_def)
qed

section \<open>CRC-32\<close>

lemma crc32_step_alt: "crc32_step v = drop_bit 1 v XOR (if bit v 0 then 0xEDB88320 else 0)"
  by (simp add: crc32_step_def and_one_eq odd_iff_mod_2_eq_one xor.commute bit_0)

lemma crc32_step_xor: "crc32_step (x XOR y) = crc32_step x XOR crc32_step y"
  by (simp add: crc32_step_alt bit_xor_iff drop_bit_xor ac_simps)

lemma crc32_steps_xor: "(crc32_step ^^ n) (x XOR y) = (crc32_step ^^ n) x XOR (crc32_step ^^ n) y"
  by (induction n) (simp_all add: crc32_step_xor)

lemma crc32_steps_high: "(\<forall>i<n. \<not> bit x i) \<Longrightarrow> (crc32_step ^^ n) x = drop_bit n x"
  by (induction n) (simp_all add: crc32_step_alt bit_simps drop_bit_drop_bit ac_simps)

lemma low_byte: "(x :: u32) AND 0xFF = take_bit 8 x"
  by (simp add: take_bit_eq_mask mask_eq_exp_minus_1)

lemma take_bit_xor_drop_bit: "take_bit 8 x XOR push_bit 8 (drop_bit 8 x) = (x :: u32)"
  by (rule bit_word_eqI) (auto simp: bit_simps)

lemma crc32_steps_split:
  "(crc32_step ^^ 8) x = (crc32_step ^^ 8) (x AND 0xFF) XOR drop_bit 8 x"
proof -
  have "(crc32_step ^^ 8) (push_bit 8 (drop_bit 8 x)) = drop_bit 8 (push_bit 8 (drop_bit 8 x))"
    by (rule crc32_steps_high) (simp add: bit_simps)
  also have "\<dots> = drop_bit 8 x"
    by (rule bit_word_eqI) (auto simp: bit_simps dest: bit_imp_le_length)
  finally show ?thesis
    using crc32_steps_xor [of 8 "take_bit 8 x" "push_bit 8 (drop_bit 8 x)"]
    by (simp add: low_byte take_bit_xor_drop_bit)
qed

lemma crc32_table_lookup: "crc32_table ! unat ((x :: u32) AND 0xFF) = (crc32_step ^^ 8) (x AND 0xFF)"
proof -
  have "unat (x AND 0xFF) < 256"
    using word_and_le1 [of x "0xFF"] by (simp add: word_le_nat_alt)
  then show ?thesis by (simp add: crc32_table_def)
qed

lemma crc32_eq_reference: "crc32 data = crc32_reference data"
proof -
  have "drop_bit 8 (v XOR ucast b) = drop_bit 8 v" for v :: u32 and b :: u8
    by (rule bit_word_eqI) (auto simp: bit_simps dest: bit_imp_le_length)
  then have "(crc32_table ! unat ((v XOR ucast b) AND 0xFF)) XOR drop_bit 8 v
      = (crc32_step ^^ 8) (v XOR ucast b)" for v :: u32 and b :: u8
    using crc32_steps_split [of "v XOR ucast b"] by (simp only: crc32_table_lookup)
  then show ?thesis by (simp add: crc32_def crc32_reference_def)
qed

section \<open>Properties\<close>

text \<open>
  C25: every saturating operation is exact below the ceiling and clamps at it: read as natural
  numbers, the sum and the product are the minimum of the ceiling and the true result, so no
  cost or demand accumulated through them ever wraps around 64 bits.
\<close>

theorem saturation_exact:
  "unat (saturating_add a b ceiling) = min (unat ceiling) (unat a + unat b) \<and>
   unat (saturating_mul a b ceiling) = min (unat ceiling) (unat a * unat b) \<and>
   unat (saturating_sub a b) = unat a - unat b"
  by (simp add: unat_saturating_add unat_saturating_mul unat_saturating_sub)

text \<open>
  C26: the buffered, incremental hasher computes SHA-256: hashing any byte string through the
  64-byte buffer, the block loop and the byte-wise padding loop gives the digest of the padded
  message folded block by block, and the digest has 32 bytes.
\<close>

theorem sha256_incremental_correct:
  "sha256_hash data = sha256_reference data \<and> length (sha256_hash data) = kDigestBytes"
  using length_sha256_hash [of data] by (simp add: sha256_hash_reference)

text \<open>
  C27: feeding a message in two pieces leaves the hasher in the state one update with the
  concatenation leaves it in: the compression state, the buffered bytes and the length counter
  agree, whatever the piece boundaries.
\<close>

theorem sha256_update_split:
  assumes "sha_wf h"
  shows "sha_state (sha256_update (sha256_update h a) b) = sha_state (sha256_update h (a @ b)) \<and>
         pending (sha256_update (sha256_update h a) b) = pending (sha256_update h (a @ b)) \<and>
         total_bytes (sha256_update (sha256_update h a) b) = total_bytes (sha256_update h (a @ b))"
  using sha256_update_append [OF assms] by simp

theorem sha256_update_split_witness:
  "sha_wf sha256_init \<and>
   sha_state (sha256_update (sha256_update sha256_init [1]) [2]) =
   sha_state (sha256_update sha256_init ([1] @ [2]))"
  using sha256_update_split [of sha256_init "[1]" "[2]"] sha256_init_facts(1) by blast

text \<open>
  C28: the table-driven CRC-32 equals the bit-by-bit polynomial division it abbreviates, on
  every input.
\<close>

theorem crc32_table_correct: "crc32 data = crc32_reference data"
  by (rule crc32_eq_reference)

text \<open>
  C29: the strict hexadecimal decoder inverts the encoder on every 32-byte digest.
\<close>

theorem digest_hex_roundtrip:
  assumes "length d = kDigestBytes"
  shows "from_hex (hex d) = Inr d"
  using assms by (rule from_hex_hex)

theorem digest_hex_roundtrip_witness:
  "length (replicate 32 (171 :: u8)) = kDigestBytes \<and>
   from_hex (hex (replicate 32 171)) = Inr (replicate 32 171)"
  using digest_hex_roundtrip [of "replicate 32 171"] by (simp add: kDigestBytes_def)

end
