(* ===== verification/Buffer.thy ===== *)
theory Buffer
  imports Digest
begin

text \<open>
  The canonical byte encoding (\<open>include/cpath/buffer.hpp\<close>, \<open>src/buffer.cpp\<close>):
  little-endian fixed-width integers and length-prefixed byte strings.

  A \<open>ByteWriter\<close> only ever appends, so each of its operations is modelled by the bytes
  it appends and an encoder by their concatenation. A \<open>ByteReader\<close> is a record of the
  input, the offset and the sticky status; an operation with an output parameter takes the
  old value of that parameter and returns the new one, so a failed read visibly leaves it
  unchanged. The \<open>Status\<close> a read returns is always the reader's status afterwards.

  The locales state what a codec promises: \<open>prefix_code\<close> (an encoding can be read back
  unambiguously from a longer input), \<open>codec\<close> (a decoder inverts the encoder) and
  \<open>strict_codec\<close> (the decoder accepts nothing but encodings). Sequences of items are
  handled once, inside the locales.
\<close>

unbundle bit_operations_syntax

section \<open>ByteWriter\<close>

definition byte_of_char :: "char \<Rightarrow> u8" where
  "byte_of_char c = of_char c"

definition char_of_byte :: "u8 \<Rightarrow> char" where
  "char_of_byte b = char_of (unat b)"

definition put_u8 :: "u8 \<Rightarrow> bytes" where
  "put_u8 v = [v]"

definition put_u16 :: "u16 \<Rightarrow> bytes" where
  "put_u16 v = put_u8 (ucast (v AND 0xFF)) @ put_u8 (ucast (drop_bit 8 v AND 0xFF))"

definition put_u32 :: "u32 \<Rightarrow> bytes" where
  "put_u32 v = put_u16 (ucast (v AND 0xFFFF)) @ put_u16 (ucast (drop_bit 16 v AND 0xFFFF))"

definition put_u64 :: "u64 \<Rightarrow> bytes" where
  "put_u64 v = put_u32 (ucast (v AND 0xFFFFFFFF)) @ put_u32 (ucast (drop_bit 32 v AND 0xFFFFFFFF))"

definition put_boolean :: "bool \<Rightarrow> bytes" where
  "put_boolean b = put_u8 (if b then 1 else 0)"

definition put_raw :: "bytes \<Rightarrow> bytes" where
  "put_raw data = data"

definition put_string :: "string \<Rightarrow> bytes" where
  "put_string s = put_u32 (of_nat (length s)) @ put_raw (map byte_of_char s)"

definition put_digest :: "digest \<Rightarrow> bytes" where
  "put_digest d = put_raw d"

definition put_tagged :: "string \<Rightarrow> bytes" where
  "put_tagged tag = put_string tag"

text \<open>A vector: \<open>u32\<close> size, then each element.\<close>

definition put_list :: "('a \<Rightarrow> bytes) \<Rightarrow> 'a list \<Rightarrow> bytes" where
  "put_list enc xs = put_u32 (of_nat (length xs)) @ concat (map enc xs)"

section \<open>ByteReader\<close>

record byte_reader =
  rd_data :: bytes
  rd_offset :: nat
  rd_status :: error_code

definition new_reader :: "bytes \<Rightarrow> byte_reader" where
  "new_reader data = \<lparr>rd_data = data, rd_offset = 0, rd_status = kOk\<rparr>"

definition remaining :: "byte_reader \<Rightarrow> nat" where
  "remaining r = length (rd_data r) - rd_offset r"

definition at_end :: "byte_reader \<Rightarrow> bool" where
  "at_end r \<longleftrightarrow> rd_offset r = length (rd_data r)"

definition rd_fail :: "error_code \<Rightarrow> byte_reader \<Rightarrow> byte_reader" where
  "rd_fail e r = (if is_ok (rd_status r) then r\<lparr>rd_status := e\<rparr> else r)"

definition need :: "nat \<Rightarrow> byte_reader \<Rightarrow> byte_reader" where
  "need n r =
     (if \<not> is_ok (rd_status r) then r
      else if n > remaining r then rd_fail kTruncatedRecord r else r)"

definition get_u8 :: "u8 \<Rightarrow> byte_reader \<Rightarrow> u8 \<times> byte_reader" where
  "get_u8 out r =
     (if \<not> is_ok (rd_status r) then (out, r)
      else if remaining r < 1 then (out, rd_fail kTruncatedRecord r)
      else (rd_data r ! rd_offset r, r\<lparr>rd_offset := rd_offset r + 1\<rparr>))"

definition get_u16 :: "u16 \<Rightarrow> byte_reader \<Rightarrow> u16 \<times> byte_reader" where
  "get_u16 out r =
     (let (low, r1) = get_u8 0 r in
      if \<not> is_ok (rd_status r1) then (out, r1) else
      let (high, r2) = get_u8 0 r1 in
      if \<not> is_ok (rd_status r2) then (out, r2)
      else (ucast low OR push_bit 8 (ucast high), r2))"

definition get_u32 :: "u32 \<Rightarrow> byte_reader \<Rightarrow> u32 \<times> byte_reader" where
  "get_u32 out r =
     (let (low, r1) = get_u16 0 r in
      if \<not> is_ok (rd_status r1) then (out, r1) else
      let (high, r2) = get_u16 0 r1 in
      if \<not> is_ok (rd_status r2) then (out, r2)
      else (ucast low OR push_bit 16 (ucast high), r2))"

definition get_u64 :: "u64 \<Rightarrow> byte_reader \<Rightarrow> u64 \<times> byte_reader" where
  "get_u64 out r =
     (let (low, r1) = get_u32 0 r in
      if \<not> is_ok (rd_status r1) then (out, r1) else
      let (high, r2) = get_u32 0 r1 in
      if \<not> is_ok (rd_status r2) then (out, r2)
      else (ucast low OR push_bit 32 (ucast high), r2))"

definition get_boolean :: "bool \<Rightarrow> byte_reader \<Rightarrow> bool \<times> byte_reader" where
  "get_boolean out r =
     (let (raw, r1) = get_u8 0 r in
      if \<not> is_ok (rd_status r1) then (out, r1)
      else if raw > 1 then (out, rd_fail kInvalidSyntax r1)
      else (raw = 1, r1))"

definition get_raw :: "bytes \<Rightarrow> nat \<Rightarrow> byte_reader \<Rightarrow> bytes \<times> byte_reader" where
  "get_raw out n r =
     (let r1 = need n r in
      if \<not> is_ok (rd_status r1) then (out, r1)
      else (take n (drop (rd_offset r1) (rd_data r1)), r1\<lparr>rd_offset := rd_offset r1 + n\<rparr>))"

definition get_string :: "string \<Rightarrow> nat \<Rightarrow> byte_reader \<Rightarrow> string \<times> byte_reader" where
  "get_string out max_bytes r =
     (let (len, r1) = get_u32 0 r in
      if \<not> is_ok (rd_status r1) then (out, r1)
      else if unat len > max_bytes then (out, rd_fail kStringTooLong r1)
      else let (view, r2) = get_raw [] (unat len) r1 in
        if \<not> is_ok (rd_status r2) then (out, r2) else (map char_of_byte view, r2))"

definition get_digest :: "digest \<Rightarrow> byte_reader \<Rightarrow> digest \<times> byte_reader" where
  "get_digest out r =
     (let (view, r1) = get_raw [] kDigestBytes r in
      if \<not> is_ok (rd_status r1) then (out, r1) else (view, r1))"

definition get_count :: "u32 \<Rightarrow> nat \<Rightarrow> byte_reader \<Rightarrow> u32 \<times> byte_reader" where
  "get_count out max_count r =
     (let (v, r1) = get_u32 0 r in
      if \<not> is_ok (rd_status r1) then (out, r1)
      else if unat v > max_count then (out, rd_fail kTooManyItems r1)
      else (v, r1))"

definition require_end :: "byte_reader \<Rightarrow> byte_reader" where
  "require_end r =
     (if \<not> is_ok (rd_status r) then r
      else if \<not> at_end r then rd_fail kTrailingGarbage r else r)"

text \<open>The loop \<open>for (index = 0; index < total; ++index)\<close> that reads and appends one item.\<close>

fun get_items :: "(byte_reader \<Rightarrow> 'a \<times> byte_reader) \<Rightarrow> nat \<Rightarrow> byte_reader \<Rightarrow> 'a list \<times> byte_reader" where
  "get_items item 0 r = ([], r)"
| "get_items item (Suc n) r =
     (let (x, r1) = item r; (xs, r2) = get_items item n r1 in (x # xs, r2))"

text \<open>\<open>count(total, max_count)\<close> followed by that loop.\<close>

definition get_list :: "nat \<Rightarrow> (byte_reader \<Rightarrow> 'a \<times> byte_reader) \<Rightarrow> byte_reader \<Rightarrow> 'a list \<times> byte_reader" where
  "get_list max_count item r =
     (let (total, r1) = get_count 0 max_count r in get_items item (unat total) r1)"

definition checked_add_u64 :: "u64 \<Rightarrow> u64 \<Rightarrow> u64 \<Rightarrow> u64 \<times> error_code" where
  "checked_add_u64 a b ceiling =
     (if a > ceiling \<or> b > ceiling \<or> a > ceiling - b then (ceiling, kOverflow) else (a + b, kOk))"

section \<open>Interfaces\<close>

text \<open>
  A reader that has consumed \<open>pre\<close> without an error and has \<open>bs\<close> in front of it.
\<close>

definition reader_at :: "bytes \<Rightarrow> bytes \<Rightarrow> byte_reader" where
  "reader_at pre bs = \<lparr>rd_data = pre @ bs, rd_offset = length pre, rd_status = kOk\<rparr>"

locale prefix_code =
  fixes enc :: "'a \<Rightarrow> bytes"
    and ok :: "'a \<Rightarrow> bool"
  assumes prefix_free: "ok x \<Longrightarrow> ok y \<Longrightarrow> enc x @ r = enc y @ s \<Longrightarrow> x = y \<and> r = s"
begin

lemma enc_inj: "ok x \<Longrightarrow> ok y \<Longrightarrow> enc x = enc y \<Longrightarrow> x = y"
  using prefix_free [of x y "[]" "[]"] by simp

lemma enc_append_iff: "ok x \<Longrightarrow> ok y \<Longrightarrow> enc x @ r = enc y @ s \<longleftrightarrow> x = y \<and> r = s"
  using prefix_free by blast

lemma concat_prefix_free:
  "length xs = length ys \<Longrightarrow> list_all ok xs \<Longrightarrow> list_all ok ys \<Longrightarrow>
   concat (map enc xs) @ r = concat (map enc ys) @ s \<Longrightarrow> xs = ys \<and> r = s"
proof (induction xs ys rule: list_induct2)
  case (Cons x xs y ys)
  then have "x = y \<and> concat (map enc xs) @ r = concat (map enc ys) @ s"
    by (intro prefix_free) simp_all
  with Cons show ?case by simp
qed simp

end

locale codec =
  fixes enc :: "'a \<Rightarrow> bytes"
    and dec :: "byte_reader \<Rightarrow> 'a \<times> byte_reader"
    and ok :: "'a \<Rightarrow> bool"
  assumes decodes: "ok x \<Longrightarrow> dec (reader_at pre (enc x @ rest)) = (x, reader_at (pre @ enc x) rest)"
begin

lemma decodes_last: "ok x \<Longrightarrow> dec (reader_at pre (enc x)) = (x, reader_at (pre @ enc x) [])"
  using decodes [of x pre "[]"] by simp

lemma get_items_decodes:
  "list_all ok xs \<Longrightarrow>
   get_items dec (length xs) (reader_at pre (concat (map enc xs) @ rest)) =
     (xs, reader_at (pre @ concat (map enc xs)) rest)"
  by (induction xs arbitrary: pre) (simp_all add: decodes)

end

sublocale codec \<subseteq> prefix_code enc ok
proof
  fix x y r s
  assume ok: "ok x" "ok y" and eq: "enc x @ r = enc y @ s"
  have "dec (reader_at [] (enc x @ r)) = (x, reader_at (enc x) r)"
    using decodes [OF ok(1), of "[]" r] by simp
  moreover have "dec (reader_at [] (enc x @ r)) = (y, reader_at (enc y) s)"
    using decodes [OF ok(2), of "[]" s] eq by simp
  ultimately have "x = y" by simp
  with eq show "x = y \<and> r = s" by simp
qed

context codec
begin

lemma is_prefix_code: "prefix_code enc ok"
  by (rule prefix_code_axioms)

end

locale strict_codec = codec +
  assumes sticky: "\<not> is_ok (rd_status r) \<Longrightarrow> snd (dec r) = r"
    and accepts: "dec (reader_at pre bs) = (x, r) \<Longrightarrow> is_ok (rd_status r) \<Longrightarrow>
      \<exists>rest. bs = enc x @ rest \<and> ok x \<and> r = reader_at (pre @ enc x) rest"
begin

lemma get_items_sticky: "\<not> is_ok (rd_status r) \<Longrightarrow> snd (get_items dec n r) = r"
proof (induction n arbitrary: r)
  case (Suc n)
  then have "snd (dec r) = r" by (simp add: sticky)
  with Suc show ?case by (auto simp: split_beta Let_def)
qed simp

lemma get_items_accepts:
  "get_items dec n (reader_at pre bs) = (xs, r) \<Longrightarrow> is_ok (rd_status r) \<Longrightarrow>
   \<exists>rest. bs = concat (map enc xs) @ rest \<and> list_all ok xs \<and> length xs = n \<and>
          r = reader_at (pre @ concat (map enc xs)) rest"
proof (induction n arbitrary: pre bs xs)
  case 0
  then show ?case by simp
next
  case (Suc n)
  obtain x r1 where x: "dec (reader_at pre bs) = (x, r1)" by fastforce
  obtain ys where ys: "get_items dec n r1 = (ys, r)" "xs = x # ys"
    using Suc.prems(1) x by (auto simp: Let_def split: prod.splits)
  have "is_ok (rd_status r1)"
    using Suc.prems(2) get_items_sticky [of r1 n] ys(1) by (metis snd_conv)
  from accepts [OF x this] obtain rest1 where
    r1: "bs = enc x @ rest1" "ok x" "r1 = reader_at (pre @ enc x) rest1" by blast
  from Suc.IH [OF ys(1) [unfolded r1(3)] Suc.prems(2)] ys(2) r1 show ?case by auto
qed

end

section \<open>The primitive codecs\<close>

lemma reader_at_simps [simp]:
  "rd_status (reader_at pre bs) = kOk"
  "rd_offset (reader_at pre bs) = length pre"
  "rd_data (reader_at pre bs) = pre @ bs"
  "remaining (reader_at pre bs) = length bs"
  "at_end (reader_at pre bs) \<longleftrightarrow> bs = []"
  by (simp_all add: reader_at_def remaining_def at_end_def)

lemma new_reader_at: "new_reader bs = reader_at [] bs"
  by (simp add: new_reader_def reader_at_def)

lemma reader_at_advance:
  "(reader_at pre (a @ bs))\<lparr>rd_offset := length pre + length a\<rparr> = reader_at (pre @ a) bs"
  by (simp add: reader_at_def)

lemma rd_fail_not_ok [simp]:
  "\<not> is_ok e \<Longrightarrow> \<not> is_ok (rd_status (rd_fail e r))"
  by (simp add: rd_fail_def)

lemma get_u8_at:
  "get_u8 out (reader_at pre (b # bs)) = (b, reader_at (pre @ [b]) bs)"
  using reader_at_advance [of pre "[b]" bs] by (simp add: get_u8_def)

lemma get_u8_sticky: "\<not> is_ok (rd_status r) \<Longrightarrow> get_u8 out r = (out, r)"
  by (simp add: get_u8_def)

interpretation u8: strict_codec put_u8 "get_u8 0" "\<lambda>_. True"
proof
  fix pre bs x r
  assume "get_u8 0 (reader_at pre bs) = (x, r)" and "is_ok (rd_status r)"
  then show "\<exists>rest. bs = put_u8 x @ rest \<and> True \<and> r = reader_at (pre @ put_u8 x) rest"
    by (cases bs) (auto simp: put_u8_def get_u8_def rd_fail_def reader_at_def remaining_def)
qed (simp_all add: put_u8_def get_u8_at get_u8_sticky)

text \<open>Every wider integer is two halves of the next smaller width, low half first.\<close>

lemma halves_codec:
  assumes half: "strict_codec henc hdec (\<lambda>_. True)"
    and enc: "\<And>v. enc v = henc (lo v) @ henc (hi v)"
    and dec: "\<And>r. dec r = (let (low, r1) = hdec r in
        if \<not> is_ok (rd_status r1) then (out, r1) else
        let (high, r2) = hdec r1 in
        if \<not> is_ok (rd_status r2) then (out, r2) else (join low high, r2))"
    and inv: "\<And>v. join (lo v) (hi v) = v" "\<And>l h. lo (join l h) = l" "\<And>l h. hi (join l h) = h"
  shows "strict_codec enc dec (\<lambda>_. True)"
proof
  note decodes = codec.decodes [OF strict_codec.axioms(1) [OF half]]
  note sticky = strict_codec.sticky [OF half]
  note accepts = strict_codec.accepts [OF half]
  show "dec (reader_at pre (enc x @ rest)) = (x, reader_at (pre @ enc x) rest)" for x pre rest
    by (simp add: enc dec decodes inv Let_def)
  show "snd (dec r) = r" if "\<not> is_ok (rd_status r)" for r
    using that sticky [OF that] by (simp add: dec Let_def split_beta)
  fix pre bs x r
  assume *: "dec (reader_at pre bs) = (x, r)" and ok: "is_ok (rd_status r)"
  obtain l r1 where l: "hdec (reader_at pre bs) = (l, r1)" by fastforce
  obtain h r2 where h: "hdec r1 = (h, r2)" by fastforce
  from * l h ok have r1: "is_ok (rd_status r1)" and r2: "is_ok (rd_status r2)"
    and x: "x = join l h" "r = r2" by (auto simp: dec Let_def split: if_splits)
  from accepts [OF l r1] obtain rest1 where
    1: "bs = henc l @ rest1" "r1 = reader_at (pre @ henc l) rest1" by blast
  from accepts [OF h [unfolded 1(2)] r2] obtain rest2 where
    2: "rest1 = henc h @ rest2" "r2 = reader_at ((pre @ henc l) @ henc h) rest2" by blast
  show "\<exists>rest. bs = enc x @ rest \<and> True \<and> r = reader_at (pre @ enc x) rest"
    by (simp add: 1 2 x enc inv)
qed

lemma and_masks:
  "(x :: u16) AND 0xFF = take_bit 8 x"
  "(y :: u32) AND 0xFFFF = take_bit 16 y"
  "(z :: u64) AND 0xFFFFFFFF = take_bit 32 z"
  by (simp_all add: take_bit_eq_mask mask_eq_exp_minus_1)

lemma u16_halves:
  "(ucast (ucast (v AND 0xFF) :: u8) :: u16) OR push_bit 8 (ucast (ucast (drop_bit 8 v AND 0xFF) :: u8)) = v"
  "(ucast ((ucast l OR push_bit 8 (ucast h) :: u16) AND 0xFF) :: u8) = l"
  "(ucast (drop_bit 8 (ucast (l :: u8) OR push_bit 8 (ucast (h :: u8)) :: u16) AND 0xFF) :: u8) = h"
  by (rule bit_word_eqI; force simp: and_masks bit_simps dest: bit_imp_le_length)+

lemma u32_halves:
  "(ucast (ucast (v AND 0xFFFF) :: u16) :: u32) OR push_bit 16 (ucast (ucast (drop_bit 16 v AND 0xFFFF) :: u16)) = v"
  "(ucast ((ucast l OR push_bit 16 (ucast h) :: u32) AND 0xFFFF) :: u16) = l"
  "(ucast (drop_bit 16 (ucast (l :: u16) OR push_bit 16 (ucast (h :: u16)) :: u32) AND 0xFFFF) :: u16) = h"
  by (rule bit_word_eqI; force simp: and_masks bit_simps dest: bit_imp_le_length)+

lemma u64_halves:
  "(ucast (ucast (v AND 0xFFFFFFFF) :: u32) :: u64) OR push_bit 32 (ucast (ucast (drop_bit 32 v AND 0xFFFFFFFF) :: u32)) = v"
  "(ucast ((ucast l OR push_bit 32 (ucast h) :: u64) AND 0xFFFFFFFF) :: u32) = l"
  "(ucast (drop_bit 32 (ucast (l :: u32) OR push_bit 32 (ucast (h :: u32)) :: u64) AND 0xFFFFFFFF) :: u32) = h"
  by (rule bit_word_eqI; force simp: and_masks bit_simps dest: bit_imp_le_length)+

interpretation u16: strict_codec put_u16 "get_u16 0" "\<lambda>_. True"
  by (rule halves_codec [OF u8.strict_codec_axioms]) (rule put_u16_def get_u16_def u16_halves)+

interpretation u32: strict_codec put_u32 "get_u32 0" "\<lambda>_. True"
  by (rule halves_codec [OF u16.strict_codec_axioms]) (rule put_u32_def get_u32_def u32_halves)+

interpretation u64: strict_codec put_u64 "get_u64 0" "\<lambda>_. True"
  by (rule halves_codec [OF u32.strict_codec_axioms]) (rule put_u64_def get_u64_def u64_halves)+

lemma length_put_int [simp]:
  "length (put_u8 a) = 1" "length (put_u16 b) = 2" "length (put_u32 c) = 4" "length (put_u64 d) = 8"
  by (simp_all add: put_u8_def put_u16_def put_u32_def put_u64_def)

interpretation boolean: strict_codec put_boolean "get_boolean False" "\<lambda>_. True"
proof
  fix pre bs x r
  assume *: "get_boolean False (reader_at pre bs) = (x, r)" and ok: "is_ok (rd_status r)"
  obtain v r1 where v: "get_u8 0 (reader_at pre bs) = (v, r1)" by fastforce
  from * ok v have r1: "is_ok (rd_status r1)" and x: "\<not> v > 1" "x = (v = 1)" "r = r1"
    by (auto simp: get_boolean_def Let_def split: if_splits)
  from x(1) have "unat v \<le> 1" by (simp add: word_less_nat_alt not_less)
  then have "v = (if v = 1 then 1 else 0)"
    by (metis One_nat_def le_Suc_eq le_zero_eq unat_eq_zero unat_1 word_unat_eq_iff)
  with u8.accepts [OF v r1] x
  show "\<exists>rest. bs = put_boolean x @ rest \<and> True \<and> r = reader_at (pre @ put_boolean x) rest"
    by (auto simp: put_boolean_def)
qed (auto simp: put_boolean_def get_boolean_def u8.decodes u8.sticky Let_def split_beta)

lemma get_raw_at:
  "get_raw out (length a) (reader_at pre (a @ bs)) = (a, reader_at (pre @ a) bs)"
  by (simp add: get_raw_def need_def reader_at_advance)

lemma get_raw_sticky: "\<not> is_ok (rd_status r) \<Longrightarrow> get_raw out n r = (out, r)"
  by (simp add: get_raw_def need_def)

lemma get_raw_accepts:
  assumes "get_raw out n (reader_at pre bs) = (x, r)" and "is_ok (rd_status r)"
  shows "\<exists>rest. bs = x @ rest \<and> length x = n \<and> r = reader_at (pre @ x) rest"
proof -
  from assms have n: "n \<le> length bs"
    by (auto simp: get_raw_def need_def Let_def not_less split: if_splits)
  then have "get_raw out n (reader_at pre bs) = (take n bs, reader_at (pre @ take n bs) (drop n bs))"
    using get_raw_at [of out "take n bs" pre "drop n bs"] by simp
  with assms(1) n show ?thesis by (metis append_take_drop_id fst_conv length_take min.absorb2 snd_conv)
qed

interpretation digest: strict_codec put_digest "get_digest []" "\<lambda>d. length d = kDigestBytes"
proof
  fix pre bs x r
  assume *: "get_digest [] (reader_at pre bs) = (x, r)" and ok: "is_ok (rd_status r)"
  then have "get_raw [] kDigestBytes (reader_at pre bs) = (x, r)"
    by (auto simp: get_digest_def Let_def split: prod.splits if_splits)
  from get_raw_accepts [OF this ok]
  show "\<exists>rest. bs = put_digest x @ rest \<and> length x = kDigestBytes \<and> r = reader_at (pre @ put_digest x) rest"
    by (simp add: put_digest_def put_raw_def)
next
  fix x :: digest and pre rest
  assume "length x = kDigestBytes"
  then show "get_digest [] (reader_at pre (put_digest x @ rest)) = (x, reader_at (pre @ put_digest x) rest)"
    using get_raw_at [of "[]" x pre rest]
    by (simp add: get_digest_def put_digest_def put_raw_def Let_def)
qed (simp add: get_digest_def get_raw_sticky)

lemma unat_byte_of_char: "unat (byte_of_char c) = of_char c"
proof -
  have "unat (of_nat (of_char c) :: u8) = of_char c mod 256" by (simp add: unat_of_nat)
  also have "\<dots> = of_char c" using nat_of_char_less_256 [of c] by simp
  finally show ?thesis by (simp add: byte_of_char_def of_nat_of_char)
qed

lemma char_of_byte_of_char [simp]: "char_of_byte (byte_of_char c) = c"
  by (simp add: char_of_byte_def unat_byte_of_char)

lemma byte_of_char_of_byte [simp]: "byte_of_char (char_of_byte b) = b"
proof -
  have "unat (byte_of_char (char_of_byte b)) = unat b mod 256"
    by (simp add: unat_byte_of_char char_of_byte_def of_char_of)
  moreover have "unat b < 2 ^ LENGTH(8)" by (rule unsigned_less)
  ultimately show ?thesis by (simp add: word_unat_eq_iff)
qed

section \<open>Strings and sequences\<close>

lemma unat_of_nat_u32: "n < 2 ^ 32 \<Longrightarrow> unat (of_nat n :: u32) = n"
  by (rule unat_of_nat_small32)

lemma of_nat_unat_u32: "(of_nat (unat (w :: u32)) :: u32) = w"
  by simp

lemma string_codec:
  assumes "max_bytes < 2 ^ 32"
  shows "strict_codec put_string (get_string [] max_bytes) (\<lambda>s. length s \<le> max_bytes)"
proof
  fix x :: string and pre rest
  assume "length x \<le> max_bytes"
  with assms have len: "unat (of_nat (length x) :: u32) = length x"
    by (intro unat_of_nat_u32) simp
  have "get_raw [] (length x) (reader_at (pre @ put_u32 (of_nat (length x))) (map byte_of_char x @ rest))
      = (map byte_of_char x, reader_at ((pre @ put_u32 (of_nat (length x))) @ map byte_of_char x) rest)"
    by (metis get_raw_at length_map)
  with len \<open>length x \<le> max_bytes\<close>
  show "get_string [] max_bytes (reader_at pre (put_string x @ rest))
      = (x, reader_at (pre @ put_string x) rest)"
    by (simp add: get_string_def put_string_def put_raw_def u32.decodes comp_def)
next
  show "snd (get_string [] max_bytes r) = r" if "\<not> is_ok (rd_status r)" for r
    using that u32.sticky [OF that] by (simp add: get_string_def split_beta)
next
  fix pre bs x r
  assume *: "get_string [] max_bytes (reader_at pre bs) = (x, r)" and ok: "is_ok (rd_status r)"
  obtain n r1 where n: "get_u32 0 (reader_at pre bs) = (n, r1)" by fastforce
  obtain v r2 where v: "get_raw [] (unat n) r1 = (v, r2)" by fastforce
  from * ok n v have r1: "is_ok (rd_status r1)" and r2: "is_ok (rd_status r2)"
    and x: "unat n \<le> max_bytes" "x = map char_of_byte v" "r = r2"
    by (auto simp: get_string_def Let_def split: if_splits)
  from u32.accepts [OF n r1] obtain rest1 where
    1: "bs = put_u32 n @ rest1" "r1 = reader_at (pre @ put_u32 n) rest1" by blast
  from get_raw_accepts [OF v [unfolded 1(2)] r2] obtain rest2 where
    2: "rest1 = v @ rest2" "length v = unat n" "r2 = reader_at ((pre @ put_u32 n) @ v) rest2" by blast
  have "put_string x = put_u32 n @ v"
    by (simp add: put_string_def put_raw_def x(2) 2(2) comp_def)
  with 1 2 x show "\<exists>rest. bs = put_string x @ rest \<and> length x \<le> max_bytes \<and>
      r = reader_at (pre @ put_string x) rest" by simp
qed

lemma list_codec:
  assumes item: "strict_codec enc dec ok" and bound: "max_count < 2 ^ 32"
  shows "strict_codec (put_list enc) (get_list max_count dec)
           (\<lambda>xs. length xs \<le> max_count \<and> list_all ok xs)"
proof
  note items = codec.get_items_decodes [OF strict_codec.axioms(1) [OF item]]
  fix xs pre rest
  assume xs: "length xs \<le> max_count \<and> list_all ok xs"
  with bound have "unat (of_nat (length xs) :: u32) = length xs"
    by (intro unat_of_nat_u32) simp
  with xs show "get_list max_count dec (reader_at pre (put_list enc xs @ rest))
      = (xs, reader_at (pre @ put_list enc xs) rest)"
    by (simp add: get_list_def get_count_def put_list_def u32.decodes items)
next
  show "snd (get_list max_count dec r) = r" if bad: "\<not> is_ok (rd_status r)" for r
    using bad u32.sticky [OF bad] strict_codec.get_items_sticky [OF item bad]
    by (simp add: get_list_def get_count_def split_beta)
next
  fix pre bs xs r
  assume *: "get_list max_count dec (reader_at pre bs) = (xs, r)" and ok: "is_ok (rd_status r)"
  obtain n r1 where n: "get_u32 0 (reader_at pre bs) = (n, r1)" by fastforce
  have counted: "get_count 0 max_count (reader_at pre bs) = (n, r1) \<and> is_ok (rd_status r1) \<and> unat n \<le> max_count"
  proof (rule ccontr)
    assume "\<not> ?thesis"
    then have "\<not> is_ok (rd_status (snd (get_count 0 max_count (reader_at pre bs))))"
      using n by (auto simp: get_count_def not_le split: if_splits)
    from strict_codec.get_items_sticky [OF item this] * have
      "r = snd (get_count 0 max_count (reader_at pre bs))"
      by (simp add: get_list_def split_beta) (metis snd_conv)
    with \<open>\<not> is_ok (rd_status (snd (get_count 0 max_count (reader_at pre bs))))\<close> ok show False by simp
  qed
  with * have get: "get_items dec (unat n) r1 = (xs, r)" by (simp add: get_list_def)
  from u32.accepts [OF n] counted obtain rest1 where
    1: "bs = put_u32 n @ rest1" "r1 = reader_at (pre @ put_u32 n) rest1" by blast
  from strict_codec.get_items_accepts [OF item get [unfolded 1(2)] ok] counted
  show "\<exists>rest. bs = put_list enc xs @ rest \<and> (length xs \<le> max_count \<and> list_all ok xs) \<and>
      r = reader_at (pre @ put_list enc xs) rest"
    by (auto simp: put_list_def 1)
qed

text \<open>Two reads in sequence, and a read whose result is repackaged as a record.\<close>

definition get_pair :: "(byte_reader \<Rightarrow> 'a \<times> byte_reader) \<Rightarrow> (byte_reader \<Rightarrow> 'b \<times> byte_reader) \<Rightarrow>
    byte_reader \<Rightarrow> ('a \<times> 'b) \<times> byte_reader" where
  "get_pair f g r = (let (x, r1) = f r; (y, r2) = g r1 in ((x, y), r2))"

lemma pair_codec:
  assumes f: "strict_codec fe fd fok" and g: "strict_codec ge gd gok"
  shows "strict_codec (\<lambda>(x, y). fe x @ ge y) (get_pair fd gd) (\<lambda>(x, y). fok x \<and> gok y)"
proof
  note decodes = codec.decodes [OF strict_codec.axioms(1) [OF f]] codec.decodes [OF strict_codec.axioms(1) [OF g]]
  fix z :: "'a \<times> 'b" and pre rest
  assume "case z of (x, y) \<Rightarrow> fok x \<and> gok y"
  then show "get_pair fd gd (reader_at pre ((case z of (x, y) \<Rightarrow> fe x @ ge y) @ rest)) =
      (z, reader_at (pre @ (case z of (x, y) \<Rightarrow> fe x @ ge y)) rest)"
    by (cases z) (simp add: get_pair_def decodes)
next
  show "snd (get_pair fd gd r) = r" if "\<not> is_ok (rd_status r)" for r
    using strict_codec.sticky [OF f that] strict_codec.sticky [OF g that]
    by (simp add: get_pair_def split_beta)
next
  fix pre bs z r
  assume *: "get_pair fd gd (reader_at pre bs) = (z, r)" and ok: "is_ok (rd_status r)"
  obtain x r1 where x: "fd (reader_at pre bs) = (x, r1)" by fastforce
  obtain y where y: "gd r1 = (y, r)" and z: "z = (x, y)"
    using * x by (auto simp: get_pair_def split: prod.splits)
  have "is_ok (rd_status r1)"
    using strict_codec.sticky [OF g, of r1] y ok by fastforce
  from strict_codec.accepts [OF f x this] obtain rest1 where
    1: "bs = fe x @ rest1" "fok x" "r1 = reader_at (pre @ fe x) rest1" by blast
  from strict_codec.accepts [OF g y [unfolded 1(3)] ok] 1 z
  show "\<exists>rest. bs = (case z of (x, y) \<Rightarrow> fe x @ ge y) @ rest \<and>
      (case z of (x, y) \<Rightarrow> fok x \<and> gok y) \<and> r = reader_at (pre @ (case z of (x, y) \<Rightarrow> fe x @ ge y)) rest"
    by auto
qed

lemma record_codec:
  assumes c: "strict_codec enc dec ok"
    and enc: "\<And>x. enc' x = enc (unpack x)" and dec: "\<And>r. dec' r = apfst pack (dec r)"
    and ok: "\<And>x. ok' x \<longleftrightarrow> ok (unpack x)"
    and iso: "\<And>x. pack (unpack x) = x" "\<And>y. unpack (pack y) = y"
  shows "strict_codec enc' dec' ok'"
proof
  show "dec' (reader_at pre (enc' x @ rest)) = (x, reader_at (pre @ enc' x) rest)" if "ok' x" for x pre rest
    using codec.decodes [OF strict_codec.axioms(1) [OF c], of "unpack x" pre rest] that
    by (simp add: enc dec ok iso)
  show "snd (dec' r) = r" if "\<not> is_ok (rd_status r)" for r
    using strict_codec.sticky [OF c that] by (simp add: dec)
  fix pre bs x r
  assume "dec' (reader_at pre bs) = (x, r)" and good: "is_ok (rd_status r)"
  then obtain y where "dec (reader_at pre bs) = (y, r)" "x = pack y"
    by (cases "dec (reader_at pre bs)") (auto simp: dec)
  with strict_codec.accepts [OF c _ good]
  show "\<exists>rest. bs = enc' x @ rest \<and> ok' x \<and> r = reader_at (pre @ enc' x) rest"
    by (auto simp: enc ok iso)
qed

lemma list_prefix_code:
  assumes "prefix_code enc ok"
  shows "prefix_code (put_list enc) (\<lambda>xs. length xs < 2 ^ 32 \<and> list_all ok xs)"
proof
  fix xs ys r s
  assume xs: "length xs < 2 ^ 32 \<and> list_all ok xs" and ys: "length ys < 2 ^ 32 \<and> list_all ok ys"
    and eq: "put_list enc xs @ r = put_list enc ys @ s"
  then have "(of_nat (length xs) :: u32) = of_nat (length ys) \<and>
      concat (map enc xs) @ r = concat (map enc ys) @ s"
    by (intro u32.prefix_free) (simp_all add: put_list_def)
  moreover from this xs ys have "length xs = length ys"
    by (metis unat_of_nat_u32)
  ultimately show "xs = ys \<and> r = s"
    using prefix_code.concat_prefix_free [OF assms] xs ys by blast
qed

text \<open>Identifiers, tiers and participants travel as strings of at most 64 bytes.\<close>

interpretation ident: strict_codec put_string "get_string [] kMaxIdentifierBytes"
    "\<lambda>s. length s \<le> kMaxIdentifierBytes"
  by (rule string_codec) (simp add: kMaxIdentifierBytes_def)

interpretation any_string: prefix_code put_string "\<lambda>s. length s < 2 ^ 32"
proof
  fix x y :: string and r s
  assume "length x < 2 ^ 32" "length y < 2 ^ 32" "put_string x @ r = put_string y @ s"
  moreover have "prefix_code put_string (\<lambda>s. length s \<le> 2 ^ 32 - 1)"
    by (rule codec.is_prefix_code [OF strict_codec.axioms(1) [OF string_codec]]) simp
  ultimately show "x = y \<and> r = s"
    using prefix_code.prefix_free [of put_string "\<lambda>s. length s \<le> 2 ^ 32 - 1" x y r s] by simp
qed

section \<open>Reads stay inside their input\<close>

text \<open>
  What every read promises whatever the bytes are: the input is never changed, the offset
  never passes its end and never moves back, and after an error nothing happens any more.
\<close>

definition reader_wf :: "byte_reader \<Rightarrow> bool" where
  "reader_wf r \<longleftrightarrow> rd_offset r \<le> length (rd_data r)"

definition safe_read :: "(byte_reader \<Rightarrow> 'a \<times> byte_reader) \<Rightarrow> bool" where
  "safe_read f \<longleftrightarrow> (\<forall>r. reader_wf r \<longrightarrow>
     reader_wf (snd (f r)) \<and> rd_data (snd (f r)) = rd_data r \<and>
     rd_offset r \<le> rd_offset (snd (f r)) \<and> (\<not> is_ok (rd_status r) \<longrightarrow> snd (f r) = r))"

lemma safe_readI:
  assumes "\<And>r. reader_wf r \<Longrightarrow> reader_wf (snd (f r)) \<and> rd_data (snd (f r)) = rd_data r \<and>
     rd_offset r \<le> rd_offset (snd (f r))" "\<And>r. \<not> is_ok (rd_status r) \<Longrightarrow> snd (f r) = r"
  shows "safe_read f"
  using assms by (simp add: safe_read_def)

lemma safe_get_u8: "safe_read (get_u8 out)"
  by (rule safe_readI) (auto simp: get_u8_def reader_wf_def rd_fail_def remaining_def)

text \<open>A read that continues with a second one, or stops with an error, is safe when both are.\<close>

lemma safe_read_bind:
  assumes "safe_read f" and "\<And>x. safe_read (g x)"
    and "\<And>r. snd (h r) = snd (f r) \<or> (\<exists>e. snd (h r) = rd_fail e (snd (f r)))
           \<or> (\<exists>x. snd (h r) = snd (g x (snd (f r))))"
    and "\<And>r. \<not> is_ok (rd_status r) \<Longrightarrow> snd (h r) = r"
  shows "safe_read h"
proof (rule safe_readI)
  fix r assume r: "reader_wf r"
  with assms(1) have 1: "reader_wf (snd (f r))" "rd_data (snd (f r)) = rd_data r"
    "rd_offset r \<le> rd_offset (snd (f r))" by (auto simp: safe_read_def)
  have 2: "reader_wf (snd (g x (snd (f r))))" "rd_data (snd (g x (snd (f r)))) = rd_data r"
    "rd_offset r \<le> rd_offset (snd (g x (snd (f r))))" for x
    using assms(2) [of x] 1 by (auto simp: safe_read_def dest: order_trans)
  show "reader_wf (snd (h r)) \<and> rd_data (snd (h r)) = rd_data r \<and>
     rd_offset r \<le> rd_offset (snd (h r))"
    using assms(3) [of r] 1 2 by (elim disjE exE) (auto simp: rd_fail_def reader_wf_def)
qed (rule assms(4))

lemma safe_get_u16: "safe_read (get_u16 out)"
  by (rule safe_read_bind [OF safe_get_u8 safe_get_u8])
     (auto simp: get_u16_def split_beta Let_def u8.sticky)

lemma safe_get_u32: "safe_read (get_u32 out)"
  by (rule safe_read_bind [OF safe_get_u16 safe_get_u16])
     (auto simp: get_u32_def split_beta Let_def u16.sticky)

lemma safe_get_u64: "safe_read (get_u64 out)"
  by (rule safe_read_bind [OF safe_get_u32 safe_get_u32])
     (auto simp: get_u64_def split_beta Let_def u32.sticky)

lemma safe_get_boolean: "safe_read (get_boolean out)"
  by (rule safe_read_bind [OF safe_get_u8 safe_get_u8])
     (auto simp: get_boolean_def split_beta Let_def u8.sticky)

lemma safe_get_raw: "safe_read (get_raw out n)"
  by (rule safe_readI)
     (auto simp: get_raw_def need_def reader_wf_def rd_fail_def remaining_def Let_def)

lemma safe_get_string: "safe_read (get_string out n)"
  by (rule safe_read_bind [OF safe_get_u32, of "\<lambda>m. get_raw [] m"])
     (auto simp: get_string_def split_beta Let_def u32.sticky safe_get_raw)

lemma safe_get_digest: "safe_read (get_digest out)"
  by (rule safe_read_bind [OF safe_get_raw safe_get_u8])
     (auto simp: get_digest_def split_beta Let_def get_raw_sticky)

lemma safe_get_count: "safe_read (get_count out n)"
  by (rule safe_read_bind [OF safe_get_u32 safe_get_u8])
     (auto simp: get_count_def split_beta Let_def u32.sticky)

lemma safe_require_end: "safe_read (\<lambda>r. ((), require_end r))"
  by (rule safe_readI) (auto simp: require_end_def rd_fail_def reader_wf_def)

section \<open>Properties\<close>

text \<open>
  C30: no read of the bounded decoder leaves its input: whatever the bytes, every operation
  keeps the offset inside the input, never moves it back, never changes the input, and does
  nothing at all once an error has been recorded, so the first error is the one reported.
\<close>

theorem reader_operations_safe:
  "safe_read (get_u8 a) \<and> safe_read (get_u16 b) \<and> safe_read (get_u32 c) \<and> safe_read (get_u64 d) \<and>
   safe_read (get_boolean e) \<and> safe_read (get_raw f n) \<and> safe_read (get_string g n) \<and>
   safe_read (get_digest h) \<and> safe_read (get_count i n) \<and> safe_read (\<lambda>r. ((), require_end r))"
  by (simp add: safe_get_u8 safe_get_u16 safe_get_u32 safe_get_u64 safe_get_boolean safe_get_raw
      safe_get_string safe_get_digest safe_get_count safe_require_end)

end
