(* ===== verification/Fabric.thy ===== *)
theory Fabric
  imports Ids Buffer
begin

text \<open>
  The physical fabric (\<open>include/cpath/fabric.hpp\<close>, \<open>src/fabric.cpp\<close>): failure
  domains, nodes and directed edges, the validated and canonically ordered graph built from
  an unvalidated description, its three identity tables, its adjacency lists and its
  containment chains.

  An \<open>IdMap\<close> is an \<open>unordered_map\<close> from an identity to a dense index; it is modelled
  by an association list whose order is never used, filled by \<open>emplace\<close>, which keeps an
  existing entry. An absent index (\<open>kInvalidIndex\<close>) or row (\<open>nullptr\<close>) is
  \<open>None\<close>. Details of error messages are not modelled.
\<close>

section \<open>Data\<close>

datatype evidence_class = evUnknown | evSynthetic | evMeasured

datatype domain_kind = dkDevice | dkHost | dkRack | dkPod | dkSite

primrec evidence_value :: "evidence_class \<Rightarrow> u8" where
  "evidence_value evUnknown = 0"
| "evidence_value evSynthetic = 1"
| "evidence_value evMeasured = 2"

primrec domain_kind_value :: "domain_kind \<Rightarrow> u8" where
  "domain_kind_value dkDevice = 0"
| "domain_kind_value dkHost = 1"
| "domain_kind_value dkRack = 2"
| "domain_kind_value dkPod = 3"
| "domain_kind_value dkSite = 4"

primrec to_string_evidence :: "evidence_class \<Rightarrow> string" where
  "to_string_evidence evUnknown = ''unknown''"
| "to_string_evidence evSynthetic = ''synthetic''"
| "to_string_evidence evMeasured = ''measured''"

definition parse_evidence_class :: "string \<Rightarrow> evidence_class option" where
  "parse_evidence_class text =
     (if text = ''unknown'' then Some evUnknown else if text = ''synthetic'' then Some evSynthetic
      else if text = ''measured'' then Some evMeasured else None)"

primrec to_string_domain_kind :: "domain_kind \<Rightarrow> string" where
  "to_string_domain_kind dkDevice = ''device''"
| "to_string_domain_kind dkHost = ''host''"
| "to_string_domain_kind dkRack = ''rack''"
| "to_string_domain_kind dkPod = ''pod''"
| "to_string_domain_kind dkSite = ''site''"

definition parse_domain_kind :: "string \<Rightarrow> domain_kind option" where
  "parse_domain_kind text =
     (if text = ''device'' then Some dkDevice else if text = ''host'' then Some dkHost
      else if text = ''rack'' then Some dkRack else if text = ''pod'' then Some dkPod
      else if text = ''site'' then Some dkSite else None)"

record placement =
  pl_site :: string
  pl_pod :: string
  pl_rack :: string
  pl_host :: string
  pl_device_index :: u32
  pl_supplied :: bool

record node =
  n_id :: node_id
  n_placement :: placement
  n_tier :: tier_id
  n_eligible :: bool

record failure_domain =
  fd_id :: domain_id
  fd_parent :: domain_id
  fd_kind :: domain_kind

record edge =
  e_id :: edge_id
  e_from :: node_id
  e_to :: node_id
  e_capacity :: u64
  e_latency :: u64
  e_reserved :: u64
  e_tier :: tier_id
  e_domain :: domain_id
  e_evidence :: evidence_class
  e_eligible :: bool

record fabric_spec =
  fs_topology :: generation
  fs_failure_domain :: generation
  fs_capacity_evidence :: generation
  fs_domains :: "failure_domain list"
  fs_nodes :: "node list"
  fs_edges :: "edge list"

type_synonym id_map = "(string \<times> nat) list"

record fabric =
  topology_generation :: generation
  failure_domain_generation :: generation
  capacity_evidence_generation :: generation
  failure_domains :: "failure_domain list"
  nodes :: "node list"
  edges :: "edge list"
  out_edge_lists :: "nat list list"
  domain_chains :: "domain_id list list"
  node_map :: id_map
  edge_map :: id_map
  domain_map :: id_map

section \<open>Identity tables and adjacency\<close>

definition emplace :: "string \<Rightarrow> nat \<Rightarrow> id_map \<Rightarrow> id_map" where
  "emplace k v m = (case map_of m k of None \<Rightarrow> m @ [(k, v)] | Some _ \<Rightarrow> m)"

definition build_index :: "string list \<Rightarrow> id_map" where
  "build_index ids = fold (\<lambda>(i, k) m. emplace k i m) (enumerate 0 ids) []"

definition build_out_edges :: "id_map \<Rightarrow> nat \<Rightarrow> edge list \<Rightarrow> nat list list" where
  "build_out_edges index node_total es =
     fold (\<lambda>(i, e) out. case map_of index (e_from e) of
             Some n \<Rightarrow> out[n := out ! n @ [i]]
           | None \<Rightarrow> out) (enumerate 0 es) (replicate node_total [])"

definition rebuild_index :: "fabric \<Rightarrow> fabric" where
  "rebuild_index g =
     (let index = build_index (map n_id (nodes g)) in
      g\<lparr>node_map := index,
        edge_map := build_index (map e_id (edges g)),
        domain_map := build_index (map fd_id (failure_domains g)),
        out_edge_lists := build_out_edges index (length (nodes g)) (edges g)\<rparr>)"

definition find_row :: "id_map \<Rightarrow> 'a list \<Rightarrow> string \<Rightarrow> 'a option" where
  "find_row index rows k = map_option (\<lambda>i. rows ! i) (map_of index k)"

definition find_node :: "fabric \<Rightarrow> node_id \<Rightarrow> node option" where
  "find_node g k = find_row (node_map g) (nodes g) k"

definition find_edge :: "fabric \<Rightarrow> edge_id \<Rightarrow> edge option" where
  "find_edge g k = find_row (edge_map g) (edges g) k"

definition find_failure_domain :: "fabric \<Rightarrow> domain_id \<Rightarrow> failure_domain option" where
  "find_failure_domain g k = find_row (domain_map g) (failure_domains g) k"

definition node_index :: "fabric \<Rightarrow> node_id \<Rightarrow> nat option" where
  "node_index g k = map_of (node_map g) k"

definition out_edges :: "fabric \<Rightarrow> nat \<Rightarrow> nat list" where
  "out_edges g i = (if i < length (out_edge_lists g) then out_edge_lists g ! i else [])"

definition domain_chain :: "fabric \<Rightarrow> domain_id \<Rightarrow> domain_id list" where
  "domain_chain g k =
     (case map_of (domain_map g) k of None \<Rightarrow> [] | Some i \<Rightarrow> domain_chains g ! i)"

definition domain_contains :: "fabric \<Rightarrow> domain_id \<Rightarrow> domain_id \<Rightarrow> bool" where
  "domain_contains g ancestor candidate =
     (if \<not> id_valid ancestor \<or> \<not> id_valid candidate then False
      else list_ex (\<lambda>entry. entry = ancestor) (domain_chain g candidate))"

section \<open>Building a graph\<close>

definition valid_optional_label :: "string \<Rightarrow> bool" where
  "valid_optional_label text \<longleftrightarrow>
     text = [] \<or> (length text \<le> kMaxPlacementLabelBytes \<and> is_valid_identifier text)"

definition check_domain_ids :: "failure_domain \<Rightarrow> error_code" where
  "check_domain_ids d =
     (if \<not> is_valid_identifier (fd_id d) then kInvalidCharacter
      else if id_valid (fd_parent d) \<and> \<not> is_valid_identifier (fd_parent d) then kInvalidCharacter
      else kOk)"

definition check_domain_parent :: "fabric \<Rightarrow> failure_domain \<Rightarrow> error_code" where
  "check_domain_parent g d =
     (if \<not> id_valid (fd_parent d) then kOk
      else case find_failure_domain g (fd_parent d) of
        None \<Rightarrow> kUnknownReference
      | Some parent \<Rightarrow>
          if \<not> (domain_kind_value (fd_kind parent) > domain_kind_value (fd_kind d))
          then kInconsistentMetadata else kOk)"

text \<open>The loop \<open>while (cursor.valid())\<close> that walks from a domain to its root.\<close>

function chain_from :: "fabric \<Rightarrow> domain_id list \<Rightarrow> domain_id \<Rightarrow> domain_id list result" where
  "chain_from g chain cursor =
     (if \<not> id_valid cursor then Inr chain
      else if length chain \<ge> kMaxHierarchyLevels then Inl kInconsistentMetadata
      else case find_failure_domain g cursor of
        None \<Rightarrow> Inr (chain @ [cursor])
      | Some d \<Rightarrow> chain_from g (chain @ [cursor]) (fd_parent d))"
  by pat_completeness auto
termination
  by (relation "measure (\<lambda>(g, chain, cursor). kMaxHierarchyLevels - length chain)") auto

declare chain_from.simps [simp del]

fun chains_of :: "fabric \<Rightarrow> failure_domain list \<Rightarrow> domain_id list list result" where
  "chains_of g [] = Inr []"
| "chains_of g (d # ds) =
     (case chain_from g [] (fd_id d) of
        Inl e \<Rightarrow> Inl e
      | Inr chain \<Rightarrow> (case chains_of g ds of Inl e \<Rightarrow> Inl e | Inr rest_chains \<Rightarrow> Inr (chain # rest_chains)))"

definition check_node :: "node \<Rightarrow> error_code" where
  "check_node n =
     (if \<not> is_valid_identifier (n_id n) then kInvalidCharacter
      else if id_valid (n_tier n) \<and> \<not> is_valid_tier_name (n_tier n) then kInvalidCharacter
      else if \<not> valid_optional_label (pl_site (n_placement n)) \<or>
              \<not> valid_optional_label (pl_pod (n_placement n)) \<or>
              \<not> valid_optional_label (pl_rack (n_placement n)) \<or>
              \<not> valid_optional_label (pl_host (n_placement n)) then kInvalidCharacter
      else kOk)"

definition check_edge :: "fabric \<Rightarrow> edge \<Rightarrow> error_code" where
  "check_edge g e =
     (if \<not> is_valid_identifier (e_id e) then kInvalidCharacter
      else if \<not> is_valid_identifier (e_from e) \<or> \<not> is_valid_identifier (e_to e) then kInvalidCharacter
      else if id_valid (e_tier e) \<and> \<not> is_valid_tier_name (e_tier e) then kInvalidCharacter
      else if id_valid (e_domain e) \<and> \<not> is_valid_identifier (e_domain e) then kInvalidCharacter
      else if e_capacity e > kMaxCapacityMbps then kValueOutOfRange
      else if e_latency e > kMaxLatencyMicros then kValueOutOfRange
      else if e_from e = e_to e then kInconsistentMetadata
      else if e_reserved e > e_capacity e then kInconsistentMetadata
      else if map_of (node_map g) (e_from e) = None then kUnknownReference
      else if map_of (node_map g) (e_to e) = None then kUnknownReference
      else if id_valid (e_domain e) \<and> map_of (domain_map g) (e_domain e) = None
        then kUnknownReference
      else kOk)"

text \<open>The canonical edge order \<open>(from, to, id)\<close>.\<close>

definition edge_key :: "edge \<Rightarrow> node_id \<times> node_id \<times> edge_id" where
  "edge_key e = (e_from e, e_to e, e_id e)"

section \<open>validate()\<close>

definition check_edge_references :: "fabric \<Rightarrow> edge \<Rightarrow> error_code" where
  "check_edge_references g e =
     (if find_node g (e_from e) = None then kUnknownReference
      else if find_node g (e_to e) = None then kUnknownReference
      else if e_from e = e_to e then kInconsistentMetadata
      else if e_reserved e > e_capacity e then kInconsistentMetadata
      else if id_valid (e_domain e) \<and> find_failure_domain g (e_domain e) = None then kUnknownReference
      else kOk)"

definition check_index_entry :: "('a \<Rightarrow> string) \<Rightarrow> 'a list \<Rightarrow> string \<times> nat \<Rightarrow> error_code" where
  "check_index_entry key rows entry =
     (case entry of (k, i) \<Rightarrow>
        if i \<ge> length rows \<or> \<not> (key (rows ! i) = k) then kInternalError else kOk)"

definition fabric_validate :: "fabric \<Rightarrow> error_code" where
  "fabric_validate g =
     (if length (nodes g) > kMaxNodes then kTooManyItems
      else if length (edges g) > kMaxEdges then kTooManyItems
      else if length (failure_domains g) > kMaxFailureDomains then kTooManyItems
      else if \<not> strictly_increasing (map fd_id (failure_domains g)) then kInconsistentMetadata
      else if \<not> strictly_increasing (map n_id (nodes g)) then kInconsistentMetadata
      else if \<not> strictly_increasing (map edge_key (edges g)) then kInconsistentMetadata
      else if length (domain_chains g) \<noteq> length (failure_domains g) then kInternalError
      else if adjacent_equal (sort (map e_id (edges g))) then kDuplicateIdentifier
      else if adjacent_equal (sort (map n_id (nodes g))) then kDuplicateIdentifier
      else and_then (first_error (check_edge_references g) (edges g))
          (and_then (first_error (check_domain_parent g) (failure_domains g))
          (and_then (first_error (check_index_entry n_id (nodes g)) (node_map g))
                    (first_error (check_index_entry e_id (edges g)) (edge_map g)))))"

section \<open>build()\<close>

text \<open>
  The four phases of \<open>FabricGraph::build\<close>, in its order: bounds, failure domains with
  their containment chains, nodes, edges; then the self-check.
\<close>

definition build_domains :: "fabric_spec \<Rightarrow> fabric result" where
  "build_domains spec =
     (let status = first_error check_domain_ids (fs_domains spec);
          sorted_domains = sort_key fd_id (fs_domains spec) in
      if \<not> is_ok status then Inl status
      else if adjacent_equal (map fd_id sorted_domains) then Inl kDuplicateIdentifier
      else let g = rebuild_index
                 \<lparr>topology_generation = fs_topology spec,
                  failure_domain_generation = fs_failure_domain spec,
                  capacity_evidence_generation = fs_capacity_evidence spec,
                  failure_domains = sorted_domains, nodes = [], edges = [], out_edge_lists = [],
                  domain_chains = [], node_map = [], edge_map = [], domain_map = []\<rparr>;
               parents = first_error (check_domain_parent g) (failure_domains g) in
        if \<not> is_ok parents then Inl parents
        else case chains_of g (failure_domains g) of
          Inl e \<Rightarrow> Inl e
        | Inr all_chains \<Rightarrow> Inr (g\<lparr>domain_chains := all_chains\<rparr>))"

definition build_nodes :: "fabric_spec \<Rightarrow> fabric \<Rightarrow> fabric result" where
  "build_nodes spec g =
     (let status = first_error check_node (fs_nodes spec);
          sorted_nodes = sort_key n_id (fs_nodes spec) in
      if \<not> is_ok status then Inl status
      else if adjacent_equal (map n_id sorted_nodes) then Inl kDuplicateIdentifier
      else Inr (rebuild_index (g\<lparr>nodes := sorted_nodes\<rparr>)))"

definition build_edges :: "fabric_spec \<Rightarrow> fabric \<Rightarrow> fabric result" where
  "build_edges spec g =
     (let status = first_error (check_edge g) (fs_edges spec);
          sorted_edges = sort_key edge_key (fs_edges spec) in
      if \<not> is_ok status then Inl status
      else if adjacent_equal (sort (map e_id sorted_edges)) then Inl kDuplicateIdentifier
      else Inr (rebuild_index (g\<lparr>edges := sorted_edges\<rparr>)))"

definition fabric_build :: "fabric_spec \<Rightarrow> fabric result" where
  "fabric_build spec =
     (if length (fs_domains spec) > kMaxFailureDomains then Inl kTooManyItems
      else if length (fs_nodes spec) > kMaxNodes then Inl kTooManyItems
      else if length (fs_edges spec) > kMaxEdges then Inl kTooManyItems
      else case build_domains spec of Inl e \<Rightarrow> Inl e | Inr g1 \<Rightarrow>
        (case build_nodes spec g1 of Inl e \<Rightarrow> Inl e | Inr g2 \<Rightarrow>
        (case build_edges spec g2 of Inl e \<Rightarrow> Inl e | Inr g3 \<Rightarrow>
          (if \<not> is_ok (fabric_validate g3) then Inl (fabric_validate g3) else Inr g3))))"

section \<open>Canonical encoding\<close>

definition put_domain :: "failure_domain \<Rightarrow> bytes" where
  "put_domain d = put_string (fd_id d) @ put_string (fd_parent d) @ put_u8 (domain_kind_value (fd_kind d))"

definition put_node :: "node \<Rightarrow> bytes" where
  "put_node n =
     put_string (n_id n) @ put_string (pl_site (n_placement n)) @ put_string (pl_pod (n_placement n))
     @ put_string (pl_rack (n_placement n)) @ put_string (pl_host (n_placement n))
     @ put_u32 (pl_device_index (n_placement n)) @ put_boolean (pl_supplied (n_placement n))
     @ put_string (n_tier n) @ put_boolean (n_eligible n)"

definition put_edge :: "edge \<Rightarrow> bytes" where
  "put_edge e =
     put_string (e_id e) @ put_string (e_from e) @ put_string (e_to e)
     @ put_u64 (e_capacity e) @ put_u64 (e_latency e) @ put_u64 (e_reserved e)
     @ put_string (e_tier e) @ put_string (e_domain e)
     @ put_u8 (evidence_value (e_evidence e)) @ put_boolean (e_eligible e)"

definition fabric_encode_canonical :: "fabric \<Rightarrow> bytes" where
  "fabric_encode_canonical g =
     put_tagged ''fabric.v1'' @ put_u64 (topology_generation g)
     @ put_u64 (failure_domain_generation g) @ put_u64 (capacity_evidence_generation g)
     @ put_list put_domain (failure_domains g) @ put_list put_node (nodes g)
     @ put_list put_edge (edges g)"

section \<open>Identity tables\<close>

text \<open>
  What a table of dense indices promises to every component that looks a row up by its
  identity: the table was built from the rows, and the identities of the rows are distinct.
\<close>

lemma map_of_fold_emplace:
  "map_of (fold (\<lambda>(i, k) m. emplace k i m) ps m) k =
     (case map_of m k of Some i \<Rightarrow> Some i | None \<Rightarrow> map_of (map (\<lambda>(i, k). (k, i)) ps) k)"
  by (induction ps arbitrary: m) (auto simp: emplace_def map_add_def split: option.splits)

lemma map_of_build_index:
  assumes "distinct ids"
  shows "map_of (build_index ids) k = Some i \<longleftrightarrow> i < length ids \<and> ids ! i = k"
proof -
  have "map fst (map (\<lambda>(i, k). (k, i)) (enumerate 0 ids)) = ids"
    by (simp add: comp_def split_beta)
  then show ?thesis
    using assms by (auto simp: build_index_def map_of_fold_emplace map_of_eq_Some_iff
        in_set_enumerate_eq image_iff intro!: bexI [of _ "(i, k)"])
qed

lemma set_build_index:
  "entry \<in> set (build_index ids) \<Longrightarrow> snd entry < length ids \<and> ids ! snd entry = fst entry"
proof -
  have "entry \<in> set (fold (\<lambda>(i, k) m. emplace k i m) ps m) \<Longrightarrow>
      entry \<in> set m \<or> (snd entry, fst entry) \<in> set ps" for ps m
  proof (induction ps arbitrary: m)
    case (Cons p ps)
    have "set (emplace k i m) \<subseteq> insert (k, i) (set m)" for k i
      by (auto simp: emplace_def split: option.splits)
    with Cons show ?case by (cases p) fastforce
  qed simp
  then show "entry \<in> set (build_index ids) \<Longrightarrow> ?thesis"
    by (fastforce simp: build_index_def in_set_enumerate_eq)
qed

locale id_table =
  fixes key :: "'a \<Rightarrow> string"
    and rows :: "'g \<Rightarrow> 'a list"
    and table :: "'g \<Rightarrow> id_map"
    and wf :: "'g \<Rightarrow> bool"
  assumes table_built: "wf g \<Longrightarrow> table g = build_index (map key (rows g))"
    and keys_distinct: "wf g \<Longrightarrow> distinct (map key (rows g))"
begin

lemma index_iff:
  "wf g \<Longrightarrow> map_of (table g) k = Some i \<longleftrightarrow> i < length (rows g) \<and> key (rows g ! i) = k"
  by (auto simp: table_built map_of_build_index keys_distinct)

lemma lookup_iff:
  assumes "wf g"
  shows "find_row (table g) (rows g) k = Some row \<longleftrightarrow> row \<in> set (rows g) \<and> key row = k"
  using index_iff [OF assms] by (auto simp: find_row_def in_set_conv_nth)

lemma lookup_none:
  assumes "wf g"
  shows "find_row (table g) (rows g) k = None \<longleftrightarrow> k \<notin> key ` set (rows g)"
  using lookup_iff [OF assms, of k] by (metis (no_types, lifting) image_iff not_Some_eq)

lemma lookup_row: "wf g \<Longrightarrow> row \<in> set (rows g) \<Longrightarrow> find_row (table g) (rows g) (key row) = Some row"
  by (simp add: lookup_iff)

lemma index_none: "wf g \<Longrightarrow> map_of (table g) k = None \<longleftrightarrow> k \<notin> key ` set (rows g)"
  using lookup_none [of g k] by (simp add: find_row_def)

lemma index_row: "wf g \<Longrightarrow> i < length (rows g) \<Longrightarrow> map_of (table g) (key (rows g ! i)) = Some i"
  by (simp add: index_iff)

lemma entries_consistent: "wf g \<Longrightarrow> is_ok (first_error (check_index_entry key (rows g)) (table g))"
  using set_build_index [of _ "map key (rows g)"]
  by (fastforce simp: first_error_ok table_built check_index_entry_def)

end

section \<open>The invariant of a built graph\<close>

definition domain_table_ok :: "fabric \<Rightarrow> bool" where
  "domain_table_ok g \<longleftrightarrow> strictly_increasing (map fd_id (failure_domains g)) \<and>
     domain_map g = build_index (map fd_id (failure_domains g))"

definition domains_ok :: "fabric \<Rightarrow> bool" where
  "domains_ok g \<longleftrightarrow> domain_table_ok g \<and>
     (\<forall>d\<in>set (failure_domains g). is_ok (check_domain_ids d) \<and> is_ok (check_domain_parent g d)) \<and>
     chains_of g (failure_domains g) = Inr (domain_chains g)"

definition nodes_ok :: "fabric \<Rightarrow> bool" where
  "nodes_ok g \<longleftrightarrow> strictly_increasing (map n_id (nodes g)) \<and>
     node_map g = build_index (map n_id (nodes g)) \<and> (\<forall>n\<in>set (nodes g). is_ok (check_node n))"

definition edges_ok :: "fabric \<Rightarrow> bool" where
  "edges_ok g \<longleftrightarrow> strictly_increasing (map edge_key (edges g)) \<and> distinct (map e_id (edges g)) \<and>
     edge_map g = build_index (map e_id (edges g)) \<and> (\<forall>e\<in>set (edges g). is_ok (check_edge g e)) \<and>
     out_edge_lists g = build_out_edges (node_map g) (length (nodes g)) (edges g)"

definition fabric_wf :: "fabric \<Rightarrow> bool" where
  "fabric_wf g \<longleftrightarrow> domains_ok g \<and> nodes_ok g \<and> edges_ok g \<and>
     length (nodes g) \<le> kMaxNodes \<and> length (edges g) \<le> kMaxEdges \<and>
     length (failure_domains g) \<le> kMaxFailureDomains"

interpretation domain_rows: id_table fd_id failure_domains domain_map domain_table_ok
  by unfold_locales (auto simp: domain_table_ok_def)

interpretation node_rows: id_table n_id nodes node_map nodes_ok
  by unfold_locales (auto simp: nodes_ok_def)

interpretation edge_rows: id_table e_id edges edge_map edges_ok
  by unfold_locales (simp_all add: edges_ok_def)

lemmas find_defs = find_node_def find_edge_def find_failure_domain_def

lemma fabric_wfD:
  assumes "fabric_wf g"
  shows "domain_table_ok g" "domains_ok g" "nodes_ok g" "edges_ok g"
  using assms by (simp_all add: fabric_wf_def domains_ok_def)

lemma find_node_iff: "fabric_wf g \<Longrightarrow> find_node g k = Some n \<longleftrightarrow> n \<in> set (nodes g) \<and> n_id n = k"
  by (simp add: find_node_def node_rows.lookup_iff fabric_wfD)

lemma find_edge_iff: "fabric_wf g \<Longrightarrow> find_edge g k = Some e \<longleftrightarrow> e \<in> set (edges g) \<and> e_id e = k"
  by (simp add: find_edge_def edge_rows.lookup_iff fabric_wfD)

lemma find_domain_iff:
  "domain_table_ok g \<Longrightarrow> find_failure_domain g k = Some d \<longleftrightarrow> d \<in> set (failure_domains g) \<and> fd_id d = k"
  by (simp add: find_failure_domain_def domain_rows.lookup_iff)

section \<open>Containment\<close>

text \<open>One containment step: from a domain to the parent it declares.\<close>

definition parent_step :: "fabric \<Rightarrow> domain_id \<Rightarrow> domain_id \<Rightarrow> bool" where
  "parent_step g c p \<longleftrightarrow> (\<exists>d\<in>set (failure_domains g). fd_id d = c \<and> fd_parent d = p \<and> id_valid p)"

definition kind_rank :: "fabric \<Rightarrow> domain_id \<Rightarrow> nat" where
  "kind_rank g k = (case find_failure_domain g k of None \<Rightarrow> 0 | Some d \<Rightarrow> unat (domain_kind_value (fd_kind d)))"

definition parents_ok :: "fabric \<Rightarrow> bool" where
  "parents_ok g \<longleftrightarrow> domain_table_ok g \<and>
     (\<forall>d\<in>set (failure_domains g). id_valid (fd_id d) \<and> is_ok (check_domain_parent g d))"

lemma domain_kind_value_le: "unat (domain_kind_value k) \<le> 4"
  by (cases k) simp_all

lemma check_parentD:
  assumes "is_ok (check_domain_parent g d)" "id_valid (fd_parent d)"
  obtains p where "find_failure_domain g (fd_parent d) = Some p"
    "unat (domain_kind_value (fd_kind d)) < unat (domain_kind_value (fd_kind p))"
  using assms by (auto simp: check_domain_parent_def word_less_nat_alt split: option.splits if_splits)

lemma parent_step_rank:
  assumes "parents_ok g" "parent_step g c p"
  shows "kind_rank g c < kind_rank g p"
proof -
  from assms(2) obtain d where d: "d \<in> set (failure_domains g)" "fd_id d = c" "fd_parent d = p"
    "id_valid p" by (auto simp: parent_step_def)
  with assms(1) have "is_ok (check_domain_parent g d)" "find_failure_domain g c = Some d"
    by (simp_all add: parents_ok_def find_domain_iff)
  with d show ?thesis by (auto elim!: check_parentD simp: kind_rank_def)
qed

lemma parent_steps_rank:
  "(parent_step g)\<^sup>+\<^sup>+ c p \<Longrightarrow> parents_ok g \<Longrightarrow> kind_rank g c < kind_rank g p"
  by (induction rule: tranclp_induct) (auto dest: parent_step_rank)

text \<open>
  The chain of a known domain is its set of ancestors, listed without the depth guard ever
  firing: kinds grow strictly along a chain and there are only five of them.
\<close>

lemma chain_from_known:
  assumes "parents_ok g" "d \<in> set (failure_domains g)"
    "length chain \<le> unat (domain_kind_value (fd_kind d))"
  shows "\<exists>rest. chain_from g chain (fd_id d) = Inr (chain @ fd_id d # rest) \<and>
      set (fd_id d # rest) = {a. (parent_step g)\<^sup>*\<^sup>* (fd_id d) a} \<and>
      length chain + Suc (length rest) \<le> 5"
  using assms(2,3)
proof (induction "4 - unat (domain_kind_value (fd_kind d))" arbitrary: chain d rule: less_induct)
  case less
  note le4 = domain_kind_value_le [of "fd_kind d"]
  have known: "find_failure_domain g (fd_id d) = Some d" "id_valid (fd_id d)"
    using assms(1) less.prems(1) by (simp_all add: parents_ok_def find_domain_iff)
  have step: "parent_step g (fd_id d) p \<longleftrightarrow> p = fd_parent d \<and> id_valid p" for p
    using find_domain_iff [of g "fd_id d"] known(1) assms(1) less.prems(1)
    by (fastforce simp: parent_step_def parents_ok_def)
  have short: "\<not> length chain \<ge> kMaxHierarchyLevels"
    using less.prems(2) le4 by (simp add: kMaxHierarchyLevels_def)
  have unfold: "chain_from g chain (fd_id d) = chain_from g (chain @ [fd_id d]) (fd_parent d)"
    by (subst chain_from.simps) (simp add: known short)
  show ?case
  proof (cases "id_valid (fd_parent d)")
    case False
    then have "{a. (parent_step g)\<^sup>*\<^sup>* (fd_id d) a} = {fd_id d}"
      by (subst reachable_unfold) (auto simp: step)
    moreover have "chain_from g (chain @ [fd_id d]) (fd_parent d) = Inr (chain @ [fd_id d])"
      using False by (subst chain_from.simps) simp
    ultimately show ?thesis
      using less.prems(2) le4 by (intro exI [of _ "[]"]) (simp add: unfold)
  next
    case True
    have "is_ok (check_domain_parent g d)"
      using assms(1) less.prems(1) by (simp add: parents_ok_def)
    then obtain p where p: "find_failure_domain g (fd_parent d) = Some p"
      "unat (domain_kind_value (fd_kind d)) < unat (domain_kind_value (fd_kind p))"
      using True by (rule check_parentD)
    then have p': "p \<in> set (failure_domains g)" "fd_id p = fd_parent d"
      using assms(1) by (simp_all add: parents_ok_def find_domain_iff)
    have "\<exists>rest. chain_from g (chain @ [fd_id d]) (fd_id p) = Inr ((chain @ [fd_id d]) @ fd_id p # rest) \<and>
        set (fd_id p # rest) = {a. (parent_step g)\<^sup>*\<^sup>* (fd_id p) a} \<and>
        length (chain @ [fd_id d]) + Suc (length rest) \<le> 5"
      using p(2) le4 domain_kind_value_le [of "fd_kind p"] less.prems(2)
      by (intro less.hyps p'(1)) simp_all
    then obtain rest where rest:
      "chain_from g (chain @ [fd_id d]) (fd_parent d) = Inr ((chain @ [fd_id d]) @ fd_parent d # rest)"
      "set (fd_parent d # rest) = {a. (parent_step g)\<^sup>*\<^sup>* (fd_parent d) a}"
      "length (chain @ [fd_id d]) + Suc (length rest) \<le> 5" unfolding p'(2) by blast
    have "{a. (parent_step g)\<^sup>*\<^sup>* (fd_id d) a} = insert (fd_id d) {a. (parent_step g)\<^sup>*\<^sup>* (fd_parent d) a}"
      using True by (subst reachable_unfold) (auto simp: step)
    with rest show ?thesis
      by (intro exI [of _ "fd_parent d # rest"]) (simp add: unfold)
  qed
qed

lemma chains_of_known:
  assumes "parents_ok g" "set ds \<subseteq> set (failure_domains g)"
  shows "\<exists>cs. chains_of g ds = Inr cs \<and> length cs = length ds \<and>
     (\<forall>i<length ds. chain_from g [] (fd_id (ds ! i)) = Inr (cs ! i))"
  using assms(2)
proof (induction ds)
  case (Cons d ds)
  then obtain cs where cs: "chains_of g ds = Inr cs" "length cs = length ds"
    "\<forall>i<length ds. chain_from g [] (fd_id (ds ! i)) = Inr (cs ! i)" by auto
  have "d \<in> set (failure_domains g)" using Cons.prems by simp
  from chain_from_known [OF assms(1) this, of "[]"] obtain c
    where "chain_from g [] (fd_id d) = Inr c" by auto
  with cs show ?case
    by (intro exI [of _ "c # cs"]) (auto simp: nth_Cons split: nat.splits)
qed simp

section \<open>What build accepts and what it returns\<close>

text \<open>
  The contract of \<open>build\<close>, stated on the unvalidated description alone: no table, no
  order and no chain is mentioned.
\<close>

definition domains_admissible :: "failure_domain list \<Rightarrow> bool" where
  "domains_admissible ds \<longleftrightarrow> distinct (map fd_id ds) \<and>
     (\<forall>d\<in>set ds. is_valid_identifier (fd_id d) \<and>
        (id_valid (fd_parent d) \<longrightarrow> is_valid_identifier (fd_parent d) \<and>
           (\<exists>p\<in>set ds. fd_id p = fd_parent d \<and>
              domain_kind_value (fd_kind d) < domain_kind_value (fd_kind p))))"

definition nodes_admissible :: "node list \<Rightarrow> bool" where
  "nodes_admissible ns \<longleftrightarrow> distinct (map n_id ns) \<and> (\<forall>n\<in>set ns. is_ok (check_node n))"

definition edge_admissible :: "domain_id set \<Rightarrow> node_id set \<Rightarrow> edge \<Rightarrow> bool" where
  "edge_admissible dids nids e \<longleftrightarrow>
     is_valid_identifier (e_id e) \<and> is_valid_identifier (e_from e) \<and> is_valid_identifier (e_to e) \<and>
     (id_valid (e_tier e) \<longrightarrow> is_valid_tier_name (e_tier e)) \<and>
     (id_valid (e_domain e) \<longrightarrow> is_valid_identifier (e_domain e) \<and> e_domain e \<in> dids) \<and>
     e_capacity e \<le> kMaxCapacityMbps \<and> e_latency e \<le> kMaxLatencyMicros \<and>
     e_from e \<noteq> e_to e \<and> e_reserved e \<le> e_capacity e \<and> e_from e \<in> nids \<and> e_to e \<in> nids"

definition fabric_admissible :: "fabric_spec \<Rightarrow> bool" where
  "fabric_admissible spec \<longleftrightarrow>
     length (fs_domains spec) \<le> kMaxFailureDomains \<and> length (fs_nodes spec) \<le> kMaxNodes \<and>
     length (fs_edges spec) \<le> kMaxEdges \<and>
     domains_admissible (fs_domains spec) \<and> nodes_admissible (fs_nodes spec) \<and>
     distinct (map e_id (fs_edges spec)) \<and>
     (\<forall>e\<in>set (fs_edges spec).
        edge_admissible (fd_id ` set (fs_domains spec)) (n_id ` set (fs_nodes spec)) e)"

lemma sort_key_distinct_strict:
  "strictly_increasing (map f (sort_key f xs)) \<longleftrightarrow> distinct (map f xs)"
  by (simp add: strictly_increasing_iff_sorted_distinct) (metis distinct_map distinct_sort set_sort)

lemma adjacent_equal_sort_key: "adjacent_equal (map f (sort_key f xs)) \<longleftrightarrow> \<not> distinct (map f xs)"
  using sort_key_distinct_strict [of f xs]
  by (simp add: adjacent_equal_sorted strictly_increasing_iff_sorted_distinct)

lemma adjacent_equal_sort: "adjacent_equal (sort xs) \<longleftrightarrow> \<not> distinct xs"
  by (simp add: adjacent_equal_sorted)

lemma domain_functions_cong:
  assumes "failure_domains g' = failure_domains g" "domain_map g' = domain_map g"
  shows "find_failure_domain g' = find_failure_domain g" (is ?find)
    "check_domain_parent g' = check_domain_parent g"
    "chain_from g' = chain_from g" "chains_of g' = chains_of g"
proof -
  show find: ?find using assms by (simp add: find_failure_domain_def fun_eq_iff)
  then show "check_domain_parent g' = check_domain_parent g"
    by (simp add: check_domain_parent_def fun_eq_iff)
  have "chain_from g' chain cursor = chain_from g chain cursor" for chain cursor
  proof (induction "kMaxHierarchyLevels - length chain" arbitrary: chain cursor rule: less_induct)
    case less
    then show ?case
      by (subst (1 2) chain_from.simps) (simp add: find split: option.split)
  qed
  then show chain: "chain_from g' = chain_from g" by (simp add: fun_eq_iff)
  have "chains_of g' ds = chains_of g ds" for ds
    by (induction ds) (simp_all add: chain split: sum.split)
  then show "chains_of g' = chains_of g" by (simp add: fun_eq_iff)
qed

text \<open>The graph between the two domain loops, and the one the node and edge phases extend.\<close>

definition domain_base :: "fabric_spec \<Rightarrow> fabric" where
  "domain_base spec = rebuild_index
     \<lparr>topology_generation = fs_topology spec, failure_domain_generation = fs_failure_domain spec,
      capacity_evidence_generation = fs_capacity_evidence spec,
      failure_domains = sort_key fd_id (fs_domains spec), nodes = [], edges = [], out_edge_lists = [],
      domain_chains = [], node_map = [], edge_map = [], domain_map = []\<rparr>"

lemma rebuild_index_simps [simp]:
  "topology_generation (rebuild_index g) = topology_generation g"
  "failure_domain_generation (rebuild_index g) = failure_domain_generation g"
  "capacity_evidence_generation (rebuild_index g) = capacity_evidence_generation g"
  "failure_domains (rebuild_index g) = failure_domains g"
  "nodes (rebuild_index g) = nodes g" "edges (rebuild_index g) = edges g"
  "domain_chains (rebuild_index g) = domain_chains g"
  "node_map (rebuild_index g) = build_index (map n_id (nodes g))"
  "edge_map (rebuild_index g) = build_index (map e_id (edges g))"
  "domain_map (rebuild_index g) = build_index (map fd_id (failure_domains g))"
  "out_edge_lists (rebuild_index g) =
     build_out_edges (build_index (map n_id (nodes g))) (length (nodes g)) (edges g)"
  by (simp_all add: rebuild_index_def Let_def)

lemma domain_base_simps [simp]:
  "topology_generation (domain_base spec) = fs_topology spec"
  "failure_domain_generation (domain_base spec) = fs_failure_domain spec"
  "capacity_evidence_generation (domain_base spec) = fs_capacity_evidence spec"
  "failure_domains (domain_base spec) = sort_key fd_id (fs_domains spec)"
  "domain_map (domain_base spec) = build_index (map fd_id (sort_key fd_id (fs_domains spec)))"
  "nodes (domain_base spec) = []" "edges (domain_base spec) = []"
  by (simp_all add: domain_base_def)

lemma check_parent_iff:
  assumes "domain_table_ok g"
  shows "is_ok (check_domain_parent g d) \<longleftrightarrow>
     (id_valid (fd_parent d) \<longrightarrow> (\<exists>p\<in>set (failure_domains g). fd_id p = fd_parent d \<and>
        domain_kind_value (fd_kind d) < domain_kind_value (fd_kind p)))"
proof (cases "find_failure_domain g (fd_parent d)")
  case None
  then have "\<not> (\<exists>p\<in>set (failure_domains g). fd_id p = fd_parent d)"
    using find_domain_iff [OF assms] by (metis option.simps(3))
  with None show ?thesis by (auto simp: check_domain_parent_def)
next
  case (Some q)
  then have "p \<in> set (failure_domains g) \<and> fd_id p = fd_parent d \<longleftrightarrow> p = q" for p
    using find_domain_iff [OF assms, of "fd_parent d" p] by auto
  then have "(\<exists>p\<in>set (failure_domains g). fd_id p = fd_parent d \<and>
        domain_kind_value (fd_kind d) < domain_kind_value (fd_kind p)) \<longleftrightarrow>
      domain_kind_value (fd_kind d) < domain_kind_value (fd_kind q)" by metis
  with Some show ?thesis by (simp add: check_domain_parent_def)
qed

lemma domain_base_parents:
  assumes "domains_admissible (fs_domains spec)"
  shows "parents_ok (domain_base spec)"
proof -
  have "domain_table_ok (domain_base spec)"
    using assms by (simp add: domain_table_ok_def sort_key_distinct_strict domains_admissible_def)
  then show ?thesis
    using assms by (auto simp: parents_ok_def check_parent_iff domains_admissible_def
        dest: is_valid_identifier_nonempty)
qed

lemma build_domains_unfold:
  "build_domains spec =
     (if \<not> is_ok (first_error check_domain_ids (fs_domains spec))
      then Inl (first_error check_domain_ids (fs_domains spec))
      else if \<not> distinct (map fd_id (fs_domains spec)) then Inl kDuplicateIdentifier
      else let parents = first_error (check_domain_parent (domain_base spec)) (sort_key fd_id (fs_domains spec)) in
        if \<not> is_ok parents then Inl parents
        else case chains_of (domain_base spec) (sort_key fd_id (fs_domains spec)) of
          Inl e \<Rightarrow> Inl e | Inr cs \<Rightarrow> Inr ((domain_base spec)\<lparr>domain_chains := cs\<rparr>))"
  by (simp add: build_domains_def domain_base_def [symmetric] adjacent_equal_sort_key Let_def)

lemma build_domains_iff:
  "build_domains spec = Inr g \<longleftrightarrow> domains_admissible (fs_domains spec) \<and>
     (\<exists>cs. chains_of (domain_base spec) (sort_key fd_id (fs_domains spec)) = Inr cs \<and>
           g = (domain_base spec)\<lparr>domain_chains := cs\<rparr>)"
proof (cases "distinct (map fd_id (fs_domains spec))")
  case True
  then have "domain_table_ok (domain_base spec)"
    by (simp add: domain_table_ok_def sort_key_distinct_strict)
  then have "is_ok (first_error check_domain_ids (fs_domains spec)) \<and>
      is_ok (first_error (check_domain_parent (domain_base spec)) (sort_key fd_id (fs_domains spec))) \<longleftrightarrow>
      domains_admissible (fs_domains spec)"
    using True by (auto simp: first_error_ok check_parent_iff domains_admissible_def check_domain_ids_def)
  then show ?thesis
    by (auto simp: build_domains_unfold True Let_def split: sum.split)
qed (simp add: build_domains_unfold domains_admissible_def)

lemma build_domains_total:
  assumes "domains_admissible (fs_domains spec)"
  shows "\<exists>cs. build_domains spec = Inr ((domain_base spec)\<lparr>domain_chains := cs\<rparr>) \<and>
     chains_of (domain_base spec) (sort_key fd_id (fs_domains spec)) = Inr cs \<and>
     length cs = length (fs_domains spec)"
  using chains_of_known [OF domain_base_parents [OF assms], of "sort_key fd_id (fs_domains spec)"] assms
  by (auto simp: build_domains_iff)

lemma build_nodes_iff:
  "build_nodes spec g = Inr g' \<longleftrightarrow>
     nodes_admissible (fs_nodes spec) \<and> g' = rebuild_index (g\<lparr>nodes := sort_key n_id (fs_nodes spec)\<rparr>)"
  by (auto simp: build_nodes_def nodes_admissible_def adjacent_equal_sort_key first_error_ok Let_def)

lemma check_edge_iff:
  assumes "domain_table_ok g" "nodes_ok g"
  shows "is_ok (check_edge g e) \<longleftrightarrow>
    edge_admissible (fd_id ` set (failure_domains g)) (n_id ` set (nodes g)) e"
  by (auto simp: check_edge_def edge_admissible_def not_le not_less
      node_rows.index_none [OF assms(2)] domain_rows.index_none [OF assms(1)])

lemma build_edges_iff:
  assumes "domain_table_ok g" "nodes_ok g"
  shows "build_edges spec g = Inr g' \<longleftrightarrow> distinct (map e_id (fs_edges spec)) \<and>
     (\<forall>e\<in>set (fs_edges spec).
        edge_admissible (fd_id ` set (failure_domains g)) (n_id ` set (nodes g)) e) \<and>
     g' = rebuild_index (g\<lparr>edges := sort_key edge_key (fs_edges spec)\<rparr>)"
proof -
  have "distinct (map e_id (sort_key edge_key es)) \<longleftrightarrow> distinct (map e_id es)" for es
    by (metis distinct_map distinct_sort set_sort)
  then show ?thesis
    by (auto simp: build_edges_def adjacent_equal_sort first_error_ok check_edge_iff [OF assms] Let_def)
qed

text \<open>The graph of an admissible description.\<close>

definition canonical_fabric :: "fabric_spec \<Rightarrow> domain_id list list \<Rightarrow> fabric" where
  "canonical_fabric spec cs = rebuild_index
     ((domain_base spec)\<lparr>domain_chains := cs, nodes := sort_key n_id (fs_nodes spec),
                         edges := sort_key edge_key (fs_edges spec)\<rparr>)"

lemma canonical_fabric_simps [simp]:
  "topology_generation (canonical_fabric spec cs) = fs_topology spec"
  "failure_domain_generation (canonical_fabric spec cs) = fs_failure_domain spec"
  "capacity_evidence_generation (canonical_fabric spec cs) = fs_capacity_evidence spec"
  "failure_domains (canonical_fabric spec cs) = sort_key fd_id (fs_domains spec)"
  "nodes (canonical_fabric spec cs) = sort_key n_id (fs_nodes spec)"
  "edges (canonical_fabric spec cs) = sort_key edge_key (fs_edges spec)"
  "domain_chains (canonical_fabric spec cs) = cs"
  "domain_map (canonical_fabric spec cs) = domain_map (domain_base spec)"
  by (simp_all add: canonical_fabric_def)

lemma distinct_edge_key: "distinct (map e_id es) \<Longrightarrow> distinct (map edge_key es)"
  by (auto simp: distinct_map edge_key_def inj_on_def)

lemma canonical_fabric_wf:
  assumes "fabric_admissible spec"
    and "chains_of (domain_base spec) (sort_key fd_id (fs_domains spec)) = Inr cs"
  shows "fabric_wf (canonical_fabric spec cs)" (is "fabric_wf ?g")
proof -
  note adm = assms(1) [unfolded fabric_admissible_def]
  have same: "failure_domains ?g = failure_domains (domain_base spec)"
    "domain_map ?g = domain_map (domain_base spec)" by simp_all
  note cong = domain_functions_cong [OF same]
  have base: "parents_ok (domain_base spec)" using adm by (simp add: domain_base_parents)
  then have table: "domain_table_ok ?g" using same by (simp add: parents_ok_def domain_table_ok_def)
  have domains: "domains_ok ?g"
    using table base adm assms(2) unfolding domains_ok_def cong
    by (auto simp: parents_ok_def domains_admissible_def check_domain_ids_def)
  have nodes: "nodes_ok ?g"
    using adm by (simp add: nodes_ok_def nodes_admissible_def sort_key_distinct_strict)
                 (simp add: canonical_fabric_def)
  have "strictly_increasing (map edge_key (sort_key edge_key (fs_edges spec)))"
    "distinct (map e_id (sort_key edge_key (fs_edges spec)))"
    using adm by (simp_all add: sort_key_distinct_strict distinct_edge_key)
                 (metis distinct_map distinct_sort set_sort)
  then have "edges_ok ?g"
    using adm by (simp add: edges_ok_def check_edge_iff [OF table nodes])
                 (simp add: canonical_fabric_def)
  with domains nodes adm show ?thesis by (simp add: fabric_wf_def)
qed

lemma chains_length: "chains_of g ds = Inr cs \<Longrightarrow> length cs = length ds"
  by (induction ds arbitrary: cs) (auto split: sum.splits)

lemma fabric_wf_validates:
  assumes "fabric_wf g"
  shows "is_ok (fabric_validate g)"
proof -
  note wf = fabric_wfD [OF assms]
  have refs: "is_ok (first_error (check_edge_references g) (edges g))"
  proof -
    have "is_ok (check_edge_references g e)" if "e \<in> set (edges g)" for e
    proof -
      have "edge_admissible (fd_id ` set (failure_domains g)) (n_id ` set (nodes g)) e"
        using wf(4) that check_edge_iff [OF wf(1,3)] by (simp add: edges_ok_def)
      then show ?thesis
        by (auto simp: check_edge_references_def edge_admissible_def find_defs not_less
            node_rows.lookup_none [OF wf(3)] domain_rows.lookup_none [OF wf(1)])
    qed
    then show ?thesis by (simp add: first_error_ok)
  qed
  have "strictly_increasing (map fd_id (failure_domains g))" "strictly_increasing (map n_id (nodes g))"
    "strictly_increasing (map edge_key (edges g))" "distinct (map e_id (edges g))"
    "length (domain_chains g) = length (failure_domains g)"
    using wf chains_length [of g "failure_domains g" "domain_chains g"]
    by (auto simp: domains_ok_def domain_table_ok_def nodes_ok_def edges_ok_def)
  moreover have "is_ok (first_error (check_domain_parent g) (failure_domains g))"
    using wf(2) by (simp add: domains_ok_def first_error_ok)
  ultimately show ?thesis
    using assms refs node_rows.entries_consistent [OF wf(3)] edge_rows.entries_consistent [OF wf(4)]
    by (simp add: fabric_validate_def fabric_wf_def adjacent_equal_sort strictly_increasingD(2))
qed

lemma node_stage_ok:
  fixes spec cs
  assumes "domains_admissible (fs_domains spec)" "nodes_admissible (fs_nodes spec)"
  defines "g \<equiv> rebuild_index ((domain_base spec)\<lparr>domain_chains := cs, nodes := sort_key n_id (fs_nodes spec)\<rparr>)"
  shows "domain_table_ok g" "nodes_ok g"
    "rebuild_index (g\<lparr>edges := sort_key edge_key (fs_edges spec)\<rparr>) = canonical_fabric spec cs"
proof -
  show "domain_table_ok g"
    using domain_base_parents [OF assms(1)] by (simp add: g_def parents_ok_def domain_table_ok_def)
  show "nodes_ok g"
    using assms(2) by (simp add: g_def nodes_ok_def nodes_admissible_def sort_key_distinct_strict)
  show "rebuild_index (g\<lparr>edges := sort_key edge_key (fs_edges spec)\<rparr>) = canonical_fabric spec cs"
    by (simp add: g_def canonical_fabric_def rebuild_index_def Let_def)
qed

text \<open>The three phases without the final self-check.\<close>

lemma build_phases:
  assumes "domains_admissible (fs_domains spec)"
    and "chains_of (domain_base spec) (sort_key fd_id (fs_domains spec)) = Inr cs"
    and "nodes_admissible (fs_nodes spec)"
  shows "build_domains spec = Inr ((domain_base spec)\<lparr>domain_chains := cs\<rparr>)"
    "build_nodes spec ((domain_base spec)\<lparr>domain_chains := cs\<rparr>) =
       Inr (rebuild_index ((domain_base spec)\<lparr>domain_chains := cs, nodes := sort_key n_id (fs_nodes spec)\<rparr>))"
    "build_edges spec (rebuild_index
        ((domain_base spec)\<lparr>domain_chains := cs, nodes := sort_key n_id (fs_nodes spec)\<rparr>)) = Inr g \<longleftrightarrow>
       distinct (map e_id (fs_edges spec)) \<and> (\<forall>e\<in>set (fs_edges spec).
         edge_admissible (fd_id ` set (fs_domains spec)) (n_id ` set (fs_nodes spec)) e) \<and>
       g = canonical_fabric spec cs"
  using assms node_stage_ok(3) [OF assms(1,3)]
  by (simp_all add: build_domains_iff build_nodes_iff build_edges_iff [OF node_stage_ok(1,2) [OF assms(1,3)]])

lemma fabric_build_admissible:
  assumes "fabric_admissible spec"
    and "chains_of (domain_base spec) (sort_key fd_id (fs_domains spec)) = Inr cs"
  shows "fabric_build spec = Inr (canonical_fabric spec cs)"
proof -
  note adm = assms(1) [unfolded fabric_admissible_def]
  have "is_ok (fabric_validate (canonical_fabric spec cs))"
    using assms by (simp add: canonical_fabric_wf fabric_wf_validates)
  moreover have "build_edges spec (rebuild_index
      ((domain_base spec)\<lparr>domain_chains := cs, nodes := sort_key n_id (fs_nodes spec)\<rparr>)) =
      Inr (canonical_fabric spec cs)"
    using adm by (simp add: build_phases(3) [OF _ assms(2)])
  ultimately show ?thesis
    using adm by (simp add: fabric_build_def build_phases(1,2) [OF _ assms(2)] not_less)
qed

lemma fabric_build_iff:
  "fabric_build spec = Inr g \<longleftrightarrow> fabric_admissible spec \<and>
     (\<exists>cs. chains_of (domain_base spec) (sort_key fd_id (fs_domains spec)) = Inr cs \<and>
           g = canonical_fabric spec cs)" (is "?build \<longleftrightarrow> ?spec")
proof
  show ?build if ?spec using that fabric_build_admissible by blast
  assume b: ?build
  then obtain g1 g2 where steps: "build_domains spec = Inr g1" "build_nodes spec g1 = Inr g2"
    "build_edges spec g2 = Inr g"
    and bounds: "length (fs_domains spec) \<le> kMaxFailureDomains" "length (fs_nodes spec) \<le> kMaxNodes"
      "length (fs_edges spec) \<le> kMaxEdges"
    by (auto simp: fabric_build_def not_less split: if_splits sum.splits)
  from steps(1) obtain cs where cs: "domains_admissible (fs_domains spec)"
    "chains_of (domain_base spec) (sort_key fd_id (fs_domains spec)) = Inr cs"
    "g1 = (domain_base spec)\<lparr>domain_chains := cs\<rparr>" by (auto simp: build_domains_iff)
  from steps(2) have ns: "nodes_admissible (fs_nodes spec)"
    and g2: "g2 = rebuild_index (g1\<lparr>nodes := sort_key n_id (fs_nodes spec)\<rparr>)"
    by (simp_all add: build_nodes_iff)
  from steps(3) g2 cs(3) show ?spec
    using bounds cs ns build_phases(3) [OF cs(1,2) ns, of g] by (simp add: fabric_admissible_def)
qed

lemma fabric_build_wf: "fabric_build spec = Inr g \<Longrightarrow> fabric_wf g"
  by (auto simp: fabric_build_iff canonical_fabric_wf)

section \<open>Adjacency\<close>

lemma build_out_edges_fold:
  assumes "\<And>k n. map_of index k = Some n \<Longrightarrow> n < length out" "i < length out"
  shows "length (fold (\<lambda>(j, e) out. case map_of index (e_from e) of
            Some n \<Rightarrow> out[n := out ! n @ [j]] | None \<Rightarrow> out) ps out) = length out \<and>
     fold (\<lambda>(j, e) out. case map_of index (e_from e) of
            Some n \<Rightarrow> out[n := out ! n @ [j]] | None \<Rightarrow> out) ps out ! i =
       out ! i @ map fst (filter (\<lambda>(j, e). map_of index (e_from e) = Some i) ps)"
  using assms
proof (induction ps arbitrary: out)
  case (Cons p ps)
  obtain j e where p: "p = (j, e)" by fastforce
  show ?case
    using Cons.prems(2)
    by (auto simp: p Cons.IH Cons.prems(1) nth_list_update split: option.split)
qed simp

lemma build_out_edges_nth:
  assumes "\<And>k n. map_of index k = Some n \<Longrightarrow> n < n_total" "i < n_total"
  shows "length (build_out_edges index n_total es) = n_total"
    "build_out_edges index n_total es ! i =
       map fst (filter (\<lambda>(j, e). map_of index (e_from e) = Some i) (enumerate 0 es))"
  using build_out_edges_fold [of index "replicate n_total []" i "enumerate 0 es"] assms
  by (simp_all add: build_out_edges_def)

lemma out_edges_exact:
  assumes "fabric_wf g" "i < length (nodes g)"
  shows "out_edges g i = filter (\<lambda>j. e_from (edges g ! j) = n_id (nodes g ! i)) [0..<length (edges g)]"
proof -
  note wf = fabric_wfD [OF assms(1)]
  have "map_of (node_map g) k = Some n \<Longrightarrow> n < length (nodes g)" for k n
    by (simp add: node_rows.index_iff [OF wf(3)])
  note built = build_out_edges_nth [OF this assms(2)]
  have "map fst (filter (\<lambda>(j, e). map_of (node_map g) (e_from e) = Some i) (enumerate 0 (edges g))) =
      filter (\<lambda>j. e_from (edges g ! j) = n_id (nodes g ! i)) [0..<length (edges g)]"
  proof -
    have "map_of (node_map g) (e_from e) = Some i \<longleftrightarrow> e_from e = n_id (nodes g ! i)" for e :: edge
      using node_rows.index_iff [OF wf(3)] assms(2) by auto
    then show ?thesis by (simp add: enumerate_0_map filter_map comp_def)
  qed
  then show ?thesis
    using assms(2) wf(4) by (simp add: out_edges_def edges_ok_def built)
qed

section \<open>Containment of a built graph\<close>

lemma fabric_wf_parents: "fabric_wf g \<Longrightarrow> parents_ok g"
  by (auto simp: fabric_wf_def domains_ok_def parents_ok_def check_domain_ids_def
      dest: is_valid_identifier_nonempty split: if_splits)

lemma domain_chain_exact:
  assumes "fabric_wf g"
  shows "k \<in> fd_id ` set (failure_domains g) \<Longrightarrow>
      set (domain_chain g k) = {a. (parent_step g)\<^sup>*\<^sup>* k a} \<and> length (domain_chain g k) \<le> 5 \<and>
      hd (domain_chain g k) = k"
    and "k \<notin> fd_id ` set (failure_domains g) \<Longrightarrow> domain_chain g k = []"
proof -
  note wf = fabric_wfD [OF assms]
  show "domain_chain g k = []" if "k \<notin> fd_id ` set (failure_domains g)"
  proof -
    have "map_of (domain_map g) k = None" using that domain_rows.index_none [OF wf(1)] by blast
    then show ?thesis by (simp add: domain_chain_def)
  qed
  assume "k \<in> fd_id ` set (failure_domains g)"
  then obtain i where i: "i < length (failure_domains g)" "fd_id (failure_domains g ! i) = k"
    by (auto simp: in_set_conv_nth)
  note known = chains_of_known [OF fabric_wf_parents [OF assms], of "failure_domains g"]
  have "chain_from g [] k = Inr (domain_chain g k)"
    using known i wf(2) domain_rows.index_row [OF wf(1) i(1)]
    by (auto simp: domain_chain_def domains_ok_def)
  moreover obtain rest where "chain_from g [] k = Inr (k # rest)"
    "set (k # rest) = {a. (parent_step g)\<^sup>*\<^sup>* k a}" "Suc (length rest) \<le> 5"
    using chain_from_known [OF fabric_wf_parents [OF assms] nth_mem [OF i(1)], of "[]"]
    unfolding i(2) by fastforce
  ultimately show "set (domain_chain g k) = {a. (parent_step g)\<^sup>*\<^sup>* k a} \<and>
      length (domain_chain g k) \<le> 5 \<and> hd (domain_chain g k) = k"
    by (metis Inr_inject length_Cons list.sel(1))
qed

lemma parent_reachable_known:
  "(parent_step g)\<^sup>*\<^sup>* c a \<Longrightarrow> parents_ok g \<Longrightarrow> c \<in> fd_id ` set (failure_domains g) \<Longrightarrow>
   a \<in> fd_id ` set (failure_domains g)"
proof (induction rule: rtranclp_induct)
  case (step b a)
  then obtain d where "d \<in> set (failure_domains g)" "fd_parent d = a" "id_valid a"
    by (auto simp: parent_step_def)
  with step.prems show ?case
    by (force simp: parents_ok_def find_domain_iff elim!: check_parentD)
qed simp

lemma domain_contains_iff:
  assumes "fabric_wf g"
  shows "domain_contains g a c \<longleftrightarrow> c \<in> fd_id ` set (failure_domains g) \<and> (parent_step g)\<^sup>*\<^sup>* c a"
proof -
  have "id_valid k" if "k \<in> fd_id ` set (failure_domains g)" for k
    using that fabric_wf_parents [OF assms] by (auto simp: parents_ok_def)
  moreover note domain_chain_exact [OF assms, of c]
    parent_reachable_known [OF _ fabric_wf_parents [OF assms], of c a]
  ultimately show ?thesis
    by (cases "c \<in> fd_id ` set (failure_domains g)") (auto simp: domain_contains_def list_ex_iff)
qed

lemma domain_contains_antisym:
  assumes "fabric_wf g" "domain_contains g a c" "domain_contains g c a"
  shows "a = c"
proof (rule ccontr)
  assume "a \<noteq> c"
  then have "(parent_step g)\<^sup>+\<^sup>+ c a" "(parent_step g)\<^sup>+\<^sup>+ a c"
    using assms by (auto simp: domain_contains_iff dest: rtranclpD)
  then show False
    using parent_steps_rank fabric_wf_parents [OF assms(1)] by (meson less_asym)
qed

section \<open>A small fabric\<close>

text \<open>
  Two nodes joined in both directions, declared out of order, below two nested domains; the
  concrete instance the properties are applied to.
\<close>

definition plain_node :: "node_id \<Rightarrow> node" where
  "plain_node k =
     \<lparr>n_id = k, n_placement = \<lparr>pl_site = [], pl_pod = [], pl_rack = [], pl_host = [],
        pl_device_index = 0, pl_supplied = False\<rparr>, n_tier = [], n_eligible = True\<rparr>"

definition plain_edge :: "edge_id \<Rightarrow> node_id \<Rightarrow> node_id \<Rightarrow> domain_id \<Rightarrow> edge" where
  "plain_edge k a b d =
     \<lparr>e_id = k, e_from = a, e_to = b, e_capacity = 100, e_latency = 10, e_reserved = 0, e_tier = [],
      e_domain = d, e_evidence = evMeasured, e_eligible = True\<rparr>"

definition pair_spec :: fabric_spec where
  "pair_spec =
     \<lparr>fs_topology = 1, fs_failure_domain = 1, fs_capacity_evidence = 1,
      fs_domains = [\<lparr>fd_id = ''rack'', fd_parent = [], fd_kind = dkRack\<rparr>,
                    \<lparr>fd_id = ''host'', fd_parent = ''rack'', fd_kind = dkHost\<rparr>],
      fs_nodes = [plain_node ''b'', plain_node ''a''],
      fs_edges = [plain_edge ''e2'' ''b'' ''a'' ''rack'', plain_edge ''e1'' ''a'' ''b'' ''host'']\<rparr>"

definition pair_fabric :: fabric where
  "pair_fabric = projr (fabric_build pair_spec)"

lemma pair_fabric_built: "fabric_build pair_spec = Inr pair_fabric"
proof -
  have "\<not> isl (fabric_build pair_spec)" by code_simp
  then show ?thesis by (simp add: pair_fabric_def)
qed

text \<open>Its value, for the evaluation of examples.\<close>

lemma pair_fabric_eq [code]:
  "pair_fabric =
   \<lparr>topology_generation = 1, failure_domain_generation = 1,
       capacity_evidence_generation = 1,
       failure_domains =
         [\<lparr>fd_id = ''host'', fd_parent = ''rack'', fd_kind = dkHost\<rparr>,
          \<lparr>fd_id = ''rack'', fd_parent = [], fd_kind = dkRack\<rparr>],
       nodes =
         [\<lparr>n_id = ''a'',
             n_placement =
               \<lparr>pl_site = [], pl_pod = [], pl_rack = [], pl_host = [],
                  pl_device_index = 0, pl_supplied = False\<rparr>,
             n_tier = [], n_eligible = True\<rparr>,
          \<lparr>n_id = ''b'',
             n_placement =
               \<lparr>pl_site = [], pl_pod = [], pl_rack = [], pl_host = [],
                  pl_device_index = 0, pl_supplied = False\<rparr>,
             n_tier = [], n_eligible = True\<rparr>],
       edges =
         [\<lparr>e_id = ''e1'', e_from = ''a'', e_to = ''b'', e_capacity = 100,
             e_latency = 10, e_reserved = 0, e_tier = [], e_domain = ''host'',
             e_evidence = evMeasured, e_eligible = True\<rparr>,
          \<lparr>e_id = ''e2'', e_from = ''b'', e_to = ''a'', e_capacity = 100,
             e_latency = 10, e_reserved = 0, e_tier = [], e_domain = ''rack'',
             e_evidence = evMeasured, e_eligible = True\<rparr>],
       out_edge_lists = [[0], [1]],
       domain_chains = [[''host'', ''rack''], [''rack'']],
       node_map = [(''a'', 0), (''b'', 1)],
       edge_map = [(''e1'', 0), (''e2'', 1)],
       domain_map = [(''host'', 0), (''rack'', 1)]\<rparr>"
  by code_simp

section \<open>Properties\<close>

text \<open>
  C20: \<open>build\<close> accepts exactly the admissible descriptions (bounded, valid and distinct
  identities, edges between known distinct nodes and known domains within the ceilings, every
  parent a known domain of a strictly broader kind); neither the containment-depth guard nor
  the final self-check can ever reject what passed the explicit checks.
\<close>

theorem fabric_build_accepts_exactly:
  "(\<exists>g. fabric_build spec = Inr g) \<longleftrightarrow> fabric_admissible spec"
proof -
  have "\<exists>cs. chains_of (domain_base spec) (sort_key fd_id (fs_domains spec)) = Inr cs"
    if "fabric_admissible spec"
    using that build_domains_total [of spec] by (auto simp: fabric_admissible_def)
  then show ?thesis by (auto simp: fabric_build_iff)
qed

text \<open>
  C31: the built graph does not depend on the order of the declarations: a description whose
  domains, nodes and edges are permuted builds the same graph, tables, adjacency lists and
  canonical encoding included.
\<close>

theorem fabric_build_order_independent:
  assumes "fabric_build spec = Inr g"
    and "mset (fs_domains spec') = mset (fs_domains spec)"
    and "mset (fs_nodes spec') = mset (fs_nodes spec)"
    and "mset (fs_edges spec') = mset (fs_edges spec)"
    and "fs_topology spec' = fs_topology spec" "fs_failure_domain spec' = fs_failure_domain spec"
      "fs_capacity_evidence spec' = fs_capacity_evidence spec"
  shows "fabric_build spec' = Inr g"
proof -
  from assms(1) obtain cs where adm: "fabric_admissible spec"
    and cs: "chains_of (domain_base spec) (sort_key fd_id (fs_domains spec)) = Inr cs"
      "g = canonical_fabric spec cs" by (auto simp: fabric_build_iff)
  have d: "distinct (map fd_id (fs_domains spec))" "distinct (map n_id (fs_nodes spec))"
    "distinct (map e_id (fs_edges spec))"
    using adm by (simp_all add: fabric_admissible_def domains_admissible_def nodes_admissible_def)
  note d' = d(1,2) distinct_edge_key [OF d(3)]
  have sorts: "sort_key fd_id (fs_domains spec') = sort_key fd_id (fs_domains spec)"
    "sort_key n_id (fs_nodes spec') = sort_key n_id (fs_nodes spec)"
    "sort_key edge_key (fs_edges spec') = sort_key edge_key (fs_edges spec)"
    using assms(2-4) d' by (metis sort_key_perm_eq)+
  have sets: "set (fs_domains spec') = set (fs_domains spec)" "set (fs_nodes spec') = set (fs_nodes spec)"
    "set (fs_edges spec') = set (fs_edges spec)"
    "length (fs_domains spec') = length (fs_domains spec)" "length (fs_nodes spec') = length (fs_nodes spec)"
    "length (fs_edges spec') = length (fs_edges spec)"
    using assms(2-4) by (auto dest: mset_eq_setD mset_eq_length)
  have dist: "distinct (map fd_id (fs_domains spec'))" "distinct (map n_id (fs_nodes spec'))"
    "distinct (map e_id (fs_edges spec'))"
    using d assms(2-4) by (metis mset_eq_imp_distinct_iff mset_map)+
  have base: "domain_base spec' = domain_base spec"
    using sorts assms(5-7) by (simp add: domain_base_def)
  have "fabric_admissible spec'"
    using adm sets dist by (simp add: fabric_admissible_def domains_admissible_def nodes_admissible_def)
  moreover have "canonical_fabric spec' cs = canonical_fabric spec cs"
    by (simp add: canonical_fabric_def base sorts)
  ultimately show ?thesis
    using cs by (auto simp: fabric_build_iff base sorts)
qed

theorem fabric_build_order_independent_witness:
  "fabric_build (pair_spec\<lparr>fs_nodes := rev (fs_nodes pair_spec), fs_edges := rev (fs_edges pair_spec)\<rparr>)
     = Inr pair_fabric"
  by (rule fabric_build_order_independent [OF pair_fabric_built]) simp_all

text \<open>
  C32: in a built graph the identity tables and the adjacency lists are exact: a lookup by
  identity finds precisely the row that carries it, and the adjacency list of a node holds, in
  canonical order, precisely the indices of the edges that leave it.
\<close>

theorem fabric_lookups_exact:
  assumes "fabric_build spec = Inr g"
  shows "(find_node g k = Some n \<longleftrightarrow> n \<in> set (fs_nodes spec) \<and> n_id n = k) \<and>
    (find_edge g k = Some e \<longleftrightarrow> e \<in> set (fs_edges spec) \<and> e_id e = k) \<and>
    (find_failure_domain g k = Some d \<longleftrightarrow> d \<in> set (fs_domains spec) \<and> fd_id d = k) \<and>
    (i < length (nodes g) \<longrightarrow>
       node_index g (n_id (nodes g ! i)) = Some i \<and>
       out_edges g i = filter (\<lambda>j. e_from (edges g ! j) = n_id (nodes g ! i)) [0..<length (edges g)])"
proof -
  have wf: "fabric_wf g" using assms by (rule fabric_build_wf)
  have "set (nodes g) = set (fs_nodes spec)" "set (edges g) = set (fs_edges spec)"
    "set (failure_domains g) = set (fs_domains spec)"
    using assms by (auto simp: fabric_build_iff)
  then show ?thesis
    using find_node_iff [OF wf] find_edge_iff [OF wf] find_domain_iff [OF fabric_wfD(1) [OF wf]]
      node_rows.index_row [OF fabric_wfD(3) [OF wf], of i] out_edges_exact [OF wf, of i]
    by (simp add: node_index_def)
qed

theorem fabric_lookups_exact_witness:
  "find_node pair_fabric ''a'' = Some (plain_node ''a'') \<and> find_edge pair_fabric ''e9'' = None \<and>
   out_edges pair_fabric 1 = filter (\<lambda>j. e_from (edges pair_fabric ! j) = n_id (nodes pair_fabric ! 1))
     [0..<length (edges pair_fabric)]"
proof -
  have n: "length (nodes pair_fabric) = 2" by code_simp
  have "find_edge pair_fabric ''e9'' \<noteq> Some e" for e
    using fabric_lookups_exact [OF pair_fabric_built, of "''e9''"]
    by (auto simp: pair_spec_def plain_edge_def)
  then have "find_edge pair_fabric ''e9'' = None" by auto
  then show ?thesis
    using fabric_lookups_exact [OF pair_fabric_built, of "''a''" "plain_node ''a''" _ _ 1] n
    by (simp add: pair_spec_def plain_node_def)
qed

text \<open>
  C33: containment of failure domains in a built graph is the reflexive, transitive and
  antisymmetric closure of the declared parents on the known domains, and every containment
  chain has at most five entries, one per kind.
\<close>

theorem domain_containment_order:
  assumes "fabric_build spec = Inr g"
  shows "(domain_contains g a a \<longleftrightarrow> a \<in> fd_id ` set (fs_domains spec)) \<and>
    (domain_contains g a b \<and> domain_contains g b c \<longrightarrow> domain_contains g a c) \<and>
    (domain_contains g a b \<and> domain_contains g b a \<longrightarrow> a = b) \<and>
    (domain_contains g a c \<longleftrightarrow> c \<in> fd_id ` set (fs_domains spec) \<and> (parent_step g)\<^sup>*\<^sup>* c a) \<and>
    length (domain_chain g a) \<le> 5"
proof -
  have wf: "fabric_wf g" and ds: "set (failure_domains g) = set (fs_domains spec)"
    using assms fabric_build_wf by (auto simp: fabric_build_iff)
  have "length (domain_chain g a) \<le> 5"
    using domain_chain_exact [OF wf, of a] by (cases "a \<in> fd_id ` set (failure_domains g)") auto
  then show ?thesis
    using domain_contains_antisym [OF wf] by (auto simp: domain_contains_iff [OF wf] ds)
qed

theorem domain_containment_order_witness:
  "domain_contains pair_fabric ''rack'' ''rack'' \<and> domain_contains pair_fabric ''rack'' ''host'' \<and>
   \<not> domain_contains pair_fabric ''host'' ''rack'' \<and> length (domain_chain pair_fabric ''host'') \<le> 5"
proof -
  have "domain_contains pair_fabric ''rack'' ''host''" by code_simp
  then show ?thesis
    using domain_containment_order [OF pair_fabric_built, of "''rack''" "''host''"]
      domain_containment_order [OF pair_fabric_built, of "''host''" "''rack''"]
    by (auto simp: pair_spec_def)
qed

end
