(* ===== verification/Policy.thy ===== *)
theory Policy
  imports Fabric
begin

text \<open>
  The planning policy (\<open>include/cpath/policy.hpp\<close>, \<open>src/policy.cpp\<close>): its
  enumerations with their text forms, its canonical form, its validation and its canonical
  encoding. The counters of type \<open>std::size_t\<close> are natural numbers, the scoring weights
  64-bit words.
\<close>

section \<open>Data\<close>

datatype disjointness = djNone | djEdge | djNode

datatype domain_diversity = ddNone | ddPreferred | ddRequired

datatype evidence_requirement = erAny | erSyntheticOrBetter | erMeasured

primrec disjointness_value :: "disjointness \<Rightarrow> u8" where
  "disjointness_value djNone = 0"
| "disjointness_value djEdge = 1"
| "disjointness_value djNode = 2"

primrec domain_diversity_value :: "domain_diversity \<Rightarrow> u8" where
  "domain_diversity_value ddNone = 0"
| "domain_diversity_value ddPreferred = 1"
| "domain_diversity_value ddRequired = 2"

primrec evidence_requirement_value :: "evidence_requirement \<Rightarrow> u8" where
  "evidence_requirement_value erAny = 0"
| "evidence_requirement_value erSyntheticOrBetter = 1"
| "evidence_requirement_value erMeasured = 2"

primrec to_string_disjointness :: "disjointness \<Rightarrow> string" where
  "to_string_disjointness djNone = ''none''"
| "to_string_disjointness djEdge = ''edge''"
| "to_string_disjointness djNode = ''node''"

definition parse_disjointness :: "string \<Rightarrow> disjointness option" where
  "parse_disjointness text =
     (if text = ''none'' then Some djNone else if text = ''edge'' then Some djEdge
      else if text = ''node'' then Some djNode else None)"

primrec to_string_domain_diversity :: "domain_diversity \<Rightarrow> string" where
  "to_string_domain_diversity ddNone = ''none''"
| "to_string_domain_diversity ddPreferred = ''preferred''"
| "to_string_domain_diversity ddRequired = ''required''"

definition parse_domain_diversity :: "string \<Rightarrow> domain_diversity option" where
  "parse_domain_diversity text =
     (if text = ''none'' then Some ddNone else if text = ''preferred'' then Some ddPreferred
      else if text = ''required'' then Some ddRequired else None)"

primrec to_string_evidence_requirement :: "evidence_requirement \<Rightarrow> string" where
  "to_string_evidence_requirement erAny = ''any''"
| "to_string_evidence_requirement erSyntheticOrBetter = ''synthetic-or-better''"
| "to_string_evidence_requirement erMeasured = ''measured''"

definition parse_evidence_requirement :: "string \<Rightarrow> evidence_requirement option" where
  "parse_evidence_requirement text =
     (if text = ''any'' then Some erAny
      else if text = ''synthetic-or-better'' \<or> text = ''synthetic'' then Some erSyntheticOrBetter
      else if text = ''measured'' then Some erMeasured else None)"

record policy =
  po_generation :: generation
  max_hops :: nat
  paths_per_logical_edge :: nat
  po_disjointness :: disjointness
  po_domain_diversity :: domain_diversity
  domain_diversity_level :: domain_kind
  po_evidence :: evidence_requirement
  latency_weight_milli :: u64
  congestion_weight_milli :: u64
  max_path_cost :: u64
  allow_unverified_capacity :: bool
  forbidden_nodes :: "node_id list"
  forbidden_tiers :: "tier_id list"
  forbidden_failure_domains :: "domain_id list"
  allowed_path_tiers :: "tier_id list"
  max_search_expansions :: nat

section \<open>Operations\<close>

definition policy_canonicalize :: "policy \<Rightarrow> policy" where
  "policy_canonicalize p =
     p\<lparr>forbidden_nodes := sort_unique (forbidden_nodes p),
       forbidden_tiers := sort_unique (forbidden_tiers p),
       forbidden_failure_domains := sort_unique (forbidden_failure_domains p),
       allowed_path_tiers := sort_unique (allowed_path_tiers p)\<rparr>"

definition require_sorted_unique :: "string list \<Rightarrow> error_code" where
  "require_sorted_unique xs = (if strictly_increasing xs then kOk else kInconsistentMetadata)"

definition check_identifier :: "string \<Rightarrow> error_code" where
  "check_identifier s = (if \<not> is_valid_identifier s then kInvalidCharacter else kOk)"

definition check_tier :: "string \<Rightarrow> error_code" where
  "check_tier s = (if \<not> is_valid_tier_name s then kInvalidCharacter else kOk)"

definition check_allowed_tier :: "policy \<Rightarrow> tier_id \<Rightarrow> error_code" where
  "check_allowed_tier p tier =
     (if \<not> is_valid_tier_name tier then kInvalidCharacter
      else if tier \<in> set (forbidden_tiers p) then kInconsistentMetadata else kOk)"

definition policy_validate :: "policy \<Rightarrow> error_code" where
  "policy_validate p =
     (if \<not> generation_valid (po_generation p) then kMissingRequiredField
      else if max_hops p < 1 \<or> max_hops p > kMaxHops then kValueOutOfRange
      else if paths_per_logical_edge p < kMinPathsPerLogicalEdge
              \<or> paths_per_logical_edge p > kMaxPathsPerLogicalEdge then kPathCountUnsupported
      else if latency_weight_milli p > kMaxScoringWeightMilli
              \<or> congestion_weight_milli p > kMaxScoringWeightMilli then kValueOutOfRange
      else if max_path_cost p = 0 \<or> max_path_cost p > kCostCeiling then kValueOutOfRange
      else if length (forbidden_nodes p) > kMaxPolicySetEntries
              \<or> length (forbidden_tiers p) > kMaxPolicySetEntries
              \<or> length (forbidden_failure_domains p) > kMaxPolicySetEntries
              \<or> length (allowed_path_tiers p) > kMaxPolicySetEntries then kTooManyItems
      else if max_search_expansions p = 0 \<or> max_search_expansions p > kMaxSearchExpansions
        then kValueOutOfRange
      else and_then (first_error check_identifier (forbidden_nodes p))
          (and_then (first_error check_tier (forbidden_tiers p))
          (and_then (first_error check_identifier (forbidden_failure_domains p))
          (and_then (first_error (check_allowed_tier p) (allowed_path_tiers p))
          (and_then (require_sorted_unique (forbidden_nodes p))
          (and_then (require_sorted_unique (forbidden_tiers p))
          (and_then (require_sorted_unique (forbidden_failure_domains p))
                    (require_sorted_unique (allowed_path_tiers p)))))))))"

definition policy_encode_canonical :: "policy \<Rightarrow> bytes" where
  "policy_encode_canonical p =
     put_tagged ''policy.v1'' @ put_u64 (po_generation p) @ put_u64 (of_nat (max_hops p))
     @ put_u64 (of_nat (paths_per_logical_edge p)) @ put_u8 (disjointness_value (po_disjointness p))
     @ put_u8 (domain_diversity_value (po_domain_diversity p))
     @ put_u8 (domain_kind_value (domain_diversity_level p))
     @ put_u8 (evidence_requirement_value (po_evidence p))
     @ put_u64 (latency_weight_milli p) @ put_u64 (congestion_weight_milli p)
     @ put_u64 (max_path_cost p) @ put_boolean (allow_unverified_capacity p)
     @ put_u64 (of_nat (max_search_expansions p))
     @ put_list put_string (forbidden_nodes p) @ put_list put_string (forbidden_tiers p)
     @ put_list put_string (forbidden_failure_domains p) @ put_list put_string (allowed_path_tiers p)"

section \<open>Lemmas\<close>

lemma enum_value_inj [simp]:
  "disjointness_value a = disjointness_value b \<longleftrightarrow> a = b"
  "domain_diversity_value c = domain_diversity_value d \<longleftrightarrow> c = d"
  "evidence_requirement_value e = evidence_requirement_value f \<longleftrightarrow> e = f"
  by ((cases a; cases b), simp_all) ((cases c; cases d), simp_all, (cases e; cases f), simp_all)

text \<open>What a validated policy guarantees to the planner.\<close>

lemma policy_validateD:
  assumes "is_ok (policy_validate p)"
  shows "0 < max_hops p" "max_hops p \<le> kMaxHops" "0 < paths_per_logical_edge p"
    "paths_per_logical_edge p \<le> kMaxPathsPerLogicalEdge"
    "max_path_cost p \<noteq> 0" "max_path_cost p \<le> kCostCeiling"
    "0 < max_search_expansions p" "max_search_expansions p \<le> kMaxSearchExpansions"
    "strictly_increasing (forbidden_nodes p)" "strictly_increasing (forbidden_tiers p)"
    "strictly_increasing (forbidden_failure_domains p)" "strictly_increasing (allowed_path_tiers p)"
    "set (allowed_path_tiers p) \<inter> set (forbidden_tiers p) = {}"
    "list_all is_valid_identifier (forbidden_nodes p)" "list_all is_valid_identifier (forbidden_tiers p)"
    "list_all is_valid_identifier (forbidden_failure_domains p)"
    "list_all is_valid_identifier (allowed_path_tiers p)"
    "length (forbidden_nodes p) \<le> kMaxPolicySetEntries" "length (forbidden_tiers p) \<le> kMaxPolicySetEntries"
    "length (forbidden_failure_domains p) \<le> kMaxPolicySetEntries"
    "length (allowed_path_tiers p) \<le> kMaxPolicySetEntries"
  using assms
  by (auto simp: policy_validate_def first_error_ok check_identifier_def check_tier_def
      check_allowed_tier_def require_sorted_unique_def list_all_iff kMinPathsPerLogicalEdge_def
      dest: is_valid_tier_name_identifier split: if_splits)

section \<open>Properties\<close>

text \<open>
  C34: canonicalisation decides equality of policies as sets: two policies canonicalise to the
  same record exactly when they agree on every scalar field and on the four sets, whatever the
  order and the repetitions they were declared with; it is idempotent and establishes the order
  that validation demands.
\<close>

theorem policy_canonical_form:
  "(policy_canonicalize p = policy_canonicalize q \<longleftrightarrow>
      p\<lparr>forbidden_nodes := [], forbidden_tiers := [], forbidden_failure_domains := [],
        allowed_path_tiers := []\<rparr> =
      q\<lparr>forbidden_nodes := [], forbidden_tiers := [], forbidden_failure_domains := [],
        allowed_path_tiers := []\<rparr> \<and>
      set (forbidden_nodes p) = set (forbidden_nodes q) \<and>
      set (forbidden_tiers p) = set (forbidden_tiers q) \<and>
      set (forbidden_failure_domains p) = set (forbidden_failure_domains q) \<and>
      set (allowed_path_tiers p) = set (allowed_path_tiers q)) \<and>
   policy_canonicalize (policy_canonicalize p) = policy_canonicalize p \<and>
   is_ok (and_then (require_sorted_unique (forbidden_nodes (policy_canonicalize p)))
         (and_then (require_sorted_unique (forbidden_tiers (policy_canonicalize p)))
         (and_then (require_sorted_unique (forbidden_failure_domains (policy_canonicalize p)))
                   (require_sorted_unique (allowed_path_tiers (policy_canonicalize p))))))"
proof -
  have eq: "sort_unique xs = sort_unique ys \<longleftrightarrow> set xs = set ys" for xs ys :: "string list"
    by (metis set_sort_unique sort_unique_eq)
  show ?thesis
    by (cases p; cases q) (auto simp: policy_canonicalize_def require_sorted_unique_def eq)
qed

end
