(* ===== verification/Collective.thy ===== *)
theory Collective
  imports Policy
begin

text \<open>
  The logical structure of a collective (\<open>include/cpath/collective.hpp\<close>,
  \<open>src/collective.cpp\<close>): groups of participants, the logical edges each pattern implies,
  and the canonical collective built from an unvalidated description. A logical edge is the
  pair of its source and its destination; its default order is the lexicographic one.
\<close>

section \<open>Data\<close>

datatype collective_kind = ckRing | ckTree | ckPairwise | ckAllToAll | ckHierarchical

datatype tree_direction = tdForward | tdReverse | tdBidirectional

datatype group_pattern = gpRing | gpTree | gpPairwise | gpAllToAll

primrec collective_kind_value :: "collective_kind \<Rightarrow> u8" where
  "collective_kind_value ckRing = 0"
| "collective_kind_value ckTree = 1"
| "collective_kind_value ckPairwise = 2"
| "collective_kind_value ckAllToAll = 3"
| "collective_kind_value ckHierarchical = 4"

primrec tree_direction_value :: "tree_direction \<Rightarrow> u8" where
  "tree_direction_value tdForward = 0"
| "tree_direction_value tdReverse = 1"
| "tree_direction_value tdBidirectional = 2"

primrec group_pattern_value :: "group_pattern \<Rightarrow> u8" where
  "group_pattern_value gpRing = 0"
| "group_pattern_value gpTree = 1"
| "group_pattern_value gpPairwise = 2"
| "group_pattern_value gpAllToAll = 3"

primrec to_string_collective_kind :: "collective_kind \<Rightarrow> string" where
  "to_string_collective_kind ckRing = ''ring''"
| "to_string_collective_kind ckTree = ''tree''"
| "to_string_collective_kind ckPairwise = ''pairwise''"
| "to_string_collective_kind ckAllToAll = ''alltoall''"
| "to_string_collective_kind ckHierarchical = ''hierarchical''"

definition parse_collective_kind :: "string \<Rightarrow> collective_kind option" where
  "parse_collective_kind text =
     (if text = ''ring'' then Some ckRing else if text = ''tree'' then Some ckTree
      else if text = ''pairwise'' then Some ckPairwise else if text = ''alltoall'' then Some ckAllToAll
      else if text = ''hierarchical'' then Some ckHierarchical else None)"

primrec to_string_tree_direction :: "tree_direction \<Rightarrow> string" where
  "to_string_tree_direction tdForward = ''forward''"
| "to_string_tree_direction tdReverse = ''reverse''"
| "to_string_tree_direction tdBidirectional = ''bidirectional''"

definition parse_tree_direction :: "string \<Rightarrow> tree_direction option" where
  "parse_tree_direction text =
     (if text = ''forward'' then Some tdForward else if text = ''reverse'' then Some tdReverse
      else if text = ''bidirectional'' then Some tdBidirectional else None)"

primrec to_string_group_pattern :: "group_pattern \<Rightarrow> string" where
  "to_string_group_pattern gpRing = ''ring''"
| "to_string_group_pattern gpTree = ''tree''"
| "to_string_group_pattern gpPairwise = ''pairwise''"
| "to_string_group_pattern gpAllToAll = ''alltoall''"

definition parse_group_pattern :: "string \<Rightarrow> group_pattern option" where
  "parse_group_pattern text =
     (if text = ''ring'' then Some gpRing else if text = ''tree'' then Some gpTree
      else if text = ''pairwise'' then Some gpPairwise
      else if text = ''alltoall'' then Some gpAllToAll else None)"

type_synonym logical_edge = "participant_id \<times> participant_id"

record group_spec =
  gr_id :: group_id
  gr_level :: u32
  gr_pattern :: group_pattern
  gr_direction :: tree_direction
  gr_root :: participant_id
  gr_members :: "participant_id list"

record collective_spec =
  cs_id :: string
  cs_kind :: collective_kind
  cs_demand :: u64
  cs_groups :: "group_spec list"

record collective =
  co_id :: string
  co_kind :: collective_kind
  co_demand :: u64
  participants :: "participant_id list"
  logical_edges :: "logical_edge list"
  logical_edge_stage :: "u32 list"
  groups :: "group_spec list"
  stage_count :: u32

definition logical_edge_id :: "nat \<Rightarrow> u64" where
  "logical_edge_id i = of_nat i + 1"

section \<open>Groups\<close>

text \<open>\<open>std::min_element\<close>: the first position whose element no other is smaller than.\<close>

definition min_element :: "'a::linorder list \<Rightarrow> nat" where
  "min_element xs = length (takeWhile (\<lambda>x. list_ex (\<lambda>y. y < x) xs) xs)"

definition rotate_ring_canonical :: "participant_id list \<Rightarrow> participant_id list" where
  "rotate_ring_canonical members =
     (if members = [] then members
      else let smallest = min_element members in drop smallest members @ take smallest members)"

fun pair_edges :: "participant_id list \<Rightarrow> logical_edge list" where
  "pair_edges (a # b # rest) = (a, b) # (b, a) # pair_edges rest"
| "pair_edges _ = []"

definition tree_edges :: "group_spec \<Rightarrow> participant_id \<Rightarrow> logical_edge list" where
  "tree_edges g member =
     (if member = gr_root g then []
      else (if gr_direction g = tdForward \<or> gr_direction g = tdBidirectional
            then [(gr_root g, member)] else [])
         @ (if gr_direction g = tdReverse \<or> gr_direction g = tdBidirectional
            then [(member, gr_root g)] else []))"

definition append_group_edges :: "group_spec \<Rightarrow> (logical_edge \<times> u32) list result" where
  "append_group_edges g =
     (let members = gr_members g; stage = gr_level g in
      case gr_pattern g of
        gpRing \<Rightarrow>
          if length members < 2 then Inl kInconsistentMetadata
          else Inr (map (\<lambda>i. ((members ! i, members ! ((i + 1) mod length members)), stage))
                        [0..<length members])
      | gpTree \<Rightarrow>
          if length members < 2 then Inl kInconsistentMetadata
          else if \<not> id_valid (gr_root g) then Inl kMissingRequiredField
          else if gr_root g \<notin> set members then Inl kUnknownReference
          else Inr (map (\<lambda>e. (e, stage)) (concat (map (tree_edges g) members)))
      | gpPairwise \<Rightarrow>
          if length members mod 2 \<noteq> 0 then Inl kInconsistentMetadata
          else Inr (map (\<lambda>e. (e, stage)) (pair_edges members))
      | gpAllToAll \<Rightarrow>
          if length members < 2 then Inl kInconsistentMetadata
          else Inr (map (\<lambda>e. (e, stage))
                 (concat (map (\<lambda>src. map (Pair src) (filter (\<lambda>dst. src \<noteq> dst) members)) members))))"

text \<open>One iteration of the group loop of \<open>Collective::build\<close>: checks and canonical members.\<close>

definition canonical_group :: "group_spec \<Rightarrow> group_spec result" where
  "canonical_group g =
     (if \<not> is_valid_identifier (gr_id g) then Inl kInvalidCharacter
      else if unat (gr_level g) \<ge> kMaxHierarchyLevels then Inl kValueOutOfRange
      else if gr_members g = [] then Inl kEmptyCollective
      else if length (gr_members g) > kMaxGroupMembers then Inl kTooManyItems
      else if \<not> list_all is_valid_identifier (gr_members g) then Inl kInvalidCharacter
      else if id_valid (gr_root g) \<and> \<not> is_valid_identifier (gr_root g) then Inl kInvalidCharacter
      else if gr_pattern g = gpRing then
        (if adjacent_equal (sort (gr_members g)) then Inl kDuplicateIdentifier
         else Inr (g\<lparr>gr_members := rotate_ring_canonical (gr_members g)\<rparr>))
      else
        (if adjacent_equal (sort (gr_members g)) then Inl kDuplicateIdentifier
         else Inr (g\<lparr>gr_members := sort (gr_members g)\<rparr>)))"

definition group_key :: "group_spec \<Rightarrow> u32 \<times> group_id" where
  "group_key g = (gr_level g, gr_id g)"

section \<open>Building a collective\<close>

text \<open>
  The loop over the sorted derived edges: a self loop is an error, a repetition of the previous
  logical edge is dropped, anything else is kept with its stage.
\<close>

fun keep_edges :: "logical_edge option \<Rightarrow> (logical_edge \<times> u32) list \<Rightarrow> (logical_edge \<times> u32) list result" where
  "keep_edges prev [] = Inr []"
| "keep_edges prev ((e, s) # rest) =
     (if fst e = snd e then Inl kSelfLoopLogicalEdge
      else case keep_edges (Some e) rest of
        Inl err \<Rightarrow> Inl err
      | Inr kept \<Rightarrow> Inr (if prev = Some e then kept else (e, s) # kept))"

definition count_stages :: "(logical_edge \<times> u32) list \<Rightarrow> u32" where
  "count_stages kept = fold (\<lambda>(e, s) n. max n (s + 1)) kept 1"

definition edge_participants :: "logical_edge list \<Rightarrow> participant_id list" where
  "edge_participants es = sort_unique (concat (map (\<lambda>e. [fst e, snd e]) es))"

definition collective_validate :: "collective \<Rightarrow> error_code" where
  "collective_validate c =
     (if logical_edges c = [] then kEmptyCollective
      else if length (logical_edges c) > kMaxLogicalEdges then kTooManyItems
      else if length (logical_edge_stage c) \<noteq> length (logical_edges c) then kInternalError
      else if \<not> strictly_increasing (logical_edges c) then kInconsistentMetadata
      else if list_ex (\<lambda>e. fst e = snd e) (logical_edges c) then kSelfLoopLogicalEdge
      else if \<not> strictly_increasing (participants c) then kInconsistentMetadata
      else if stage_count c = 0 then kInconsistentMetadata
      else if list_ex (\<lambda>s. s \<ge> stage_count c) (logical_edge_stage c) then kInconsistentMetadata
      else kOk)"

definition canonical_groups :: "collective_spec \<Rightarrow> group_spec list result" where
  "canonical_groups spec =
     (case collect canonical_group (cs_groups spec) of Inl e \<Rightarrow> Inl e
      | Inr gs \<Rightarrow> (let sorted_groups = sort_key group_key gs in
          if adjacent_equal (map gr_id sorted_groups) then Inl kDuplicateIdentifier
          else Inr sorted_groups))"

definition derive_edges :: "group_spec list \<Rightarrow> (logical_edge \<times> u32) list result" where
  "derive_edges gs =
     (case collect append_group_edges gs of Inl e \<Rightarrow> Inl e
      | Inr parts \<Rightarrow> (let derived = concat parts in
          if derived = [] then Inl kEmptyCollective
          else if length derived > kMaxLogicalEdges then Inl kTooManyItems
          else keep_edges None (sort derived)))"

definition collective_build :: "collective_spec \<Rightarrow> collective result" where
  "collective_build spec =
     (if \<not> is_valid_identifier (cs_id spec) then Inl kInvalidCharacter
      else if cs_groups spec = [] then Inl kEmptyCollective
      else if length (cs_groups spec) > kMaxGroups then Inl kTooManyItems
      else if cs_demand spec > kMaxCapacityMbps then Inl kValueOutOfRange
      else case canonical_groups spec of Inl e \<Rightarrow> Inl e | Inr gs \<Rightarrow>
        (case derive_edges gs of Inl e \<Rightarrow> Inl e | Inr kept \<Rightarrow>
          (let members = edge_participants (map fst kept);
               c = \<lparr>co_id = cs_id spec, co_kind = cs_kind spec, co_demand = cs_demand spec,
                    participants = members, logical_edges = map fst kept,
                    logical_edge_stage = map snd kept, groups = gs, stage_count = count_stages kept\<rparr> in
           if length members > kMaxParticipants then Inl kTooManyItems
           else if \<not> is_ok (collective_validate c) then Inl (collective_validate c)
           else Inr c)))"

section \<open>Canonical encoding\<close>

definition put_logical_edge :: "logical_edge \<times> u32 \<Rightarrow> bytes" where
  "put_logical_edge row = put_string (fst (fst row)) @ put_string (snd (fst row)) @ put_u32 (snd row)"

definition put_group :: "group_spec \<Rightarrow> bytes" where
  "put_group g =
     put_string (gr_id g) @ put_u32 (gr_level g) @ put_u8 (group_pattern_value (gr_pattern g))
     @ put_u8 (tree_direction_value (gr_direction g)) @ put_string (gr_root g)
     @ put_list put_string (gr_members g)"

definition collective_encode_canonical :: "collective \<Rightarrow> bytes" where
  "collective_encode_canonical c =
     put_tagged ''collective.v1'' @ put_string (co_id c) @ put_u8 (collective_kind_value (co_kind c))
     @ put_u64 (co_demand c) @ put_u32 (stage_count c) @ put_list put_string (participants c)
     @ put_list put_logical_edge (zip (logical_edges c) (logical_edge_stage c))
     @ put_list put_group (groups c)"

section \<open>What a pattern implies\<close>

text \<open>The logical edges a group stands for, as a set over its members.\<close>

definition implied_edges :: "group_spec \<Rightarrow> logical_edge set" where
  "implied_edges g =
     (let m = gr_members g; n = length m; r = gr_root g; others = set m - {r} in
      case gr_pattern g of
        gpRing \<Rightarrow> {(m ! i, m ! ((i + 1) mod n)) | i. i < n}
      | gpTree \<Rightarrow> (if gr_direction g = tdReverse then {} else {r} \<times> others) \<union>
                 (if gr_direction g = tdForward then {} else others \<times> {r})
      | gpPairwise \<Rightarrow> (\<Union>k\<in>{k. 2 * k + 1 < n}. {(m ! (2 * k), m ! (2 * k + 1)), (m ! (2 * k + 1), m ! (2 * k))})
      | gpAllToAll \<Rightarrow> {(a, b). a \<in> set m \<and> b \<in> set m \<and> a \<noteq> b})"

definition group_ok :: "group_spec \<Rightarrow> bool" where
  "group_ok g \<longleftrightarrow> distinct (gr_members g) \<and> gr_members g \<noteq> [] \<and> unat (gr_level g) < kMaxHierarchyLevels \<and>
     list_all is_valid_identifier (gr_members g) \<and> is_valid_identifier (gr_id g) \<and>
     (id_valid (gr_root g) \<longrightarrow> is_valid_identifier (gr_root g)) \<and> length (gr_members g) \<le> kMaxGroupMembers"

lemma tree_edges_set:
  "\<Union> ((set \<circ> tree_edges g) ` ms) =
     (if gr_direction g = tdReverse then {} else {gr_root g} \<times> (ms - {gr_root g})) \<union>
     (if gr_direction g = tdForward then {} else (ms - {gr_root g}) \<times> {gr_root g})"
  by (cases "gr_direction g") (auto simp: tree_edges_def split: if_splits)

lemma pair_edges_set:
  "set (pair_edges m) =
     (\<Union>k\<in>{k. 2 * k + 1 < length m}. {(m ! (2 * k), m ! (2 * k + 1)), (m ! (2 * k + 1), m ! (2 * k))})"
proof (induction m rule: pair_edges.induct)
  case (1 a b rest)
  have "{k. 2 * k + 1 < length (a # b # rest)} = insert 0 (Suc ` {k. 2 * k + 1 < length rest})"
  proof (rule set_eqI)
    show "k \<in> {k. 2 * k + 1 < length (a # b # rest)} \<longleftrightarrow>
        k \<in> insert 0 (Suc ` {k. 2 * k + 1 < length rest})" for k
      by (cases k) auto
  qed
  then show ?case by (simp add: 1 insert_commute)
qed auto

lemma append_group_edges_set:
  assumes "append_group_edges g = Inr part"
  shows "set part = implied_edges g \<times> {gr_level g}"
proof -
  have pair: "set (map (\<lambda>e. (e, s)) es) = set es \<times> {s}" for es :: "logical_edge list" and s :: u32
    by auto
  let ?m = "gr_members g"
  show ?thesis
  proof (cases "gr_pattern g")
    case gpRing
    with assms show ?thesis
      by (auto simp: append_group_edges_def implied_edges_def Let_def split: if_splits) blast
  next
    case gpTree
    then have "part = map (\<lambda>e. (e, gr_level g)) (concat (map (tree_edges g) ?m))"
      using assms by (auto simp: append_group_edges_def Let_def split: if_splits)
    moreover have "set (concat (map (tree_edges g) ?m)) = implied_edges g"
      using gpTree tree_edges_set [of g "set ?m"] by (simp add: implied_edges_def Let_def comp_def)
    ultimately show ?thesis by (simp only: pair)
  next
    case gpPairwise
    then have "part = map (\<lambda>e. (e, gr_level g)) (pair_edges ?m)"
      using assms by (auto simp: append_group_edges_def Let_def split: if_splits)
    then show ?thesis using gpPairwise by (simp only: pair pair_edges_set) (simp add: implied_edges_def Let_def)
  next
    case gpAllToAll
    let ?es = "concat (map (\<lambda>src. map (Pair src) (filter (\<lambda>dst. src \<noteq> dst) ?m)) ?m)"
    have "part = map (\<lambda>e. (e, gr_level g)) ?es"
      using gpAllToAll assms by (auto simp: append_group_edges_def Let_def split: if_splits)
    moreover have "set ?es = implied_edges g" using gpAllToAll by (auto simp: implied_edges_def Let_def)
    ultimately show ?thesis by (simp only: pair)
  qed
qed

lemma append_group_edges_total:
  "(\<exists>part. append_group_edges g = Inr part) \<longleftrightarrow>
     (case gr_pattern g of gpRing \<Rightarrow> 2 \<le> length (gr_members g)
      | gpTree \<Rightarrow> 2 \<le> length (gr_members g) \<and> id_valid (gr_root g) \<and> gr_root g \<in> set (gr_members g)
      | gpPairwise \<Rightarrow> even (length (gr_members g))
      | gpAllToAll \<Rightarrow> 2 \<le> length (gr_members g))"
  by (auto simp: append_group_edges_def Let_def not_less even_iff_mod_2_eq_zero split: group_pattern.split)

lemma implied_edges_irrefl:
  assumes "group_ok g" "append_group_edges g = Inr part"
  shows "(a, b) \<in> implied_edges g \<Longrightarrow> a \<noteq> b \<and> a \<in> set (gr_members g) \<and> b \<in> set (gr_members g)"
proof -
  let ?m = "gr_members g" let ?n = "length ?m"
  have d: "distinct ?m" "?m \<noteq> []" using assms(1) by (simp_all add: group_ok_def)
  assume ab: "(a, b) \<in> implied_edges g"
  show ?thesis
  proof (cases "gr_pattern g")
    case gpRing
    then have n: "2 \<le> ?n" using assms(2) append_group_edges_total [of g] by auto
    from ab gpRing obtain i where i: "a = ?m ! i" "b = ?m ! ((i + 1) mod ?n)" "i < ?n"
      by (auto simp: implied_edges_def Let_def)
    have "(i + 1) mod ?n < ?n" "(i + 1) mod ?n \<noteq> i" using n i(3) by (auto simp: mod_Suc)
    with i d show ?thesis by (simp add: nth_eq_iff_index_eq)
  next
    case gpTree
    then show ?thesis using ab assms(2) append_group_edges_total [of g]
      by (auto simp: implied_edges_def Let_def split: if_splits)
  next
    case gpPairwise
    then show ?thesis using ab d by (auto simp: implied_edges_def Let_def nth_eq_iff_index_eq)
  next
    case gpAllToAll
    then show ?thesis using ab by (auto simp: implied_edges_def Let_def)
  qed
qed

lemma implied_edges_cover:
  assumes "group_ok g" "append_group_edges g = Inr part" "x \<in> set (gr_members g)"
  shows "\<exists>y. (x, y) \<in> implied_edges g \<or> (y, x) \<in> implied_edges g"
proof -
  let ?m = "gr_members g" let ?n = "length ?m"
  have d: "distinct ?m" using assms(1) by (simp add: group_ok_def)
  from assms(3) obtain i where i: "i < ?n" "?m ! i = x" by (auto simp: in_set_conv_nth)
  have other: "\<exists>y\<in>set ?m. y \<noteq> z" if "2 \<le> ?n" for z
    using that d nth_eq_iff_index_eq [OF d, of 0 1]
    by (metis One_nat_def Suc_1 Suc_le_lessD less_le_trans nth_mem zero_less_Suc zero_neq_one)
  show ?thesis
  proof (cases "gr_pattern g")
    case gpRing
    with i show ?thesis by (auto simp: implied_edges_def Let_def)
  next
    case gpTree
    with assms(2) append_group_edges_total [of g]
    have t: "2 \<le> ?n" "gr_root g \<in> set ?m" by auto
    then show ?thesis
      using gpTree assms(3) other [OF t(1), of "gr_root g"]
      by (cases "gr_direction g"; cases "x = gr_root g") (auto simp: implied_edges_def Let_def)
  next
    case gpPairwise
    then have "even ?n" using assms(2) append_group_edges_total [of g] by auto
    then have "2 * (i div 2) + 1 < ?n" "i = 2 * (i div 2) \<or> i = 2 * (i div 2) + 1"
      using i(1) by presburger+
    then obtain k where k: "2 * k + 1 < ?n" "i = 2 * k \<or> i = 2 * k + 1" by blast
    have "(?m ! (2 * k), ?m ! (2 * k + 1)) \<in> implied_edges g"
      using gpPairwise k(1) by (auto simp: implied_edges_def Let_def)
    with k(2) i(2) show ?thesis by blast
  next
    case gpAllToAll
    with assms(2) append_group_edges_total [of g] have "2 \<le> ?n" by auto
    from other [OF this, of x] gpAllToAll assms(3) show ?thesis
      by (auto simp: implied_edges_def Let_def)
  qed
qed

section \<open>Derived edges\<close>

lemma keep_edges_correct:
  assumes "sorted xs" "\<forall>r\<in>set xs. fst (fst r) \<noteq> snd (fst r)"
    "\<forall>p\<in>set_option prev. \<forall>r\<in>set xs. p \<le> fst r"
  shows "\<exists>kept. keep_edges prev xs = Inr kept \<and> set kept \<subseteq> set xs \<and>
     fst ` set kept = fst ` set xs - set_option prev \<and> sorted_wrt (<) (map fst kept) \<and>
     (\<forall>r\<in>set kept. \<forall>s. (fst r, s) \<in> set xs \<longrightarrow> snd r \<le> s)"
  using assms
proof (induction xs arbitrary: prev)
  case (Cons x xs)
  obtain e s where x: "x = (e, s)" by fastforce
  have le: "(e, s) \<le> r" "e \<le> fst r" if "r \<in> set xs" for r
    using Cons.prems(1) that x pair_le_fst [of "(e, s)" r] by simp_all
  have "\<exists>kept. keep_edges (Some e) xs = Inr kept \<and> set kept \<subseteq> set xs \<and>
      fst ` set kept = fst ` set xs - {e} \<and> sorted_wrt (<) (map fst kept) \<and>
      (\<forall>r\<in>set kept. \<forall>s. (fst r, s) \<in> set xs \<longrightarrow> snd r \<le> s)"
  proof -
    have "sorted xs" "\<forall>r\<in>set xs. fst (fst r) \<noteq> snd (fst r)"
      "\<forall>p\<in>set_option (Some e). \<forall>r\<in>set xs. p \<le> fst r"
      using Cons.prems(1,2) le(2) by simp_all
    from Cons.IH [OF this] show ?thesis unfolding option.set .
  qed
  then obtain kept where kept: "keep_edges (Some e) xs = Inr kept" "set kept \<subseteq> set xs"
    "fst ` set kept = fst ` set xs - {e}" "sorted_wrt (<) (map fst kept)"
    "\<And>r s. r \<in> set kept \<Longrightarrow> (fst r, s) \<in> set xs \<Longrightarrow> snd r \<le> s" by blast
  have ne: "fst r \<noteq> e" if "r \<in> set kept" for r using that kept(3) by blast
  have run: "keep_edges prev (x # xs) = Inr (if prev = Some e then kept else (e, s) # kept)"
    using Cons.prems(2) kept(1) by (simp add: x)
  have lt: "e < fst r" if "r \<in> set kept" for r
  proof -
    have "e \<le> fst r" using that kept(2) le(2) [of r] by blast
    with ne [OF that] show ?thesis by (simp add: order_le_less)
  qed
  have min_e: "s \<le> s'" if "(e, s') \<in> set xs" for s'
    using le(1) [OF that] by (simp add: pair_le_snd)
  show ?case
  proof (cases "prev = Some e")
    case True
    then show ?thesis
      using run kept(2-5) ne by (intro exI [of _ kept] conjI) (auto simp: x)
  next
    case False
    have "p \<notin> fst ` set xs" if "prev = Some p" for p
    proof
      assume "p \<in> fst ` set xs"
      then have "e \<le> p" using le(2) by auto
      moreover have "p \<le> e" using Cons.prems(3) that x by simp
      ultimately show False using False that by simp
    qed
    then have "set_option prev \<inter> insert e (fst ` set xs) = {}" using False by (cases prev) auto
    then have "fst ` set ((e, s) # kept) = fst ` set (x # xs) - set_option prev"
      using kept(3) by (auto simp: x)
    moreover have "sorted_wrt (<) (map fst ((e, s) # kept))" using kept(4) lt by simp
    moreover have "\<forall>r\<in>set ((e, s) # kept). \<forall>s'. (fst r, s') \<in> set (x # xs) \<longrightarrow> snd r \<le> s'"
      using kept(5) ne min_e by (simp add: x)
    moreover have "set ((e, s) # kept) \<subseteq> set (x # xs)" using kept(2) by (auto simp: x)
    ultimately show ?thesis using run False by auto
  qed
qed simp

section \<open>The canonical collective\<close>

lemma min_element_less:
  assumes "xs \<noteq> []"
  shows "min_element xs < length xs" "xs ! min_element xs = Min (set xs)"
proof -
  have smaller: "list_ex (\<lambda>y. y < x) xs \<longleftrightarrow> x \<noteq> Min (set xs)" if "x \<in> set xs" for x
    using that by (auto simp: list_ex_iff order_less_le Min_le_iff dest: Min_le [OF List.finite_set])
                  (metis List.finite_set Min_in Min_le empty_iff)+
  have "takeWhile (\<lambda>x. list_ex (\<lambda>y. y < x) xs) xs = takeWhile (\<lambda>x. x \<noteq> Min (set xs)) xs"
    by (rule takeWhile_cong) (simp_all add: smaller)
  then have eq: "min_element xs = length (takeWhile (\<lambda>x. x \<noteq> Min (set xs)) xs)"
    by (simp add: min_element_def)
  have "Min (set xs) \<in> set xs" using assms by simp
  then show "min_element xs < length xs"
    unfolding eq by (metis (mono_tags, lifting) length_takeWhile_le order_le_less takeWhile_eq_all_conv
        takeWhile_eq_take take_all_iff)
  then show "xs ! min_element xs = Min (set xs)"
    unfolding eq using nth_length_takeWhile by fastforce
qed

lemma rotate_ring_eq: "rotate_ring_canonical xs = rotate (min_element xs) xs"
proof (cases "xs = []")
  case False
  then show ?thesis
    using min_element_less(1) [of xs] by (simp add: rotate_ring_canonical_def rotate_drop_take Let_def)
qed (simp add: rotate_ring_canonical_def)

text \<open>
  Among the rotations of a cycle without repetitions exactly one starts with the smallest
  member, so the canonical form does not depend on where the declaration starts.
\<close>

lemma rotate_ring_rotate:
  assumes "distinct xs"
  shows "rotate_ring_canonical (rotate k xs) = rotate_ring_canonical xs"
proof (cases "xs = []")
  case False
  have hd_min: "rotate_ring_canonical ys = ys' \<Longrightarrow> ys \<noteq> [] \<Longrightarrow> hd ys' = Min (set ys)" for ys ys'
    using min_element_less [of ys] hd_rotate_conv_nth [of ys "min_element ys"]
    by (simp add: rotate_ring_eq)
  let ?a = "rotate_ring_canonical xs" let ?b = "rotate_ring_canonical (rotate k xs)"
  obtain m where m: "?b = rotate m ?a"
  proof -
    have "xs = rotate (length xs - min_element xs) ?a"
      using min_element_less(1) [OF False] by (simp add: rotate_ring_eq rotate_rotate)
    then have "?b = rotate (min_element (rotate k xs) + (k + (length xs - min_element xs))) ?a"
      by (simp add: rotate_ring_eq [of "rotate k xs"] rotate_rotate [symmetric])
    then show thesis by (rule that)
  qed
  have len: "?a \<noteq> []" "distinct ?a" using False assms by (simp_all add: rotate_ring_eq)
  have "hd ?b = hd ?a"
    using hd_min [OF refl False] hd_min [OF refl, of "rotate k xs"] False by simp
  then have "?a ! (m mod length ?a) = ?a ! 0"
    using m len(1) by (metis hd_rotate_conv_nth hd_conv_nth)
  then have "m mod length ?a = 0"
    using len by (simp add: nth_eq_iff_index_eq)
  then have "rotate m ?a = ?a" by (simp add: rotate_conv_mod [of m])
  with m show ?thesis by simp
qed (simp add: rotate_ring_canonical_def)

lemma canonical_group_ok:
  assumes "canonical_group g = Inr h"
  shows "group_ok h" "set (gr_members h) = set (gr_members g)" "gr_level h = gr_level g"
    "gr_id h = gr_id g" "gr_pattern h = gr_pattern g" "gr_direction h = gr_direction g"
    "gr_root h = gr_root g"
  using assms
  by (auto simp: canonical_group_def group_ok_def adjacent_equal_sort rotate_ring_eq list_all_iff
      split: if_splits)

lemma canonical_groups_ok:
  assumes "canonical_groups spec = Inr gs"
  shows "\<forall>g\<in>set gs. group_ok g" "strictly_increasing (map group_key gs)"
    "\<exists>hs. list_all2 (\<lambda>g h. canonical_group g = Inr h) (cs_groups spec) hs \<and> mset gs = mset hs"
proof -
  from assms obtain hs where hs: "collect canonical_group (cs_groups spec) = Inr hs"
    "gs = sort_key group_key hs" "\<not> adjacent_equal (map gr_id gs)"
    by (auto simp: canonical_groups_def Let_def split: sum.splits if_splits)
  have all2: "list_all2 (\<lambda>g h. canonical_group g = Inr h) (cs_groups spec) hs"
    using hs(1) by (simp add: collect_ok)
  then have "\<forall>h\<in>set hs. group_ok h"
    by (induction rule: list_all2_induct) (simp_all add: canonical_group_ok(1))
  then show "\<forall>g\<in>set gs. group_ok g" using hs(2) by simp
  show "\<exists>hs. list_all2 (\<lambda>g h. canonical_group g = Inr h) (cs_groups spec) hs \<and> mset gs = mset hs"
    using all2 hs(2) by (metis mset_sort)
  have "adjacent_equal (map gr_id xs)" if "adjacent_equal (map group_key xs)" for xs
    using that by (induction xs rule: adjacent_equal.induct) (auto simp: group_key_def)
  then have "\<not> adjacent_equal (map group_key gs)" using hs(3) by blast
  then show "strictly_increasing (map group_key gs)"
    using hs(2) by (intro strictly_increasing_if_no_adjacent) simp_all
qed

text \<open>The rows \<open>derive_edges\<close> returns for canonical groups.\<close>

lemma collect_edges_set:
  assumes "collect append_group_edges gs = Inr parts"
  shows "set (concat parts) = (\<Union>g\<in>set gs. implied_edges g \<times> {gr_level g})"
    "\<forall>g\<in>set gs. \<exists>part. append_group_edges g = Inr part"
proof -
  have all2: "list_all2 (\<lambda>g part. append_group_edges g = Inr part) gs parts"
    using assms by (simp add: collect_ok)
  then show "set (concat parts) = (\<Union>g\<in>set gs. implied_edges g \<times> {gr_level g})"
    by (induction rule: list_all2_induct) (simp_all add: append_group_edges_set)
  from all2 show "\<forall>g\<in>set gs. \<exists>part. append_group_edges g = Inr part"
    by (induction rule: list_all2_induct) auto
qed

lemma derive_edges_ok:
  assumes "\<forall>g\<in>set gs. group_ok g" "collect append_group_edges gs = Inr parts"
  shows "\<exists>kept. keep_edges None (sort (concat parts)) = Inr kept \<and>
     set (map fst kept) = (\<Union>g\<in>set gs. implied_edges g) \<and> strictly_increasing (map fst kept) \<and>
     (\<forall>(e, s)\<in>set kept. fst e \<noteq> snd e \<and> (\<exists>g\<in>set gs. e \<in> implied_edges g \<and> gr_level g = s) \<and>
        (\<forall>g\<in>set gs. e \<in> implied_edges g \<longrightarrow> s \<le> gr_level g))"
proof -
  let ?D = "set (concat parts)"
  note D = collect_edges_set [OF assms(2)]
  have irrefl: "fst e \<noteq> snd e" if "(e, s) \<in> ?D" for e s
  proof -
    from that D(1) obtain g where g: "g \<in> set gs" "e \<in> implied_edges g" by auto
    with D(2) obtain part where "append_group_edges g = Inr part" by blast
    with g assms(1) show ?thesis
      using implied_edges_irrefl [of g part "fst e" "snd e"] by simp
  qed
  obtain kept where kept: "keep_edges None (sort (concat parts)) = Inr kept" "set kept \<subseteq> ?D"
    "fst ` set kept = fst ` ?D" "sorted_wrt (<) (map fst kept)"
    "\<forall>r\<in>set kept. \<forall>s. (fst r, s) \<in> ?D \<longrightarrow> snd r \<le> s"
    using keep_edges_correct [of "sort (concat parts)" None] irrefl by fastforce
  have "fst ` ?D = (\<Union>g\<in>set gs. implied_edges g)"
    unfolding D(1) by force
  moreover have "\<forall>(e, s)\<in>set kept. fst e \<noteq> snd e \<and> (\<exists>g\<in>set gs. e \<in> implied_edges g \<and> gr_level g = s) \<and>
        (\<forall>g\<in>set gs. e \<in> implied_edges g \<longrightarrow> s \<le> gr_level g)"
  proof (intro ballI, clarify)
    fix a b s
    assume r: "((a, b), s) \<in> set kept"
    then have mem: "((a, b), s) \<in> ?D" using kept(2) by blast
    have "\<exists>g\<in>set gs. (a, b) \<in> implied_edges g \<and> gr_level g = s"
      using mem unfolding D(1) by auto
    moreover have "\<forall>g\<in>set gs. (a, b) \<in> implied_edges g \<longrightarrow> s \<le> gr_level g"
      using r kept(5) D(1) by fastforce
    ultimately show "fst (a, b) \<noteq> snd (a, b) \<and> (\<exists>g\<in>set gs. (a, b) \<in> implied_edges g \<and> gr_level g = s) \<and>
        (\<forall>g\<in>set gs. (a, b) \<in> implied_edges g \<longrightarrow> s \<le> gr_level g)"
      using irrefl [OF mem] by simp
  qed
  ultimately show ?thesis
    using kept(1,3,4) by (intro exI [of _ kept]) (simp add: strictly_increasing_iff)
qed

lemma count_stages_bounds:
  assumes "\<forall>(e, s)\<in>set kept. unat s < kMaxHierarchyLevels"
  shows "unat (count_stages kept) \<le> kMaxHierarchyLevels" "1 \<le> unat (count_stages kept)"
    "\<forall>(e, s)\<in>set kept. s < count_stages kept"
proof -
  have step: "unat n \<le> 8 \<Longrightarrow> 1 \<le> unat n \<Longrightarrow> \<forall>(e, s)\<in>set kept. unat s < 8 \<Longrightarrow>
     unat (fold (\<lambda>(e, s) n. max n (s + 1)) kept n) \<le> 8 \<and>
     unat n \<le> unat (fold (\<lambda>(e, s) n. max n (s + 1)) kept n) \<and>
     (\<forall>(e, s)\<in>set kept. s < fold (\<lambda>(e, s) n. max n (s + 1)) kept n)" for n :: u32
  proof (induction kept arbitrary: n)
    case (Cons r kept)
    obtain e s where r: "r = (e, s)" by fastforce
    have s: "unat (s + 1) = unat s + 1" "unat s < 8"
      using Cons.prems(3) by (auto simp: r unat_word_ariths)
    let ?n = "max n (s + 1)"
    have n': "unat ?n \<le> 8" "1 \<le> unat ?n" "unat n \<le> unat ?n" "s < ?n"
      using Cons.prems(1,2) s by (auto simp: max_def word_le_nat_alt word_less_nat_alt)
    have "unat (fold (\<lambda>(e, s) n. max n (s + 1)) kept ?n) \<le> 8 \<and>
     unat ?n \<le> unat (fold (\<lambda>(e, s) n. max n (s + 1)) kept ?n) \<and>
     (\<forall>(e, s)\<in>set kept. s < fold (\<lambda>(e, s) n. max n (s + 1)) kept ?n)"
      using Cons.prems(3) n'(1,2) by (intro Cons.IH) (auto simp: r)
    with n'(3,4) show ?case by (auto simp: r word_less_nat_alt)
  qed simp
  from step [of 1] assms show "unat (count_stages kept) \<le> kMaxHierarchyLevels"
    "1 \<le> unat (count_stages kept)" "\<forall>(e, s)\<in>set kept. s < count_stages kept"
    by (simp_all add: count_stages_def kMaxHierarchyLevels_def)
qed

text \<open>What every successfully built collective satisfies.\<close>

definition collective_wf :: "collective \<Rightarrow> bool" where
  "collective_wf c \<longleftrightarrow> strictly_increasing (logical_edges c) \<and> logical_edges c \<noteq> [] \<and>
     length (logical_edges c) \<le> kMaxLogicalEdges \<and> length (participants c) \<le> kMaxParticipants \<and>
     length (logical_edge_stage c) = length (logical_edges c) \<and>
     (\<forall>e\<in>set (logical_edges c). fst e \<noteq> snd e) \<and>
     participants c = edge_participants (logical_edges c) \<and>
     list_all is_valid_identifier (participants c) \<and>
     (\<forall>g\<in>set (groups c). group_ok g) \<and> length (groups c) \<le> kMaxGroups \<and>
     is_valid_identifier (co_id c) \<and> co_demand c \<le> kMaxCapacityMbps \<and>
     unat (stage_count c) \<le> kMaxHierarchyLevels \<and> (\<forall>s\<in>set (logical_edge_stage c). s < stage_count c)"

lemma collective_wf_validates: "collective_wf c \<Longrightarrow> is_ok (collective_validate c)"
  by (auto simp: collective_wf_def collective_validate_def list_ex_iff edge_participants_def)

lemma set_edge_participants: "set (edge_participants es) = fst ` set es \<union> snd ` set es"
  by (auto simp: edge_participants_def)

lemma derive_edges_build:
  assumes "canonical_groups spec = Inr gs" "derive_edges gs = Inr kept"
  shows "set (map fst kept) = (\<Union>g\<in>set gs. implied_edges g)" "strictly_increasing (map fst kept)"
    "\<forall>(e, s)\<in>set kept. fst e \<noteq> snd e \<and> (\<exists>g\<in>set gs. e \<in> implied_edges g \<and> gr_level g = s) \<and>
        (\<forall>g\<in>set gs. e \<in> implied_edges g \<longrightarrow> s \<le> gr_level g)"
    "\<forall>(e, s)\<in>set kept. unat s < kMaxHierarchyLevels"
    "set (edge_participants (map fst kept)) = (\<Union>g\<in>set gs. set (gr_members g))"
    "kept \<noteq> []" "length kept \<le> kMaxLogicalEdges"
proof -
  note gs = canonical_groups_ok(1) [OF assms(1)]
  from assms(2) obtain parts where parts: "collect append_group_edges gs = Inr parts"
    "concat parts \<noteq> []" "length (concat parts) \<le> kMaxLogicalEdges"
    "keep_edges None (sort (concat parts)) = Inr kept"
    by (auto simp: derive_edges_def Let_def split: sum.splits if_splits)
  note D = collect_edges_set [OF parts(1)]
  from derive_edges_ok [OF gs parts(1)] parts(4)
  show edges: "set (map fst kept) = (\<Union>g\<in>set gs. implied_edges g)"
    and "strictly_increasing (map fst kept)"
    and rows: "\<forall>(e, s)\<in>set kept. fst e \<noteq> snd e \<and> (\<exists>g\<in>set gs. e \<in> implied_edges g \<and> gr_level g = s) \<and>
        (\<forall>g\<in>set gs. e \<in> implied_edges g \<longrightarrow> s \<le> gr_level g)" by auto
  show "\<forall>(e, s)\<in>set kept. unat s < kMaxHierarchyLevels"
    using rows gs by (auto simp: group_ok_def)
  show "set (edge_participants (map fst kept)) = (\<Union>g\<in>set gs. set (gr_members g))"
  proof (rule set_eqI)
    fix x
    have "x \<in> set (edge_participants (map fst kept)) \<longleftrightarrow>
        (\<exists>g\<in>set gs. \<exists>y. (x, y) \<in> implied_edges g \<or> (y, x) \<in> implied_edges g)"
      unfolding set_edge_participants edges by force
    also have "\<dots> \<longleftrightarrow> (\<exists>g\<in>set gs. x \<in> set (gr_members g))"
    proof (rule bex_cong [OF refl])
      fix g assume "g \<in> set gs"
      with D(2) gs obtain part where g: "group_ok g" "append_group_edges g = Inr part" by blast
      then show "(\<exists>y. (x, y) \<in> implied_edges g \<or> (y, x) \<in> implied_edges g) \<longleftrightarrow> x \<in> set (gr_members g)"
        using implied_edges_cover [OF g, of x] implied_edges_irrefl [OF g] by blast
    qed
    finally show "x \<in> set (edge_participants (map fst kept)) \<longleftrightarrow> x \<in> (\<Union>g\<in>set gs. set (gr_members g))"
      by simp
  qed
  have sets: "set kept \<subseteq> set (concat parts)" "fst ` set kept = fst ` set (concat parts)"
  proof -
    have "\<forall>r\<in>set (concat parts). fst (fst r) \<noteq> snd (fst r)"
    proof
      fix r assume "r \<in> set (concat parts)"
      then have "r \<in> (\<Union>g\<in>set gs. implied_edges g \<times> {gr_level g})" using D(1) by blast
      then have "fst r \<in> set (map fst kept)" unfolding edges by auto
      then show "fst (fst r) \<noteq> snd (fst r)" using rows by auto
    qed
    then show "set kept \<subseteq> set (concat parts)" "fst ` set kept = fst ` set (concat parts)"
      using keep_edges_correct [of "sort (concat parts)" None] parts(4) by auto
  qed
  then show "kept \<noteq> []" using parts(2) by (metis image_is_empty set_empty)
  have "length xs \<ge> length ys" if "keep_edges p xs = Inr ys" for p xs ys
    using that by (induction p xs arbitrary: ys rule: keep_edges.induct)
      (fastforce split: sum.splits if_splits)+
  from this [OF parts(4)] parts(3) show "length kept \<le> kMaxLogicalEdges" by simp
qed

text \<open>The collective \<open>build\<close> assembles before its last two checks.\<close>

definition assembled :: "collective_spec \<Rightarrow> group_spec list \<Rightarrow> (logical_edge \<times> u32) list \<Rightarrow> collective" where
  "assembled spec gs kept =
     \<lparr>co_id = cs_id spec, co_kind = cs_kind spec, co_demand = cs_demand spec,
      participants = edge_participants (map fst kept), logical_edges = map fst kept,
      logical_edge_stage = map snd kept, groups = gs, stage_count = count_stages kept\<rparr>"

lemma assembled_wf:
  assumes "canonical_groups spec = Inr gs" "derive_edges gs = Inr kept"
    "length (edge_participants (map fst kept)) \<le> kMaxParticipants"
    "is_valid_identifier (cs_id spec)" "cs_demand spec \<le> kMaxCapacityMbps"
    "length (cs_groups spec) \<le> kMaxGroups"
  shows "collective_wf (assembled spec gs kept)"
proof -
  note d = derive_edges_build [OF assms(1,2)]
  note s = count_stages_bounds [OF d(4)]
  have "length gs = length (cs_groups spec)"
    using canonical_groups_ok(3) [OF assms(1)] by (metis list_all2_lengthD size_mset)
  moreover have "\<forall>e\<in>set (map fst kept). fst e \<noteq> snd e" using d(3) by auto
  moreover have "list_all is_valid_identifier (edge_participants (map fst kept))"
    using canonical_groups_ok(1) [OF assms(1)] by (auto simp: list_all_iff d(5) group_ok_def)
  ultimately show ?thesis
    using assms canonical_groups_ok(1) [OF assms(1)] d(2,6,7) s
    by (auto simp: collective_wf_def assembled_def)
qed

lemma collective_build_unfold:
  "collective_build spec =
     (if \<not> is_valid_identifier (cs_id spec) then Inl kInvalidCharacter
      else if cs_groups spec = [] then Inl kEmptyCollective
      else if length (cs_groups spec) > kMaxGroups then Inl kTooManyItems
      else if cs_demand spec > kMaxCapacityMbps then Inl kValueOutOfRange
      else case canonical_groups spec of Inl e \<Rightarrow> Inl e | Inr gs \<Rightarrow>
        (case derive_edges gs of Inl e \<Rightarrow> Inl e | Inr kept \<Rightarrow>
           if length (edge_participants (map fst kept)) > kMaxParticipants then Inl kTooManyItems
           else Inr (assembled spec gs kept)))"
proof -
  have "is_ok (collective_validate (assembled spec gs kept))"
    if "canonical_groups spec = Inr gs" "derive_edges gs = Inr kept"
      "\<not> length (edge_participants (map fst kept)) > kMaxParticipants" "is_valid_identifier (cs_id spec)"
      "\<not> cs_demand spec > kMaxCapacityMbps" "\<not> length (cs_groups spec) > kMaxGroups" for gs kept
    using that by (intro collective_wf_validates assembled_wf) simp_all
  then show ?thesis
    by (simp add: collective_build_def assembled_def [symmetric] Let_def split: sum.split)
qed

lemma collective_build_iff:
  "collective_build spec = Inr c \<longleftrightarrow> is_valid_identifier (cs_id spec) \<and> cs_groups spec \<noteq> [] \<and>
     length (cs_groups spec) \<le> kMaxGroups \<and> cs_demand spec \<le> kMaxCapacityMbps \<and>
     (\<exists>gs kept. canonical_groups spec = Inr gs \<and> derive_edges gs = Inr kept \<and>
        length (edge_participants (map fst kept)) \<le> kMaxParticipants \<and> c = assembled spec gs kept)"
  by (auto simp: collective_build_unfold split: sum.splits)

lemma collective_build_wf: "collective_build spec = Inr c \<Longrightarrow> collective_wf c"
  by (auto simp: collective_build_iff assembled_wf)

section \<open>Order of declaration\<close>

text \<open>
  The declarations of a group that stand for the same group: a rotation of a ring, any
  permutation otherwise.
\<close>

definition same_group :: "group_spec \<Rightarrow> group_spec \<Rightarrow> bool" where
  "same_group g h \<longleftrightarrow> (\<exists>ms. h = g\<lparr>gr_members := ms\<rparr> \<and>
     (if gr_pattern g = gpRing then \<exists>k. ms = rotate k (gr_members g)
      else mset ms = mset (gr_members g)))"

lemma sort_mset_eq: "mset xs = mset ys \<Longrightarrow> sort xs = sort ys"
  by (simp add: properties_for_sort)

lemma canonical_group_same:
  assumes "same_group g h"
  shows "canonical_group h = canonical_group g"
proof -
  obtain ms where h: "h = g\<lparr>gr_members := ms\<rparr>" and ms: "mset ms = mset (gr_members g)"
    and ring: "gr_pattern g = gpRing \<Longrightarrow> \<exists>k. ms = rotate k (gr_members g)"
    using assms by (auto simp: same_group_def split: if_splits)
      (metis mset_append append_take_drop_id rotate_drop_take union_commute)
  have same: "set ms = set (gr_members g)" "length ms = length (gr_members g)"
    "ms = [] \<longleftrightarrow> gr_members g = []" "sort ms = sort (gr_members g)"
    using ms by (auto dest: mset_eq_setD mset_eq_length intro: sort_mset_eq)
  have "rotate_ring_canonical ms = rotate_ring_canonical (gr_members g)"
    if "gr_pattern g = gpRing" "\<not> adjacent_equal (sort (gr_members g))"
    using ring [OF that(1)] that(2) rotate_ring_rotate by (auto simp: adjacent_equal_sort)
  with same show ?thesis by (simp add: canonical_group_def h list_all_iff)
qed

lemma canonical_groups_perm:
  assumes "canonical_groups spec = Inr gs" "list_all2 same_group (cs_groups spec) ds"
    "mset ds' = mset ds"
  shows "canonical_groups (spec\<lparr>cs_groups := ds'\<rparr>) = Inr gs"
proof -
  obtain hs where hs: "collect canonical_group (cs_groups spec) = Inr hs"
    "gs = sort_key group_key hs" "\<not> adjacent_equal (map gr_id gs)"
    using assms(1) by (auto simp: canonical_groups_def Let_def split: sum.splits if_splits)
  have "list_all2 (\<lambda>g h. canonical_group g = Inr h) ds hs"
    using list_all2_trans [where ?P1.0 = "\<lambda>d g. same_group g d" and
        ?P2.0 = "\<lambda>g h. canonical_group g = Inr h" and ?P3.0 = "\<lambda>d h. canonical_group d = Inr h"]
      canonical_group_same assms(2) hs(1) by (auto simp: collect_ok list_all2_conv_all_nth)
  then obtain hs' where hs': "list_all2 (\<lambda>g h. canonical_group g = Inr h) ds' hs'" "mset hs' = mset hs"
    using list_all2_reorder_left_invariance assms(3) by (metis)
  have "distinct (map group_key hs)"
    using canonical_groups_ok(2) [OF assms(1)] hs(2) by (simp add: sort_key_distinct_strict)
  then have "sort_key group_key hs' = gs"
    using hs'(2) hs(2) by (metis sort_key_perm_eq)
  then show ?thesis
    using hs'(1) hs(3) by (simp add: canonical_groups_def collect_okI)
qed

section \<open>A small collective\<close>

text \<open>A ring entered in the middle and a tree one level up, declared out of order.\<close>

definition plain_group :: "group_id \<Rightarrow> u32 \<Rightarrow> group_pattern \<Rightarrow> participant_id \<Rightarrow> participant_id list \<Rightarrow> group_spec" where
  "plain_group k level pattern root members =
     \<lparr>gr_id = k, gr_level = level, gr_pattern = pattern, gr_direction = tdForward, gr_root = root,
      gr_members = members\<rparr>"

definition ring_spec :: collective_spec where
  "ring_spec =
     \<lparr>cs_id = ''job'', cs_kind = ckHierarchical, cs_demand = 10,
      cs_groups = [plain_group ''up'' 1 gpTree ''p1'' [''p3'', ''p1''],
                   plain_group ''ring'' 0 gpRing [] [''p2'', ''p3'', ''p1'']]\<rparr>"

definition ring_collective :: collective where
  "ring_collective = projr (collective_build ring_spec)"

lemma ring_collective_built: "collective_build ring_spec = Inr ring_collective"
proof -
  have "\<not> isl (collective_build ring_spec)" by code_simp
  then show ?thesis by (simp add: ring_collective_def)
qed

text \<open>Its value, for the evaluation of examples.\<close>

lemma ring_collective_eq [code]:
  "ring_collective =
   \<lparr>co_id = ''job'', co_kind = ckHierarchical, co_demand = 10,
       participants = [''p1'', ''p2'', ''p3''],
       logical_edges =
         [(''p1'', ''p2''), (''p1'', ''p3''), (''p2'', ''p3''),
          (''p3'', ''p1'')],
       logical_edge_stage = [0, 1, 0, 0],
       groups =
         [\<lparr>gr_id = ''ring'', gr_level = 0, gr_pattern = gpRing,
             gr_direction = tdForward, gr_root = [],
             gr_members = [''p1'', ''p2'', ''p3'']\<rparr>,
          \<lparr>gr_id = ''up'', gr_level = 1, gr_pattern = gpTree,
             gr_direction = tdForward, gr_root = ''p1'',
             gr_members = [''p1'', ''p3'']\<rparr>],
       stage_count = 2\<rparr>"
  by code_simp


section \<open>Properties\<close>

text \<open>
  C23: a built collective carries exactly the logical edges its groups imply: strictly ordered,
  without repetition and without self loop, each attributed to the lowest level of a group that
  implies it, and its participants are exactly the members of its groups.
\<close>

theorem collective_edges_exact:
  assumes "collective_build spec = Inr c"
  shows "set (logical_edges c) = (\<Union>g\<in>set (groups c). implied_edges g) \<and>
    strictly_increasing (logical_edges c) \<and> (\<forall>(a, b)\<in>set (logical_edges c). a \<noteq> b) \<and>
    set (participants c) = (\<Union>g\<in>set (groups c). set (gr_members g)) \<and>
    strictly_increasing (participants c) \<and>
    (\<forall>i<length (logical_edges c). logical_edge_stage c ! i =
        Min (gr_level ` {g\<in>set (groups c). logical_edges c ! i \<in> implied_edges g}))"
proof -
  from assms obtain gs kept where c: "canonical_groups spec = Inr gs" "derive_edges gs = Inr kept"
    "c = assembled spec gs kept" by (auto simp: collective_build_iff)
  note d = derive_edges_build [OF c(1,2)]
  have "map snd kept ! i = Min (gr_level ` {g\<in>set gs. map fst kept ! i \<in> implied_edges g})"
    if "i < length kept" for i
  proof -
    obtain e s where es: "kept ! i = (e, s)" by fastforce
    then have "(e, s) \<in> set kept" using that nth_mem by fastforce
    with d(3) have "(\<exists>g\<in>set gs. e \<in> implied_edges g \<and> gr_level g = s)"
      "(\<forall>g\<in>set gs. e \<in> implied_edges g \<longrightarrow> s \<le> gr_level g)" by auto
    then have "Min (gr_level ` {g\<in>set gs. e \<in> implied_edges g}) = s" by (intro Min_eqI) auto
    with es that show ?thesis by simp
  qed
  moreover have "\<forall>(a, b)\<in>set (map fst kept). a \<noteq> b" using d(3) by fastforce
  moreover have "strictly_increasing (edge_participants (map fst kept))"
    by (simp add: edge_participants_def)
  ultimately show ?thesis
    using d(2) by (simp add: c(3) assembled_def d(5) d(1) [simplified])
qed

theorem collective_edges_exact_witness:
  "logical_edges ring_collective = [(''p1'', ''p2''), (''p1'', ''p3''), (''p2'', ''p3''), (''p3'', ''p1'')] \<and>
   logical_edge_stage ring_collective ! 1 =
     Min (gr_level ` {g\<in>set (groups ring_collective). logical_edges ring_collective ! 1 \<in> implied_edges g})"
proof -
  have "logical_edges ring_collective = [(''p1'', ''p2''), (''p1'', ''p3''), (''p2'', ''p3''), (''p3'', ''p1'')]"
    by code_simp
  then show ?thesis using collective_edges_exact [OF ring_collective_built] by simp
qed

text \<open>
  C35: a built collective depends neither on the order of its groups nor on where a ring is
  entered nor on the member order of any other group: every such redeclaration of an accepted
  description is accepted and gives the same collective.
\<close>

theorem collective_build_order_independent:
  assumes "collective_build spec = Inr c" "list_all2 same_group (cs_groups spec) ds"
    "mset ds' = mset ds"
  shows "collective_build (spec\<lparr>cs_groups := ds'\<rparr>) = Inr c"
proof -
  from assms(1) obtain gs kept where c: "canonical_groups spec = Inr gs" "derive_edges gs = Inr kept"
    "c = assembled spec gs kept" "length (edge_participants (map fst kept)) \<le> kMaxParticipants"
    "is_valid_identifier (cs_id spec)" "cs_groups spec \<noteq> []"
    "length (cs_groups spec) \<le> kMaxGroups" "cs_demand spec \<le> kMaxCapacityMbps"
    by (auto simp: collective_build_iff)
  have "length ds' = length (cs_groups spec)"
    using assms(2,3) by (metis list_all2_lengthD mset_eq_length)
  with c canonical_groups_perm [OF c(1) assms(2,3)] show ?thesis
    by (auto simp: collective_build_iff assembled_def)
qed

theorem collective_build_order_independent_witness:
  "collective_build (ring_spec\<lparr>cs_groups :=
      [plain_group ''ring'' 0 gpRing [] [''p3'', ''p1'', ''p2''],
       plain_group ''up'' 1 gpTree ''p1'' [''p1'', ''p3'']]\<rparr>) = Inr ring_collective"
proof (rule collective_build_order_independent [OF ring_collective_built])
  show "list_all2 same_group (cs_groups ring_spec)
      [plain_group ''up'' 1 gpTree ''p1'' [''p1'', ''p3''],
       plain_group ''ring'' 0 gpRing [] (rotate 1 [''p2'', ''p3'', ''p1''])]"
    by (auto simp: ring_spec_def plain_group_def same_group_def intro: exI [of _ 1])
qed (simp add: plain_group_def)

text \<open>
  C36: the last line of defence of \<open>build\<close> never fires: whatever the description, it reports
  neither a self loop nor an internal error, because canonical groups cannot imply a self loop
  and the assembled collective always passes its own validation.
\<close>

theorem collective_self_checks_unreachable:
  "collective_build spec \<noteq> Inl kSelfLoopLogicalEdge \<and> collective_build spec \<noteq> Inl kInternalError"
proof -
  have g: "canonical_group g \<noteq> Inl kSelfLoopLogicalEdge \<and> canonical_group g \<noteq> Inl kInternalError" for g
    by (simp add: canonical_group_def)
  have a: "append_group_edges g \<noteq> Inl kSelfLoopLogicalEdge \<and> append_group_edges g \<noteq> Inl kInternalError" for g
    by (simp add: append_group_edges_def Let_def split: group_pattern.split)
  have gs: "canonical_groups spec \<noteq> Inl kSelfLoopLogicalEdge \<and> canonical_groups spec \<noteq> Inl kInternalError"
    using g by (auto simp: canonical_groups_def Let_def dest!: collect_error split: sum.splits)
  have "derive_edges hs \<noteq> Inl kSelfLoopLogicalEdge \<and> derive_edges hs \<noteq> Inl kInternalError"
    if "canonical_groups spec = Inr hs" for hs
    using a derive_edges_ok [OF canonical_groups_ok(1) [OF that]]
    by (auto simp: derive_edges_def Let_def dest!: collect_error split: sum.splits)
  with gs show ?thesis by (auto simp: collective_build_unfold split: sum.splits)
qed


end
