(* ===== verification/Request.thy ===== *)
theory Request
  imports Collective
begin

text \<open>
  The planning request (\<open>include/cpath/request.hpp\<close>, \<open>src/request.cpp\<close>): endpoint
  bindings, the validated request assembled from a collective, a fabric, a policy and the
  bindings, its canonical encoding and its digest.
\<close>

section \<open>Data\<close>

record endpoint_binding =
  b_participant :: participant_id
  b_node :: node_id
  allowed_failure_domains :: "domain_id list"
  allowed_tiers :: "tier_id list"

record generation_bindings =
  gb_topology :: generation
  gb_failure_domains :: generation
  gb_capacity_evidence :: generation
  gb_policy :: generation
  gb_plan :: generation

record request_spec =
  rs_collective :: collective_spec
  rs_fabric :: fabric_spec
  rs_policy :: policy
  rs_plan_generation :: generation
  rs_bindings :: "endpoint_binding list"

record planning_request =
  r_collective :: collective
  r_fabric :: fabric
  r_policy :: policy
  r_plan_generation :: generation
  r_bindings :: "endpoint_binding list"
  canonical_digest :: digest
  canonical_bytes :: nat

section \<open>Operations\<close>

definition current_bindings :: "planning_request \<Rightarrow> generation_bindings" where
  "current_bindings r =
     \<lparr>gb_topology = topology_generation (r_fabric r),
      gb_failure_domains = failure_domain_generation (r_fabric r),
      gb_capacity_evidence = capacity_evidence_generation (r_fabric r),
      gb_policy = po_generation (r_policy r), gb_plan = r_plan_generation r\<rparr>"

definition find_binding :: "planning_request \<Rightarrow> participant_id \<Rightarrow> endpoint_binding option" where
  "find_binding r p =
     (let found = lower_bound (\<lambda>b k. b_participant b < k) (r_bindings r) p in
      if found = length (r_bindings r) \<or> \<not> (b_participant (r_bindings r ! found) = p) then None
      else Some (r_bindings r ! found))"

definition put_binding :: "endpoint_binding \<Rightarrow> bytes" where
  "put_binding b =
     put_string (b_participant b) @ put_string (b_node b)
     @ put_list put_string (allowed_failure_domains b) @ put_list put_string (allowed_tiers b)"

definition request_encode_canonical :: "planning_request \<Rightarrow> bytes" where
  "request_encode_canonical r =
     put_tagged ''cpath.request.v1'' @ put_u16 kCanonicalFormatVersion
     @ collective_encode_canonical (r_collective r) @ fabric_encode_canonical (r_fabric r)
     @ policy_encode_canonical (r_policy r) @ put_list put_binding (r_bindings r)"

text \<open>The references of one binding, in the order both \<open>validate\<close> and \<open>build_request\<close> check them.\<close>

definition check_binding_domain :: "fabric \<Rightarrow> domain_id \<Rightarrow> error_code" where
  "check_binding_domain g d = (if find_failure_domain g d = None then kUnknownReference else kOk)"

definition check_binding_references :: "planning_request \<Rightarrow> endpoint_binding \<Rightarrow> error_code" where
  "check_binding_references r b =
     (if b_participant b \<notin> set (participants (r_collective r)) then kUnknownReference
      else if find_node (r_fabric r) (b_node b) = None then kUnknownEndpointNode
      else and_then (first_error (check_binding_domain (r_fabric r)) (allowed_failure_domains b))
                    (first_error check_tier (allowed_tiers b)))"

definition check_binding :: "planning_request \<Rightarrow> endpoint_binding \<Rightarrow> error_code" where
  "check_binding r b =
     (if \<not> is_valid_identifier (b_participant b) then kInvalidCharacter
      else if \<not> is_valid_identifier (b_node b) then kInvalidCharacter
      else check_binding_references r b)"

definition request_validate :: "planning_request \<Rightarrow> error_code" where
  "request_validate r =
     and_then (collective_validate (r_collective r))
    (and_then (fabric_validate (r_fabric r))
    (and_then (policy_validate (r_policy r))
     (if \<not> generation_valid (r_plan_generation r) then kMissingRequiredField
      else if length (r_bindings r) > kMaxBindings then kTooManyItems
      else if \<not> strictly_increasing (map b_participant (r_bindings r)) then kInconsistentMetadata
      else and_then (first_error (check_binding r) (r_bindings r))
        (if sha256_hash (request_encode_canonical r) \<noteq> canonical_digest r then kDigestMismatch
         else kOk))))"

text \<open>One iteration of the binding loop of \<open>build_request\<close>: checks and canonical sets.\<close>

definition canonical_binding :: "endpoint_binding \<Rightarrow> endpoint_binding result" where
  "canonical_binding b =
     (if \<not> is_valid_identifier (b_participant b) then Inl kInvalidCharacter
      else if \<not> is_valid_identifier (b_node b) then Inl kInvalidCharacter
      else if length (allowed_failure_domains b) > kMaxPolicySetEntries
              \<or> length (allowed_tiers b) > kMaxPolicySetEntries then Inl kTooManyItems
      else Inr (b\<lparr>allowed_failure_domains := sort_unique (allowed_failure_domains b),
                  allowed_tiers := sort_unique (allowed_tiers b)\<rparr>))"

definition canonical_bindings :: "endpoint_binding list \<Rightarrow> endpoint_binding list result" where
  "canonical_bindings bs =
     (if length bs > kMaxBindings then Inl kTooManyItems
      else case collect canonical_binding bs of Inl e \<Rightarrow> Inl e
      | Inr cs \<Rightarrow> (let sorted_bindings = sort_key b_participant cs in
          if adjacent_equal (map b_participant sorted_bindings) then Inl kDuplicateBinding
          else Inr sorted_bindings))"

definition build_request :: "request_spec \<Rightarrow> planning_request result" where
  "build_request spec =
     (case collective_build (rs_collective spec) of Inl e \<Rightarrow> Inl e | Inr c \<Rightarrow>
     (case fabric_build (rs_fabric spec) of Inl e \<Rightarrow> Inl e | Inr g \<Rightarrow>
     (let p = policy_canonicalize (rs_policy spec) in
      if \<not> is_ok (policy_validate p) then Inl (policy_validate p)
      else if \<not> generation_valid (rs_plan_generation spec) then Inl kMissingRequiredField
      else case canonical_bindings (rs_bindings spec) of Inl e \<Rightarrow> Inl e | Inr bs \<Rightarrow>
       (let r0 = \<lparr>r_collective = c, r_fabric = g, r_policy = p,
                  r_plan_generation = rs_plan_generation spec, r_bindings = bs,
                  canonical_digest = replicate kDigestBytes 0, canonical_bytes = 0\<rparr>;
            status = first_error (check_binding_references r0) bs in
        if \<not> is_ok status then Inl status
        else let encoded = request_encode_canonical r0;
                 r = r0\<lparr>canonical_bytes := length encoded, canonical_digest := sha256_hash encoded\<rparr> in
          if \<not> is_ok (request_validate r) then Inl (request_validate r) else Inr r))))"

section \<open>Lookup\<close>

lemma find_binding_iff:
  assumes "strictly_increasing (map b_participant (r_bindings r))"
  shows "find_binding r p = Some b \<longleftrightarrow> b \<in> set (r_bindings r) \<and> b_participant b = p"
proof -
  have "(let i = lower_bound (\<lambda>b k. b_participant b < k) xs p in
      if i = length xs \<or> \<not> (b_participant (xs ! i) = p) then None else Some (xs ! i)) = Some b \<longleftrightarrow>
      b \<in> set xs \<and> b_participant b = p" if "sorted_wrt (<) (map b_participant xs)" for xs
    using that by (induction xs) (auto simp: lower_bound_def Let_def)
  then show ?thesis using assms by (simp add: find_binding_def strictly_increasing_iff)
qed

section \<open>Build succeeds exactly when its parts do\<close>

text \<open>The request \<open>build_request\<close> assembles.\<close>

definition assembled_request ::
  "generation \<Rightarrow> collective \<Rightarrow> fabric \<Rightarrow> policy \<Rightarrow> endpoint_binding list \<Rightarrow> planning_request" where
  "assembled_request pg c g p bs =
     (let r0 = \<lparr>r_collective = c, r_fabric = g, r_policy = p, r_plan_generation = pg, r_bindings = bs,
                canonical_digest = replicate kDigestBytes 0, canonical_bytes = 0\<rparr>;
          encoded = request_encode_canonical r0 in
      r0\<lparr>canonical_bytes := length encoded, canonical_digest := sha256_hash encoded\<rparr>)"

definition binding_references_ok :: "collective \<Rightarrow> fabric \<Rightarrow> endpoint_binding \<Rightarrow> bool" where
  "binding_references_ok c g b \<longleftrightarrow> b_participant b \<in> set (participants c) \<and>
     b_node b \<in> n_id ` set (nodes g) \<and> set (allowed_failure_domains b) \<subseteq> fd_id ` set (failure_domains g) \<and>
     list_all is_valid_tier_name (allowed_tiers b)"

definition binding_ok :: "endpoint_binding \<Rightarrow> bool" where
  "binding_ok b \<longleftrightarrow> is_valid_identifier (b_participant b) \<and> is_valid_identifier (b_node b) \<and>
     length (allowed_failure_domains b) \<le> kMaxPolicySetEntries \<and>
     length (allowed_tiers b) \<le> kMaxPolicySetEntries \<and>
     strictly_increasing (allowed_failure_domains b) \<and> strictly_increasing (allowed_tiers b)"

lemma request_encode_cong:
  "request_encode_canonical (r\<lparr>canonical_digest := d, canonical_bytes := n\<rparr>) = request_encode_canonical r"
  "request_encode_canonical (r\<lparr>r_plan_generation := k\<rparr>) = request_encode_canonical r"
  by (simp_all add: request_encode_canonical_def)

lemma assembled_request_simps [simp]:
  "r_collective (assembled_request pg c g p bs) = c"
  "r_fabric (assembled_request pg c g p bs) = g"
  "r_policy (assembled_request pg c g p bs) = p"
  "r_plan_generation (assembled_request pg c g p bs) = pg"
  "r_bindings (assembled_request pg c g p bs) = bs"
  "canonical_digest (assembled_request pg c g p bs) =
     sha256_hash (request_encode_canonical (assembled_request pg c g p bs))"
  "canonical_bytes (assembled_request pg c g p bs) =
     length (request_encode_canonical (assembled_request pg c g p bs))"
  by (simp_all add: assembled_request_def request_encode_canonical_def Let_def)

lemma check_references_iff:
  assumes "fabric_wf (r_fabric r)"
  shows "is_ok (check_binding_references r b) \<longleftrightarrow> binding_references_ok (r_collective r) (r_fabric r) b"
  by (auto simp: check_binding_references_def binding_references_ok_def first_error_ok check_tier_def
      check_binding_domain_def list_all_iff find_defs node_rows.lookup_none [OF fabric_wfD(3) [OF assms]]
      domain_rows.lookup_none [OF fabric_wfD(1) [OF assms]])

lemma canonical_bindings_ok:
  assumes "canonical_bindings bs = Inr cs"
  shows "strictly_increasing (map b_participant cs)" "length cs \<le> kMaxBindings" "\<forall>b\<in>set cs. binding_ok b"
proof -
  from assms obtain ds where ds: "list_all2 (\<lambda>b d. canonical_binding b = Inr d) bs ds"
    "length bs \<le> kMaxBindings" "cs = sort_key b_participant ds"
    "\<not> adjacent_equal (map b_participant cs)"
    by (auto simp: canonical_bindings_def collect_ok Let_def not_less split: sum.splits if_splits)
  from ds(1) have "\<forall>b\<in>set ds. binding_ok b"
    by (induction rule: list_all2_induct)
       (auto simp: canonical_binding_def binding_ok_def not_less split: if_splits
         intro: order_trans [OF length_sort_unique_le])
  with ds show "\<forall>b\<in>set cs. binding_ok b" by simp
  show "length cs \<le> kMaxBindings" using ds(1-3) by (metis length_sort list_all2_lengthD)
  show "strictly_increasing (map b_participant cs)"
    using ds(3,4) by (intro strictly_increasing_if_no_adjacent) simp_all
qed

lemma build_request_unfold:
  "build_request spec =
     (case collective_build (rs_collective spec) of Inl e \<Rightarrow> Inl e | Inr c \<Rightarrow>
     (case fabric_build (rs_fabric spec) of Inl e \<Rightarrow> Inl e | Inr g \<Rightarrow>
     (let p = policy_canonicalize (rs_policy spec) in
      if \<not> is_ok (policy_validate p) then Inl (policy_validate p)
      else if \<not> generation_valid (rs_plan_generation spec) then Inl kMissingRequiredField
      else case canonical_bindings (rs_bindings spec) of Inl e \<Rightarrow> Inl e | Inr bs \<Rightarrow>
       (let r = assembled_request (rs_plan_generation spec) c g p bs;
            status = first_error (check_binding_references r) bs in
        if \<not> is_ok status then Inl status else Inr r))))"
proof -
  have refs: "check_binding_references r = check_binding_references r'"
    if "r_collective r = r_collective r'" "r_fabric r = r_fabric r'" for r r'
    using that by (simp add: check_binding_references_def fun_eq_iff)
  have valid: "is_ok (request_validate (assembled_request (rs_plan_generation spec) c g p bs))"
    if "collective_build (rs_collective spec) = Inr c" "fabric_build (rs_fabric spec) = Inr g"
      "is_ok (policy_validate p)" "generation_valid (rs_plan_generation spec)"
      "canonical_bindings (rs_bindings spec) = Inr bs"
      "is_ok (first_error (check_binding_references (assembled_request (rs_plan_generation spec) c g p bs)) bs)"
    for c g p bs
    using that canonical_bindings_ok [OF that(5)]
    by (auto simp: request_validate_def collective_wf_validates collective_build_wf fabric_build_wf
        fabric_wf_validates first_error_ok check_binding_def binding_ok_def)
  have same: "check_binding_references
      \<lparr>r_collective = c, r_fabric = g, r_policy = p, r_plan_generation = pg, r_bindings = bs,
       canonical_digest = d, canonical_bytes = n\<rparr> = check_binding_references (assembled_request pg c g p bs)"
    for c g p pg bs d n by (rule refs) simp_all
  have asm: "\<lparr>r_collective = c, r_fabric = g, r_policy = p, r_plan_generation = pg, r_bindings = bs,
      canonical_digest = sha256_hash (request_encode_canonical
        \<lparr>r_collective = c, r_fabric = g, r_policy = p, r_plan_generation = pg, r_bindings = bs,
         canonical_digest = replicate kDigestBytes 0, canonical_bytes = 0\<rparr>),
      canonical_bytes = length (request_encode_canonical
        \<lparr>r_collective = c, r_fabric = g, r_policy = p, r_plan_generation = pg, r_bindings = bs,
         canonical_digest = replicate kDigestBytes 0, canonical_bytes = 0\<rparr>)\<rparr> =
      assembled_request pg c g p bs" for c g p pg bs
    by (simp add: assembled_request_def Let_def)
  show ?thesis
  proof (cases "collective_build (rs_collective spec)")
    case c: (Inr c)
    show ?thesis
    proof (cases "fabric_build (rs_fabric spec)")
      case g: (Inr g)
      show ?thesis
      proof (cases "canonical_bindings (rs_bindings spec)")
        case b: (Inr bs)
        show ?thesis
          by (simp only: build_request_def c g b sum.case Let_def same planning_request.simps asm)
             (use valid [OF c g _ _ b] in \<open>auto simp del: assembled_request_simps\<close>)
      qed (simp add: build_request_def c g Let_def)
    qed (simp add: build_request_def c)
  qed (simp add: build_request_def)
qed

lemma build_request_iff:
  "build_request spec = Inr r \<longleftrightarrow>
     (\<exists>c g bs. collective_build (rs_collective spec) = Inr c \<and> fabric_build (rs_fabric spec) = Inr g \<and>
        is_ok (policy_validate (policy_canonicalize (rs_policy spec))) \<and>
        generation_valid (rs_plan_generation spec) \<and> canonical_bindings (rs_bindings spec) = Inr bs \<and>
        (\<forall>b\<in>set bs. binding_references_ok c g b) \<and>
        r = assembled_request (rs_plan_generation spec) c g (policy_canonicalize (rs_policy spec)) bs)"
  (is "?l \<longleftrightarrow> ?r")
proof -
  have "is_ok (first_error (check_binding_references (assembled_request pg c g p bs)) bs) \<longleftrightarrow>
      (\<forall>b\<in>set bs. binding_references_ok c g b)" if "fabric_build (rs_fabric spec) = Inr g" for pg c g p bs
    using fabric_build_wf [OF that] by (simp add: first_error_ok check_references_iff)
  then show ?thesis
    by (auto simp: build_request_unfold Let_def simp del: assembled_request_simps split: sum.splits)
qed

text \<open>What every built request satisfies.\<close>

definition request_wf :: "planning_request \<Rightarrow> bool" where
  "request_wf r \<longleftrightarrow> collective_wf (r_collective r) \<and> fabric_wf (r_fabric r) \<and>
     is_ok (policy_validate (r_policy r)) \<and> generation_valid (r_plan_generation r) \<and>
     strictly_increasing (map b_participant (r_bindings r)) \<and> length (r_bindings r) \<le> kMaxBindings \<and>
     (\<forall>b\<in>set (r_bindings r). binding_ok b \<and> binding_references_ok (r_collective r) (r_fabric r) b) \<and>
     canonical_digest r = sha256_hash (request_encode_canonical r) \<and>
     canonical_bytes r = length (request_encode_canonical r)"

lemma build_request_wf: "build_request spec = Inr r \<Longrightarrow> request_wf r"
  by (auto simp: build_request_iff request_wf_def collective_build_wf fabric_build_wf
      dest: canonical_bindings_ok)

end
