(* ===== verification/Canonical.thy ===== *)
theory Canonical
  imports Request
begin

text \<open>
  The canonical encoding identifies its input. Every record of a request is a prefix code (the
  locale \<open>prefix_code\<close> of the byte layer, interpreted on each \<open>put\<close> function), so a
  request is determined by its canonical bytes up to the plan generation, which the encoding
  leaves out on purpose.
\<close>

definition short_string :: "string \<Rightarrow> bool" where
  "short_string s \<longleftrightarrow> length s < 2 ^ 32"

interpretation text_code: prefix_code put_string short_string
  using any_string.prefix_code_axioms by (simp add: short_string_def [abs_def])

interpretation text_list_code: prefix_code "put_list put_string"
    "\<lambda>xs. length xs < 2 ^ 32 \<and> list_all short_string xs"
  by (rule list_prefix_code [OF text_code.prefix_code_axioms])

lemma fixed_width_iff [codec_simps]:
  "put_u8 a @ r = put_u8 b @ s \<longleftrightarrow> a = b \<and> r = s"
  "put_u16 c @ r = put_u16 d @ s \<longleftrightarrow> c = d \<and> r = s"
  "put_u32 e @ r = put_u32 f @ s \<longleftrightarrow> e = f \<and> r = s"
  "put_u64 g @ r = put_u64 h @ s \<longleftrightarrow> g = h \<and> r = s"
  "put_boolean i @ r = put_boolean j @ s \<longleftrightarrow> i = j \<and> r = s"
  by (rule u8.enc_append_iff [OF TrueI TrueI] u16.enc_append_iff [OF TrueI TrueI]
      u32.enc_append_iff [OF TrueI TrueI] u64.enc_append_iff [OF TrueI TrueI]
      boolean.enc_append_iff [OF TrueI TrueI])+

lemmas [codec_simps] = text_code.enc_append_iff text_list_code.enc_append_iff

lemma short_identifier: "is_valid_identifier s \<Longrightarrow> short_string s"
  using is_valid_identifier_length [of s] by (simp add: short_string_def kMaxIdentifierBytes_def)

lemma short_Nil [simp]: "short_string []"
  by (simp add: short_string_def)

lemma short_optional: "(id_valid s \<longrightarrow> is_valid_identifier s) \<Longrightarrow> short_string s"
  by (cases "id_valid s") (auto simp: short_identifier id_valid_def)

lemma short_label: "valid_optional_label s \<Longrightarrow> short_string s"
  by (auto simp: valid_optional_label_def short_identifier)

lemma short_identifiers: "list_all is_valid_identifier xs \<Longrightarrow> list_all short_string xs"
  by (auto simp: list_all_iff short_identifier)

lemma enum_byte_inj [simp]:
  "domain_kind_value g = domain_kind_value h \<longleftrightarrow> g = h"
  "evidence_value i = evidence_value j \<longleftrightarrow> i = j"
  by ((cases g; cases h), simp_all) ((cases i; cases j), simp_all)

lemma collective_enum_byte_inj [simp]:
  "collective_kind_value a = collective_kind_value b \<longleftrightarrow> a = b"
  "tree_direction_value c = tree_direction_value d \<longleftrightarrow> c = d"
  "group_pattern_value e = group_pattern_value f \<longleftrightarrow> e = f"
  by ((cases a; cases b), simp_all) ((cases c; cases d), simp_all, (cases e; cases f), simp_all)

section \<open>Rows\<close>

definition domain_short :: "failure_domain \<Rightarrow> bool" where
  "domain_short d \<longleftrightarrow> short_string (fd_id d) \<and> short_string (fd_parent d)"

definition node_short :: "node \<Rightarrow> bool" where
  "node_short n \<longleftrightarrow> list_all short_string [n_id n, pl_site (n_placement n), pl_pod (n_placement n),
     pl_rack (n_placement n), pl_host (n_placement n), n_tier n]"

definition edge_short :: "edge \<Rightarrow> bool" where
  "edge_short e \<longleftrightarrow> list_all short_string [e_id e, e_from e, e_to e, e_tier e, e_domain e]"

definition group_short :: "group_spec \<Rightarrow> bool" where
  "group_short g \<longleftrightarrow> short_string (gr_id g) \<and> short_string (gr_root g) \<and>
     length (gr_members g) < 2 ^ 32 \<and> list_all short_string (gr_members g)"

definition row_short :: "logical_edge \<times> u32 \<Rightarrow> bool" where
  "row_short row \<longleftrightarrow> short_string (fst (fst row)) \<and> short_string (snd (fst row))"

definition binding_short :: "endpoint_binding \<Rightarrow> bool" where
  "binding_short b \<longleftrightarrow> short_string (b_participant b) \<and> short_string (b_node b) \<and>
     length (allowed_failure_domains b) < 2 ^ 32 \<and> list_all short_string (allowed_failure_domains b) \<and>
     length (allowed_tiers b) < 2 ^ 32 \<and> list_all short_string (allowed_tiers b)"

interpretation domain_code: prefix_code put_domain domain_short
  by unfold_locales (simp add: put_domain_def domain_short_def codec_simps failure_domain.equality)

interpretation node_code: prefix_code put_node node_short
  by unfold_locales (simp add: put_node_def node_short_def codec_simps node.equality placement.equality)

interpretation edge_code: prefix_code put_edge edge_short
  by unfold_locales (simp add: put_edge_def edge_short_def codec_simps edge.equality)

interpretation group_code: prefix_code put_group group_short
  by unfold_locales (simp add: put_group_def group_short_def codec_simps group_spec.equality)

interpretation row_code: prefix_code put_logical_edge row_short
  by unfold_locales (simp add: put_logical_edge_def row_short_def codec_simps prod_eq_iff)

interpretation binding_code: prefix_code put_binding binding_short
  by unfold_locales (simp add: put_binding_def binding_short_def codec_simps endpoint_binding.equality)

interpretation domain_list_code: prefix_code "put_list put_domain"
    "\<lambda>xs. length xs < 2 ^ 32 \<and> list_all domain_short xs"
  by (rule list_prefix_code [OF domain_code.prefix_code_axioms])

interpretation node_list_code: prefix_code "put_list put_node"
    "\<lambda>xs. length xs < 2 ^ 32 \<and> list_all node_short xs"
  by (rule list_prefix_code [OF node_code.prefix_code_axioms])

interpretation edge_list_code: prefix_code "put_list put_edge"
    "\<lambda>xs. length xs < 2 ^ 32 \<and> list_all edge_short xs"
  by (rule list_prefix_code [OF edge_code.prefix_code_axioms])

interpretation group_list_code: prefix_code "put_list put_group"
    "\<lambda>xs. length xs < 2 ^ 32 \<and> list_all group_short xs"
  by (rule list_prefix_code [OF group_code.prefix_code_axioms])

interpretation row_list_code: prefix_code "put_list put_logical_edge"
    "\<lambda>xs. length xs < 2 ^ 32 \<and> list_all row_short xs"
  by (rule list_prefix_code [OF row_code.prefix_code_axioms])

interpretation binding_list_code: prefix_code "put_list put_binding"
    "\<lambda>xs. length xs < 2 ^ 32 \<and> list_all binding_short xs"
  by (rule list_prefix_code [OF binding_code.prefix_code_axioms])

lemmas [codec_simps] = domain_list_code.enc_append_iff node_list_code.enc_append_iff
  edge_list_code.enc_append_iff group_list_code.enc_append_iff row_list_code.enc_append_iff
  binding_list_code.enc_append_iff

section \<open>What the encoding determines\<close>

text \<open>The bounds of the well-formedness invariants keep every length below the \<open>u32\<close> prefix.\<close>

lemma tier_short: "(id_valid s \<longrightarrow> is_valid_tier_name s) \<Longrightarrow> short_string s"
  using short_optional is_valid_tier_name_identifier by blast

lemma fabric_short:
  assumes "fabric_wf g"
  shows "length (failure_domains g) < 2 ^ 32" "list_all domain_short (failure_domains g)"
    "length (nodes g) < 2 ^ 32" "list_all node_short (nodes g)"
    "length (edges g) < 2 ^ 32" "list_all edge_short (edges g)"
proof -
  show "length (failure_domains g) < 2 ^ 32" "length (nodes g) < 2 ^ 32" "length (edges g) < 2 ^ 32"
    using assms by (simp_all add: fabric_wf_def limit_defs)
  show "list_all domain_short (failure_domains g)"
    using fabric_wfD(2) [OF assms]
    by (auto simp: domains_ok_def list_all_iff domain_short_def check_domain_ids_def short_identifier
        intro: short_optional split: if_splits)
  show "list_all node_short (nodes g)"
    using fabric_wfD(3) [OF assms]
    by (auto simp: nodes_ok_def list_all_iff node_short_def check_node_def short_identifier short_label
        intro: tier_short split: if_splits)
  show "list_all edge_short (edges g)"
    using fabric_wfD(4) [OF assms] check_edge_iff [OF fabric_wfD(1,3) [OF assms]]
    by (auto simp: edges_ok_def list_all_iff edge_short_def edge_admissible_def short_identifier
        intro: tier_short short_optional)
qed

lemma fabric_determined:
  assumes "fabric_wf g" "fabric_wf h"
    and "topology_generation g = topology_generation h"
      "failure_domain_generation g = failure_domain_generation h"
      "capacity_evidence_generation g = capacity_evidence_generation h"
      "failure_domains g = failure_domains h" "nodes g = nodes h" "edges g = edges h"
  shows "g = h"
proof -
  have maps: "domain_map g = domain_map h" "node_map g = node_map h" "edge_map g = edge_map h"
    using assms by (simp_all add: fabric_wf_def domains_ok_def domain_table_ok_def nodes_ok_def edges_ok_def)
  moreover have "out_edge_lists g = out_edge_lists h"
    using assms maps by (simp add: fabric_wf_def edges_ok_def)
  moreover have "domain_chains g = domain_chains h"
    using assms(1,2,6) domain_functions_cong(4) [OF assms(6) maps(1)]
    by (simp add: fabric_wf_def domains_ok_def)
  ultimately show ?thesis using assms by (intro fabric.equality) simp_all
qed

lemma fabric_encoding_exact:
  assumes "fabric_wf g" "fabric_wf h"
    and "fabric_encode_canonical g @ r = fabric_encode_canonical h @ s"
  shows "g = h \<and> r = s"
proof -
  note short = fabric_short [OF assms(1)] fabric_short [OF assms(2)]
  have "failure_domains g = failure_domains h \<and> nodes g = nodes h \<and> edges g = edges h \<and> r = s \<and>
      topology_generation g = topology_generation h \<and>
      failure_domain_generation g = failure_domain_generation h \<and>
      capacity_evidence_generation g = capacity_evidence_generation h"
    using assms(3) short by (simp add: fabric_encode_canonical_def codec_simps)
  then show ?thesis using fabric_determined [OF assms(1,2)] by blast
qed

lemma policy_short:
  assumes "is_ok (policy_validate p)"
  shows "length (forbidden_nodes p) < 2 ^ 32" "list_all short_string (forbidden_nodes p)"
    "length (forbidden_tiers p) < 2 ^ 32" "list_all short_string (forbidden_tiers p)"
    "length (forbidden_failure_domains p) < 2 ^ 32" "list_all short_string (forbidden_failure_domains p)"
    "length (allowed_path_tiers p) < 2 ^ 32" "list_all short_string (allowed_path_tiers p)"
    "max_hops p < 2 ^ 64" "paths_per_logical_edge p < 2 ^ 64" "max_search_expansions p < 2 ^ 64"
  using policy_validateD [OF assms] by (simp_all add: short_identifiers limit_defs)

lemma of_nat_u64_eq: "a < 2 ^ 64 \<Longrightarrow> b < 2 ^ 64 \<Longrightarrow> (of_nat a :: u64) = of_nat b \<longleftrightarrow> a = b"
  by (metis unat_of_nat_small)

lemma policy_encoding_exact:
  assumes "is_ok (policy_validate p)" "is_ok (policy_validate q)"
    and "policy_encode_canonical p @ r = policy_encode_canonical q @ s"
  shows "p = q \<and> r = s"
  using assms(3) policy_short [OF assms(1)] policy_short [OF assms(2)]
  by (auto simp: policy_encode_canonical_def codec_simps of_nat_u64_eq intro: policy.equality)

lemma collective_short:
  assumes "collective_wf c"
  shows "short_string (co_id c)" "length (participants c) < 2 ^ 32" "list_all short_string (participants c)"
    "length (zip (logical_edges c) (logical_edge_stage c)) < 2 ^ 32"
    "list_all row_short (zip (logical_edges c) (logical_edge_stage c))"
    "length (groups c) < 2 ^ 32" "list_all group_short (groups c)"
proof -
  have ids: "list_all is_valid_identifier (participants c)" and
    ends: "participants c = edge_participants (logical_edges c)" and
    len: "length (participants c) \<le> kMaxParticipants" "length (logical_edges c) \<le> kMaxLogicalEdges"
      "length (groups c) \<le> kMaxGroups" and
    name: "is_valid_identifier (co_id c)"
    using assms unfolding collective_wf_def by blast+
  show "short_string (co_id c)" "length (participants c) < 2 ^ 32" "list_all short_string (participants c)"
    "length (zip (logical_edges c) (logical_edge_stage c)) < 2 ^ 32" "length (groups c) < 2 ^ 32"
    using len ids name by (simp_all add: short_identifier short_identifiers limit_defs)
  show "list_all row_short (zip (logical_edges c) (logical_edge_stage c))"
    using ids unfolding ends
    by (auto simp: list_all_iff row_short_def set_edge_participants
        intro!: short_identifier dest!: set_zip_leftD) force+
  have "group_short g" if "group_ok g" for g
    using that by (auto simp: group_ok_def group_short_def short_identifier short_identifiers limit_defs
        intro: short_optional)
  then show "list_all group_short (groups c)"
    using assms by (auto simp: collective_wf_def list_all_iff)
qed

lemma collective_encoding_exact:
  assumes "collective_wf c" "collective_wf d"
    and "collective_encode_canonical c @ r = collective_encode_canonical d @ s"
  shows "c = d \<and> r = s"
proof -
  have eq: "co_id c = co_id d \<and> co_kind c = co_kind d \<and> co_demand c = co_demand d \<and>
      stage_count c = stage_count d \<and> participants c = participants d \<and> groups c = groups d \<and> r = s \<and>
      zip (logical_edges c) (logical_edge_stage c) = zip (logical_edges d) (logical_edge_stage d)"
    using assms(3) collective_short [OF assms(1)] collective_short [OF assms(2)]
    by (simp add: collective_encode_canonical_def codec_simps)
  moreover have "logical_edges c = logical_edges d" "logical_edge_stage c = logical_edge_stage d"
    using eq assms(1,2) by (metis collective_wf_def map_fst_zip map_snd_zip)+
  ultimately show ?thesis by (auto intro: collective.equality)
qed

lemma binding_short_wf:
  assumes "request_wf r" "b \<in> set (r_bindings r)"
  shows "binding_short b"
proof -
  have b: "binding_ok b" "binding_references_ok (r_collective r) (r_fabric r) b"
    using assms by (auto simp: request_wf_def)
  have "short_string d" if "d \<in> set (allowed_failure_domains b)" for d
  proof -
    from that b(2) obtain e where "e \<in> set (failure_domains (r_fabric r))" "d = fd_id e"
      by (auto simp: binding_references_ok_def)
    then show ?thesis
      using fabric_short(2) [of "r_fabric r"] assms(1)
      by (auto simp: request_wf_def list_all_iff domain_short_def)
  qed
  with b show ?thesis
    by (auto simp: binding_ok_def binding_short_def binding_references_ok_def list_all_iff limit_defs
        short_identifier is_valid_tier_name_identifier)
qed

lemma request_encoding_exact:
  assumes "request_wf r" "request_wf q"
    and "request_encode_canonical r = request_encode_canonical q"
  shows "r_collective r = r_collective q \<and> r_fabric r = r_fabric q \<and> r_policy r = r_policy q \<and>
    r_bindings r = r_bindings q"
proof -
  let ?fab = "\<lambda>r. fabric_encode_canonical (r_fabric r)"
  let ?pol = "\<lambda>r. policy_encode_canonical (r_policy r)"
  let ?bind = "\<lambda>r. put_list put_binding (r_bindings r)"
  have "collective_encode_canonical (r_collective r) @ (?fab r @ ?pol r @ ?bind r) =
      collective_encode_canonical (r_collective q) @ (?fab q @ ?pol q @ ?bind q)"
    using assms(3) by (simp add: request_encode_canonical_def)
  from collective_encoding_exact [OF _ _ this] have
    c: "r_collective r = r_collective q" and f: "?fab r @ (?pol r @ ?bind r) = ?fab q @ (?pol q @ ?bind q)"
    using assms(1,2) by (simp_all add: request_wf_def)
  from fabric_encoding_exact [OF _ _ f] have
    g: "r_fabric r = r_fabric q" and p: "?pol r @ ?bind r = ?pol q @ ?bind q"
    using assms(1,2) by (simp_all add: request_wf_def)
  from policy_encoding_exact [OF _ _ p] have
    l: "r_policy r = r_policy q" and b: "?bind r = ?bind q"
    using assms(1,2) by (simp_all add: request_wf_def)
  have "length (r_bindings x) < 2 ^ 32 \<and> list_all binding_short (r_bindings x)" if "request_wf x" for x
    using that binding_short_wf [OF that] by (auto simp: request_wf_def list_all_iff limit_defs)
  then have "r_bindings r = r_bindings q"
    using binding_list_code.enc_inj b assms(1,2) by blast
  with c g l show ?thesis by simp
qed

section \<open>A small request\<close>

definition default_policy :: policy where
  "default_policy =
     \<lparr>po_generation = 1, max_hops = 8, paths_per_logical_edge = 1, po_disjointness = djNone,
      po_domain_diversity = ddNone, domain_diversity_level = dkRack, po_evidence = erAny,
      latency_weight_milli = 1000, congestion_weight_milli = 0, max_path_cost = kCostCeiling,
      allow_unverified_capacity = False, forbidden_nodes = [], forbidden_tiers = [],
      forbidden_failure_domains = [], allowed_path_tiers = [], max_search_expansions = 262144\<rparr>"

definition plain_binding :: "participant_id \<Rightarrow> node_id \<Rightarrow> endpoint_binding" where
  "plain_binding p n = \<lparr>b_participant = p, b_node = n, allowed_failure_domains = [], allowed_tiers = []\<rparr>"

definition small_spec :: request_spec where
  "small_spec =
     \<lparr>rs_collective = ring_spec, rs_fabric = pair_spec, rs_policy = default_policy,
      rs_plan_generation = 7,
      rs_bindings = [plain_binding ''p2'' ''b'', plain_binding ''p1'' ''a'', plain_binding ''p3'' ''a'']\<rparr>"

definition small_bindings :: "endpoint_binding list" where
  "small_bindings = [plain_binding ''p1'' ''a'', plain_binding ''p2'' ''b'', plain_binding ''p3'' ''a'']"

definition small_request :: planning_request where
  "small_request = assembled_request 7 ring_collective pair_fabric default_policy small_bindings"

lemma default_policy_ok:
  "is_ok (policy_validate default_policy)" "policy_canonicalize default_policy = default_policy"
  by code_simp+

lemma small_request_built: "build_request small_spec = Inr small_request"
proof -
  note default_policy_ok
  moreover have "canonical_bindings (rs_bindings small_spec) = Inr small_bindings" by code_simp
  moreover have "set (participants ring_collective) = {''p1'', ''p2'', ''p3''}" by code_simp
  moreover have "n_id ` set (nodes pair_fabric) = {''a'', ''b''}" by code_simp
  ultimately show ?thesis
    using ring_collective_built pair_fabric_built
    by (simp add: build_request_iff small_spec_def small_request_def small_bindings_def plain_binding_def
        binding_references_ok_def generation_valid_def)
qed

section \<open>Properties\<close>

text \<open>
  C13: \<open>build_request\<close> succeeds exactly when the collective and the fabric build, the
  canonicalised policy validates, the plan generation is set, the bindings canonicalise and
  every binding refers to a known participant, node and domains; the digest it records is the
  SHA-256 of the canonical bytes, and its final self-validation can never fail.
\<close>

theorem build_request_exact:
  "build_request spec = Inr r \<longleftrightarrow>
     (\<exists>c g bs. collective_build (rs_collective spec) = Inr c \<and> fabric_build (rs_fabric spec) = Inr g \<and>
        is_ok (policy_validate (policy_canonicalize (rs_policy spec))) \<and>
        generation_valid (rs_plan_generation spec) \<and> canonical_bindings (rs_bindings spec) = Inr bs \<and>
        (\<forall>b\<in>set bs. binding_references_ok c g b) \<and>
        r_collective r = c \<and> r_fabric r = g \<and> r_policy r = policy_canonicalize (rs_policy spec) \<and>
        r_plan_generation r = rs_plan_generation spec \<and> r_bindings r = bs \<and>
        canonical_digest r = sha256_hash (request_encode_canonical r) \<and>
        canonical_bytes r = length (request_encode_canonical r))"
proof -
  have "r = assembled_request pg c g p bs \<longleftrightarrow>
      r_collective r = c \<and> r_fabric r = g \<and> r_policy r = p \<and> r_plan_generation r = pg \<and>
      r_bindings r = bs \<and> canonical_digest r = sha256_hash (request_encode_canonical r) \<and>
      canonical_bytes r = length (request_encode_canonical r)" for pg c g p bs
  proof -
    have "request_encode_canonical r = request_encode_canonical (assembled_request pg c g p bs)"
      if "r_collective r = c" "r_fabric r = g" "r_policy r = p" "r_bindings r = bs"
      using that by (simp add: request_encode_canonical_def)
    then show ?thesis by (auto intro!: planning_request.equality)
  qed
  then show ?thesis by (simp add: build_request_iff)
qed

theorem build_request_exact_witness:
  "build_request small_spec = Inr small_request \<and>
   canonical_digest small_request = sha256_hash (request_encode_canonical small_request) \<and>
   (\<exists>bs. canonical_bindings (rs_bindings small_spec) = Inr bs \<and> r_bindings small_request = bs)"
  using build_request_exact [of small_spec small_request] small_request_built by auto

text \<open>
  C14: the canonical bytes cover every input of the mapping and nothing else: two built requests
  have the same canonical encoding exactly when they agree on the collective, the fabric (its
  derived tables included), the policy and the bindings; the plan generation is not covered.
\<close>

theorem canonical_encoding_identifies_request:
  assumes "build_request spec = Inr r" "build_request spec' = Inr q"
  shows "request_encode_canonical r = request_encode_canonical q \<longleftrightarrow>
    r_collective r = r_collective q \<and> r_fabric r = r_fabric q \<and> r_policy r = r_policy q \<and>
    r_bindings r = r_bindings q"
  using request_encoding_exact [OF build_request_wf [OF assms(1)] build_request_wf [OF assms(2)]]
  by (auto simp: request_encode_canonical_def)

theorem canonical_encoding_identifies_request_witness:
  "request_encode_canonical small_request \<noteq>
   request_encode_canonical (projr (build_request (small_spec\<lparr>rs_bindings := []\<rparr>)))"
proof -
  let ?spec = "small_spec\<lparr>rs_bindings := []\<rparr>"
  let ?r = "assembled_request 7 ring_collective pair_fabric default_policy []"
  have "canonical_bindings [] = Inr []" by code_simp
  then have b: "build_request ?spec = Inr ?r"
    using ring_collective_built pair_fabric_built default_policy_ok
    by (simp add: build_request_iff small_spec_def generation_valid_def)
  then show ?thesis
    using canonical_encoding_identifies_request [OF small_request_built b]
    by (simp add: b small_request_def small_bindings_def)
qed

text \<open>
  C38: the plan generation is a label: rebuilding a request under another non-zero plan
  generation changes that field and neither the canonical bytes nor the digest.
\<close>

theorem digest_ignores_plan_generation:
  assumes "build_request spec = Inr r" "k \<noteq> 0"
  shows "build_request (spec\<lparr>rs_plan_generation := k\<rparr>) = Inr (r\<lparr>r_plan_generation := k\<rparr>)"
  using assms
  by (auto simp: build_request_iff generation_valid_def assembled_request_def Let_def
      request_encode_canonical_def)

theorem digest_ignores_plan_generation_witness:
  "build_request (small_spec\<lparr>rs_plan_generation := 9\<rparr>) = Inr (small_request\<lparr>r_plan_generation := 9\<rparr>)"
  by (rule digest_ignores_plan_generation [OF small_request_built]) simp

end
