(* ===== verification/Plan.thy ===== *)
theory Plan
  imports Canonical
begin

text \<open>
  The plan model (\<open>include/cpath/plan.hpp\<close>, \<open>src/plan.cpp\<close>): hops, paths, stages,
  allocations and statistics, the canonical plan record with its strict decoder, and the
  freshness of a plan with respect to a set of generations.

  A member of type \<open>std::size_t\<close> is a natural number; \<open>PathId\<close> and
  \<open>LogicalEdgeId\<close> are 64-bit words. \<open>CollectivePlanId\<close> is a digest.
\<close>

section \<open>Data\<close>

record hop =
  h_edge :: edge_id
  h_from :: node_id
  h_to :: node_id

record path_plan =
  pp_id :: u64
  pp_logical :: u64
  pp_src :: participant_id
  pp_dst :: participant_id
  pp_stage :: u32
  pp_hops :: "hop list"
  pp_cost :: u64
  pp_bottleneck :: u64
  pp_signature :: "domain_id list"
  pp_evidence :: evidence_class

record stage =
  st_index :: u32
  st_logical :: "u64 list"
  st_paths :: "u64 list"

record allocation =
  al_edge :: edge_id
  al_planned :: u64

record plan_stats =
  ps_total_cost :: u64
  ps_max_path_cost :: u64
  ps_path_count :: nat
  ps_hop_count :: nat
  ps_logical_edge_count :: nat
  ps_bottleneck :: u64

record plan =
  pl_id :: digest
  pl_input_digest :: digest
  pl_generation :: generation
  pl_bindings :: generation_bindings
  pl_collective :: string
  pl_kind :: collective_kind
  pl_stage_count :: u32
  pl_stages :: "stage list"
  pl_paths :: "path_plan list"
  pl_allocations :: "allocation list"
  pl_stats :: plan_stats
  pl_evidence :: evidence_class

section \<open>Freshness\<close>

datatype plan_freshness =
    kCurrent | kStaleTopology | kStaleFailureDomains | kStaleCapacityEvidence | kStalePolicy
  | kStalePlan | kUnverified

primrec to_string_freshness :: "plan_freshness \<Rightarrow> string" where
  "to_string_freshness kCurrent = ''current''"
| "to_string_freshness kStaleTopology = ''stale-topology''"
| "to_string_freshness kStaleFailureDomains = ''stale-failure-domains''"
| "to_string_freshness kStaleCapacityEvidence = ''stale-capacity-evidence''"
| "to_string_freshness kStalePolicy = ''stale-policy''"
| "to_string_freshness kStalePlan = ''stale-plan-generation''"
| "to_string_freshness kUnverified = ''unverified''"



section \<open>The plan record\<close>

definition encode_bindings :: "generation_bindings \<Rightarrow> bytes" where
  "encode_bindings b =
     put_u64 (gb_topology b) @ put_u64 (gb_failure_domains b) @ put_u64 (gb_capacity_evidence b)
     @ put_u64 (gb_policy b) @ put_u64 (gb_plan b)"

definition put_stage :: "stage \<Rightarrow> bytes" where
  "put_stage s = put_u32 (st_index s) @ put_list put_u64 (st_logical s) @ put_list put_u64 (st_paths s)"

definition put_hop :: "hop \<Rightarrow> bytes" where
  "put_hop h = put_string (h_edge h) @ put_string (h_from h) @ put_string (h_to h)"

definition put_path :: "path_plan \<Rightarrow> bytes" where
  "put_path p =
     put_u64 (pp_id p) @ put_u64 (pp_logical p) @ put_string (pp_src p) @ put_string (pp_dst p)
     @ put_u32 (pp_stage p) @ put_list put_hop (pp_hops p) @ put_u64 (pp_cost p)
     @ put_u64 (pp_bottleneck p) @ put_list put_string (pp_signature p)
     @ put_u8 (evidence_value (pp_evidence p))"

definition put_allocation :: "allocation \<Rightarrow> bytes" where
  "put_allocation a = put_string (al_edge a) @ put_u64 (al_planned a)"

definition put_stats :: "plan_stats \<Rightarrow> bytes" where
  "put_stats s =
     put_u64 (ps_total_cost s) @ put_u64 (ps_max_path_cost s) @ put_u64 (of_nat (ps_path_count s))
     @ put_u64 (of_nat (ps_hop_count s)) @ put_u64 (of_nat (ps_logical_edge_count s))
     @ put_u64 (ps_bottleneck s)"

definition plan_encode :: "plan \<Rightarrow> bytes" where
  "plan_encode p =
     put_tagged ''cpath.plan.v1'' @ put_u16 kCanonicalFormatVersion
     @ put_digest (pl_input_digest p) @ put_u64 (pl_generation p) @ encode_bindings (pl_bindings p)
     @ put_string (pl_collective p) @ put_u8 (collective_kind_value (pl_kind p))
     @ put_u32 (pl_stage_count p) @ put_list put_stage (pl_stages p) @ put_list put_path (pl_paths p)
     @ put_list put_allocation (pl_allocations p) @ put_stats (pl_stats p)
     @ put_u8 (evidence_value (pl_evidence p))"

definition body_digest :: "plan \<Rightarrow> digest" where
  "body_digest p = sha256_hash (plan_encode p)"

text \<open>\<open>static_cast\<close> of a value that was checked to be in range.\<close>

definition evidence_of_value :: "u8 \<Rightarrow> evidence_class" where
  "evidence_of_value v = (if v = 0 then evUnknown else if v = 1 then evSynthetic else evMeasured)"

definition collective_kind_of_value :: "u8 \<Rightarrow> collective_kind" where
  "collective_kind_of_value v =
     (if v = 0 then ckRing else if v = 1 then ckTree else if v = 2 then ckPairwise
      else if v = 3 then ckAllToAll else ckHierarchical)"

definition decode_bindings ::
    "generation_bindings \<Rightarrow> byte_reader \<Rightarrow> generation_bindings \<times> byte_reader" where
  "decode_bindings out r =
     (let (topology, r1) = get_u64 0 r; (failure_domains, r2) = get_u64 0 r1;
          (capacity_evidence, r3) = get_u64 0 r2; (policy, r4) = get_u64 0 r3;
          (plan, r5) = get_u64 0 r4 in
      if \<not> is_ok (rd_status r5) then (out, r5)
      else (\<lparr>gb_topology = topology, gb_failure_domains = failure_domains,
             gb_capacity_evidence = capacity_evidence, gb_policy = policy, gb_plan = plan\<rparr>, r5))"

definition no_bindings :: generation_bindings where
  "no_bindings = \<lparr>gb_topology = 0, gb_failure_domains = 0, gb_capacity_evidence = 0, gb_policy = 0,
                  gb_plan = 0\<rparr>"

definition get_stage :: "byte_reader \<Rightarrow> stage \<times> byte_reader" where
  "get_stage r =
     (let (index, r1) = get_u32 0 r; (logical, r2) = get_list kMaxLogicalEdges (get_u64 0) r1;
          (paths, r3) = get_list kMaxLogicalEdges (get_u64 0) r2 in
      (\<lparr>st_index = index, st_logical = logical, st_paths = paths\<rparr>, r3))"

definition get_hop :: "byte_reader \<Rightarrow> hop \<times> byte_reader" where
  "get_hop r =
     (let (edge, r1) = get_string [] kMaxIdentifierBytes r;
          (from, r2) = get_string [] kMaxIdentifierBytes r1;
          (to, r3) = get_string [] kMaxIdentifierBytes r2 in
      (\<lparr>h_edge = edge, h_from = from, h_to = to\<rparr>, r3))"

definition get_path :: "byte_reader \<Rightarrow> (path_plan \<times> byte_reader) result" where
  "get_path r =
     (let (ident, r1) = get_u64 0 r; (logical, r2) = get_u64 0 r1;
          (src, r3) = get_string [] kMaxIdentifierBytes r2;
          (dst, r4) = get_string [] kMaxIdentifierBytes r3;
          (stage, r5) = get_u32 0 r4; (hops, r6) = get_list kMaxHops get_hop r5;
          (cost, r7) = get_u64 0 r6; (bottleneck, r8) = get_u64 0 r7;
          (signature, r9) = get_list kMaxFailureDomains (get_string [] kMaxIdentifierBytes) r8;
          (evidence, r10) = get_u8 0 r9 in
      if evidence > evidence_value evMeasured then Inl kCorruptRecord
      else if \<not> is_ok (rd_status r10) then Inl (rd_status r10)
      else Inr (\<lparr>pp_id = ident, pp_logical = logical, pp_src = src, pp_dst = dst, pp_stage = stage,
                 pp_hops = hops, pp_cost = cost, pp_bottleneck = bottleneck, pp_signature = signature,
                 pp_evidence = evidence_of_value evidence\<rparr>, r10))"

fun get_paths :: "nat \<Rightarrow> byte_reader \<Rightarrow> (path_plan list \<times> byte_reader) result" where
  "get_paths 0 r = Inr ([], r)"
| "get_paths (Suc n) r =
     (case get_path r of Inl e \<Rightarrow> Inl e
      | Inr (p, r1) \<Rightarrow> (case get_paths n r1 of Inl e \<Rightarrow> Inl e | Inr (ps, r2) \<Rightarrow> Inr (p # ps, r2)))"

definition get_allocation :: "byte_reader \<Rightarrow> allocation \<times> byte_reader" where
  "get_allocation r =
     (let (edge, r1) = get_string [] kMaxIdentifierBytes r; (planned, r2) = get_u64 0 r1 in
      (\<lparr>al_edge = edge, al_planned = planned\<rparr>, r2))"

definition get_stats :: "byte_reader \<Rightarrow> plan_stats \<times> byte_reader" where
  "get_stats r =
     (let (total_cost, r1) = get_u64 0 r; (max_path_cost, r2) = get_u64 0 r1;
          (path_count, r3) = get_u64 0 r2; (hop_count, r4) = get_u64 0 r3;
          (logical_count, r5) = get_u64 0 r4; (bottleneck, r6) = get_u64 0 r5 in
      (\<lparr>ps_total_cost = total_cost, ps_max_path_cost = max_path_cost, ps_path_count = unat path_count,
        ps_hop_count = unat hop_count, ps_logical_edge_count = unat logical_count,
        ps_bottleneck = bottleneck\<rparr>, r6))"

definition plan_decode :: "bytes \<Rightarrow> plan result" where
  "plan_decode bs =
     (if length bs > kMaxPlanRecordBytes then Inl kOversizedRecord else
      let (tag, r1) = get_string [] 64 (new_reader bs); (version, r2) = get_u16 0 r1 in
      if \<not> is_ok (rd_status r2) then Inl (rd_status r2)
      else if tag \<noteq> ''cpath.plan.v1'' then Inl kUnsupportedRecordVersion
      else if version \<noteq> kCanonicalFormatVersion then Inl kUnsupportedRecordVersion
      else let (input_digest, r3) = get_digest (replicate kDigestBytes 0) r2;
               (generation, r4) = get_u64 0 r3; (bindings, r5) = decode_bindings no_bindings r4 in
      if \<not> is_ok (rd_status r5) then Inl (rd_status r5)
      else let (collective, r6) = get_string [] kMaxIdentifierBytes r5; (kind, r7) = get_u8 0 r6 in
      if kind > collective_kind_value ckHierarchical then Inl kCorruptRecord
      else let (stage_count, r8) = get_u32 1 r7 in
      if stage_count = 0 \<or> unat stage_count > kMaxStages then Inl kCorruptRecord
      else let (stages, r9) = get_list kMaxStages get_stage r8;
               (path_total, r10) = get_count 0 kMaxLogicalEdges r9 in
      case get_paths (unat path_total) r10 of Inl e \<Rightarrow> Inl e | Inr (paths, r11) \<Rightarrow>
     (let (allocations, r12) = get_list kMaxEdges get_allocation r11; (stats, r13) = get_stats r12;
          (weakest, r14) = get_u8 0 r13 in
      if weakest > evidence_value evMeasured then Inl kCorruptRecord
      else let r15 = require_end r14 in
      if \<not> is_ok (rd_status r15) then Inl (rd_status r15)
      else if length paths \<noteq> ps_path_count stats then Inl kCorruptRecord
      else if is_zero input_digest then Inl kCorruptRecord
      else Inr \<lparr>pl_id = input_digest, pl_input_digest = input_digest, pl_generation = generation,
                pl_bindings = bindings, pl_collective = collective,
                pl_kind = collective_kind_of_value kind, pl_stage_count = stage_count,
                pl_stages = stages, pl_paths = paths, pl_allocations = allocations,
                pl_stats = stats, pl_evidence = evidence_of_value weakest\<rparr>))"

section \<open>The record codecs\<close>

lemma codec_keep_on_error:
  assumes c: "strict_codec enc dec ok"
    and dec: "\<And>r. dec' r = (if is_ok (rd_status (snd (dec r))) then dec r else (out, snd (dec r)))"
  shows "strict_codec enc dec' ok"
proof
  show "dec' (reader_at pre (enc x @ rest)) = (x, reader_at (pre @ enc x) rest)" if "ok x" for x pre rest
    using codec.decodes [OF strict_codec.axioms(1) [OF c] that] by (simp add: dec)
  show "snd (dec' r) = r" if "\<not> is_ok (rd_status r)" for r
    using strict_codec.sticky [OF c that] that by (simp add: dec)
  fix pre bs x r
  assume "dec' (reader_at pre bs) = (x, r)" and "is_ok (rd_status r)"
  then show "\<exists>rest. bs = enc x @ rest \<and> ok x \<and> r = reader_at (pre @ enc x) rest"
    using strict_codec.accepts [OF c, of pre bs x r] by (auto simp: dec split: if_splits)
qed

definition record_bindings :: "u64 \<times> u64 \<times> u64 \<times> u64 \<times> u64 \<Rightarrow> generation_bindings" where
  "record_bindings = (\<lambda>(a, b, c, d, e). \<lparr>gb_topology = a, gb_failure_domains = b,
     gb_capacity_evidence = c, gb_policy = d, gb_plan = e\<rparr>)"

interpretation bindings_record: strict_codec encode_bindings "decode_bindings out" "\<lambda>_. True"
proof (rule codec_keep_on_error)
  let ?c = "get_pair (get_u64 0) (get_pair (get_u64 0) (get_pair (get_u64 0) (get_pair (get_u64 0) (get_u64 0))))"
  note c = u64.strict_codec_axioms
  note all = pair_codec [OF c pair_codec [OF c pair_codec [OF c pair_codec [OF c c]]]]
  show "strict_codec encode_bindings (\<lambda>r. apfst record_bindings (?c r)) (\<lambda>_. True)"
    by (rule record_codec [OF all, where pack = record_bindings and
          unpack = "\<lambda>b. (gb_topology b, gb_failure_domains b, gb_capacity_evidence b, gb_policy b, gb_plan b)"])
       (simp_all add: encode_bindings_def record_bindings_def split_beta)
  show "decode_bindings out r =
      (if is_ok (rd_status (snd (apfst record_bindings (?c r)))) then apfst record_bindings (?c r)
       else (out, snd (apfst record_bindings (?c r))))" for r
    by (simp add: decode_bindings_def get_pair_def record_bindings_def split_beta Let_def)
qed

definition stage_ok :: "stage \<Rightarrow> bool" where
  "stage_ok s \<longleftrightarrow> length (st_logical s) \<le> kMaxLogicalEdges \<and> length (st_paths s) \<le> kMaxLogicalEdges"

interpretation stage_record: strict_codec put_stage get_stage stage_ok
proof (rule record_codec)
  note c = list_codec [OF u64.strict_codec_axioms, of kMaxLogicalEdges]
  show "strict_codec (\<lambda>(a, b). put_u32 a @ (\<lambda>(x, y). put_list put_u64 x @ put_list put_u64 y) b)
      (get_pair (get_u32 0) (get_pair (get_list kMaxLogicalEdges (get_u64 0)) (get_list kMaxLogicalEdges (get_u64 0))))
      (\<lambda>(a, b). True \<and> (\<lambda>(x, y). (length x \<le> kMaxLogicalEdges \<and> list_all (\<lambda>_. True) x) \<and>
         (length y \<le> kMaxLogicalEdges \<and> list_all (\<lambda>_. True) y)) b)"
    by (intro pair_codec c u32.strict_codec_axioms) (simp_all add: limit_defs)
  show "get_stage r = apfst (\<lambda>(i, l, p). \<lparr>st_index = i, st_logical = l, st_paths = p\<rparr>)
      (get_pair (get_u32 0) (get_pair (get_list kMaxLogicalEdges (get_u64 0))
         (get_list kMaxLogicalEdges (get_u64 0))) r)" for r
    by (simp add: get_stage_def get_pair_def split_beta)
  show "put_stage x = (case (st_index x, st_logical x, st_paths x) of (a, b) \<Rightarrow>
      put_u32 a @ (case b of (x, y) \<Rightarrow> put_list put_u64 x @ put_list put_u64 y))" for x
    by (simp add: put_stage_def)
qed (auto simp: stage_ok_def list_all_iff)

definition short_id_text :: "string \<Rightarrow> bool" where
  "short_id_text s \<longleftrightarrow> length s \<le> kMaxIdentifierBytes"

definition hop_ok :: "hop \<Rightarrow> bool" where
  "hop_ok h \<longleftrightarrow> short_id_text (h_edge h) \<and> short_id_text (h_from h) \<and> short_id_text (h_to h)"

lemma ident_codec: "strict_codec put_string (get_string [] kMaxIdentifierBytes) short_id_text"
  using ident.strict_codec_axioms by (simp add: short_id_text_def [abs_def])

interpretation hop_record: strict_codec put_hop get_hop hop_ok
proof (rule record_codec [OF pair_codec [OF ident_codec pair_codec [OF ident_codec ident_codec]]])
  show "get_hop r = apfst (\<lambda>(e, f, t). \<lparr>h_edge = e, h_from = f, h_to = t\<rparr>)
      (get_pair (get_string [] kMaxIdentifierBytes)
        (get_pair (get_string [] kMaxIdentifierBytes) (get_string [] kMaxIdentifierBytes)) r)" for r
    by (simp add: get_hop_def get_pair_def split_beta)
  show "put_hop x = (case (h_edge x, h_from x, h_to x) of (x, y) \<Rightarrow>
      put_string x @ (case y of (x, y) \<Rightarrow> put_string x @ put_string y))" for x
    by (simp add: put_hop_def)
qed (auto simp: hop_ok_def)

definition allocation_ok :: "allocation \<Rightarrow> bool" where
  "allocation_ok a \<longleftrightarrow> short_id_text (al_edge a)"

interpretation allocation_record: strict_codec put_allocation get_allocation allocation_ok
proof (rule record_codec [OF pair_codec [OF ident_codec u64.strict_codec_axioms]])
  show "get_allocation r = apfst (\<lambda>(e, p). \<lparr>al_edge = e, al_planned = p\<rparr>)
      (get_pair (get_string [] kMaxIdentifierBytes) (get_u64 0) r)" for r
    by (simp add: get_allocation_def get_pair_def split_beta)
  show "put_allocation x = (case (al_edge x, al_planned x) of (x, y) \<Rightarrow> put_string x @ put_u64 y)" for x
    by (simp add: put_allocation_def)
qed (auto simp: allocation_ok_def)

text \<open>A size that survives the trip through \<open>std::uint64_t\<close>.\<close>

definition put_size :: "nat \<Rightarrow> bytes" where
  "put_size n = put_u64 (of_nat n)"

definition get_size :: "byte_reader \<Rightarrow> nat \<times> byte_reader" where
  "get_size r = apfst unat (get_u64 0 r)"

lemma size_codec: "strict_codec put_size get_size (\<lambda>n. n < 2 ^ 64)"
proof
  show "get_size (reader_at pre (put_size x @ rest)) = (x, reader_at (pre @ put_size x) rest)"
    if "x < 2 ^ 64" for x pre rest
    using that by (simp add: get_size_def put_size_def u64.decodes)
  show "snd (get_size r) = r" if "\<not> is_ok (rd_status r)" for r
    using u64.sticky [OF that] by (simp add: get_size_def)
  fix pre bs n r
  assume "get_size (reader_at pre bs) = (n, r)" and ok: "is_ok (rd_status r)"
  then obtain w where w: "get_u64 0 (reader_at pre bs) = (w, r)" "n = unat w"
    by (cases "get_u64 0 (reader_at pre bs)") (auto simp: get_size_def)
  from u64.accepts [OF w(1) ok] w(2)
  show "\<exists>rest. bs = put_size n @ rest \<and> n < 2 ^ 64 \<and> r = reader_at (pre @ put_size n) rest"
    by (simp add: put_size_def)
qed

definition stats_ok :: "plan_stats \<Rightarrow> bool" where
  "stats_ok s \<longleftrightarrow> ps_path_count s < 2 ^ 64 \<and> ps_hop_count s < 2 ^ 64 \<and> ps_logical_edge_count s < 2 ^ 64"

interpretation stats_record: strict_codec put_stats get_stats stats_ok
proof (rule record_codec)
  note w = u64.strict_codec_axioms
  show "strict_codec (\<lambda>(a, z). put_u64 a @ (\<lambda>(b, z). put_u64 b @ (\<lambda>(c, z). put_size c @
      (\<lambda>(d, z). put_size d @ (\<lambda>(e, f). put_size e @ put_u64 f) z) z) z) z)
      (get_pair (get_u64 0) (get_pair (get_u64 0) (get_pair get_size (get_pair get_size (get_pair get_size (get_u64 0))))))
      (\<lambda>(a, z). True \<and> (\<lambda>(b, z). True \<and> (\<lambda>(c, z). c < 2 ^ 64 \<and> (\<lambda>(d, z). d < 2 ^ 64 \<and>
         (\<lambda>(e, f). e < 2 ^ 64 \<and> True) z) z) z) z)"
    by (intro pair_codec w size_codec)
  show "get_stats r = apfst (\<lambda>(a, b, c, d, e, f). \<lparr>ps_total_cost = a, ps_max_path_cost = b,
      ps_path_count = c, ps_hop_count = d, ps_logical_edge_count = e, ps_bottleneck = f\<rparr>)
      (get_pair (get_u64 0) (get_pair (get_u64 0) (get_pair get_size (get_pair get_size
         (get_pair get_size (get_u64 0))))) r)" for r
    by (simp add: get_stats_def get_pair_def get_size_def split_beta)
  show "put_stats x = (\<lambda>(a, z). put_u64 a @ (\<lambda>(b, z). put_u64 b @ (\<lambda>(c, z). put_size c @
      (\<lambda>(d, z). put_size d @ (\<lambda>(e, f). put_size e @ put_u64 f) z) z) z) z)
      (ps_total_cost x, ps_max_path_cost x, ps_path_count x, ps_hop_count x, ps_logical_edge_count x,
       ps_bottleneck x)" for x
    by (simp add: put_stats_def put_size_def)
qed (auto simp: stats_ok_def)

lemma evidence_of_value_inverse [simp]: "evidence_of_value (evidence_value c) = c"
  by (cases c) (simp_all add: evidence_of_value_def)

lemma evidence_value_le: "evidence_value c \<le> 2"
  by (cases c) (simp_all add: word_le_nat_alt)

lemma small_byte_cases:
  assumes "(v :: u8) \<le> 4"
  obtains "v = 0" | "v = 1" | "v = 2" | "v = 3" | "v = 4"
proof -
  have "unat v \<le> 4" using assms by (simp add: word_le_nat_alt)
  then have "unat v = 0 \<or> unat v = 1 \<or> unat v = 2 \<or> unat v = 3 \<or> unat v = 4" by linarith
  then show thesis using that by (elim disjE) (simp_all add: word_unat_eq_iff)
qed

lemma evidence_value_inverse: "(v :: u8) \<le> 2 \<Longrightarrow> evidence_value (evidence_of_value v) = v"
  by (rule small_byte_cases [of v]) (auto simp: evidence_of_value_def word_le_nat_alt)

lemma collective_kind_of_value_inverse [simp]: "collective_kind_of_value (collective_kind_value k) = k"
  by (cases k) (simp_all add: collective_kind_of_value_def)

lemma collective_kind_value_le: "collective_kind_value k \<le> 4"
  by (cases k) (simp_all add: word_le_nat_alt)

lemma collective_kind_value_inverse:
  "(v :: u8) \<le> 4 \<Longrightarrow> collective_kind_value (collective_kind_of_value v) = v"
  by (erule small_byte_cases) (auto simp: collective_kind_of_value_def)

section \<open>Paths\<close>

definition path_ok :: "path_plan \<Rightarrow> bool" where
  "path_ok p \<longleftrightarrow> short_id_text (pp_src p) \<and> short_id_text (pp_dst p) \<and>
     length (pp_hops p) \<le> kMaxHops \<and> list_all hop_ok (pp_hops p) \<and>
     length (pp_signature p) \<le> kMaxFailureDomains \<and> list_all short_id_text (pp_signature p)"

text \<open>The raw fields of one path, with the evidence class still a byte.\<close>

definition put_path_fields where
  "put_path_fields = (\<lambda>(i, z). put_u64 i @ (\<lambda>(l, z). put_u64 l @ (\<lambda>(s, z). put_string s @
     (\<lambda>(d, z). put_string d @ (\<lambda>(st, z). put_u32 st @ (\<lambda>(hs, z). put_list put_hop hs @
     (\<lambda>(c, z). put_u64 c @ (\<lambda>(b, z). put_u64 b @ (\<lambda>(sg, e). put_list put_string sg @ put_u8 e)
     z) z) z) z) z) z) z) z)"

definition get_path_fields where
  "get_path_fields = get_pair (get_u64 0) (get_pair (get_u64 0)
     (get_pair (get_string [] kMaxIdentifierBytes) (get_pair (get_string [] kMaxIdentifierBytes)
     (get_pair (get_u32 0) (get_pair (get_list kMaxHops get_hop) (get_pair (get_u64 0)
     (get_pair (get_u64 0) (get_pair
       (get_list kMaxFailureDomains (get_string [] kMaxIdentifierBytes)) (get_u8 0)))))))))"

definition path_fields_ok where
  "path_fields_ok = (\<lambda>(i :: u64, z). True \<and> (\<lambda>(l :: u64, z). True \<and> (\<lambda>(s, z). short_id_text s \<and>
     (\<lambda>(d, z). short_id_text d \<and> (\<lambda>(st :: u32, z). True \<and>
     (\<lambda>(hs, z). (length hs \<le> kMaxHops \<and> list_all hop_ok hs) \<and>
     (\<lambda>(c :: u64, z). True \<and> (\<lambda>(b :: u64, z). True \<and>
     (\<lambda>(sg, e :: u8). (length sg \<le> kMaxFailureDomains \<and> list_all short_id_text sg) \<and> True)
     z) z) z) z) z) z) z) z)"

interpretation path_fields: strict_codec put_path_fields get_path_fields path_fields_ok
  unfolding put_path_fields_def get_path_fields_def path_fields_ok_def
  by (intro pair_codec u64.strict_codec_axioms u32.strict_codec_axioms u8.strict_codec_axioms
      ident_codec list_codec hop_record.strict_codec_axioms) (simp_all add: limit_defs)

definition record_path where
  "record_path = (\<lambda>(i, l, s, d, st, hs, c, b, sg, e). \<lparr>pp_id = i, pp_logical = l, pp_src = s, pp_dst = d,
     pp_stage = st, pp_hops = hs, pp_cost = c, pp_bottleneck = b, pp_signature = sg,
     pp_evidence = evidence_of_value e\<rparr>)"

definition fields_of_path where
  "fields_of_path p = (pp_id p, pp_logical p, pp_src p, pp_dst p, pp_stage p, pp_hops p, pp_cost p,
     pp_bottleneck p, pp_signature p, evidence_value (pp_evidence p))"

definition fields_evidence where
  "fields_evidence = (\<lambda>(i, l, s, d, st, hs, c, b, sg, e). e)"

lemmas path_field_defs = record_path_def fields_of_path_def fields_evidence_def

lemma get_path_eq:
  "get_path r = (let (x, r1) = get_path_fields r in
     if fields_evidence x > evidence_value evMeasured then Inl kCorruptRecord
     else if \<not> is_ok (rd_status r1) then Inl (rd_status r1) else Inr (record_path x, r1))"
  by (simp add: get_path_def get_path_fields_def get_pair_def path_field_defs split_beta Let_def)

lemma put_path_eq: "put_path p = put_path_fields (fields_of_path p)"
  by (simp add: put_path_def put_path_fields_def path_field_defs)

lemma path_fields_inverse:
  "record_path (fields_of_path p) = p" "fields_evidence (fields_of_path p) \<le> 2"
  "path_fields_ok (fields_of_path p) \<longleftrightarrow> path_ok p"
  using evidence_value_le [of "pp_evidence p"]
  by (auto simp: path_field_defs path_fields_ok_def path_ok_def)

lemma fields_of_record_path:
  "\<not> fields_evidence x > evidence_value evMeasured \<Longrightarrow> fields_of_path (record_path x) = x"
  by (auto simp: path_field_defs evidence_value_inverse split_beta not_less)

lemma get_path_iff:
  "get_path (reader_at pre bs) = Inr (p, r) \<longleftrightarrow>
   path_ok p \<and> (\<exists>rest. bs = put_path p @ rest \<and> r = reader_at (pre @ put_path p) rest)" (is "?L \<longleftrightarrow> ?R")
proof
  assume ?L
  then obtain x where x: "get_path_fields (reader_at pre bs) = (x, r)" "is_ok (rd_status r)"
    "\<not> fields_evidence x > evidence_value evMeasured" "p = record_path x"
    by (auto simp: get_path_eq Let_def split: prod.splits if_splits)
  from path_fields.accepts [OF x(1,2)] show ?R
    by (metis fields_of_record_path path_fields_inverse(3) put_path_eq x(3,4))
next
  assume ?R
  then show ?L
    by (auto simp: get_path_eq put_path_eq path_fields.decodes path_fields_inverse leD)
qed

lemma get_path_stuck: "\<not> is_ok (rd_status r) \<Longrightarrow> \<exists>e. get_path r = Inl e"
  using path_fields.sticky [of r] by (auto simp: get_path_eq Let_def split_beta)

lemma get_paths_iff:
  "get_paths n (reader_at pre bs) = Inr (ps, r) \<longleftrightarrow>
   length ps = n \<and> list_all path_ok ps \<and>
   (\<exists>rest. bs = concat (map put_path ps) @ rest \<and> r = reader_at (pre @ concat (map put_path ps)) rest)"
proof (induction n arbitrary: pre bs ps)
  case 0
  then show ?case by auto
next
  case (Suc n)
  show ?case (is "?L \<longleftrightarrow> ?R")
  proof
    assume ?L
    then obtain p r1 qs where p: "get_path (reader_at pre bs) = Inr (p, r1)"
      and qs: "get_paths n r1 = Inr (qs, r)" "ps = p # qs"
      by (auto split: sum.splits prod.splits)
    from p obtain rest where rest: "path_ok p" "bs = put_path p @ rest" "r1 = reader_at (pre @ put_path p) rest"
      by (auto simp: get_path_iff)
    with qs Suc.IH [of "pre @ put_path p" rest qs] show ?R by auto
  next
    assume R: ?R
    then obtain p qs where ps: "ps = p # qs" by (cases ps) auto
    with R obtain rest where
      rest: "bs = put_path p @ (concat (map put_path qs) @ rest)"
        "r = reader_at ((pre @ put_path p) @ concat (map put_path qs)) rest" "path_ok p" "list_all path_ok qs"
        "length qs = n" by auto
    then have "get_path (reader_at pre bs) = Inr (p, reader_at (pre @ put_path p) (concat (map put_path qs) @ rest))"
      by (simp add: get_path_iff)
    moreover have "get_paths n (reader_at (pre @ put_path p) (concat (map put_path qs) @ rest)) = Inr (qs, r)"
      using Suc.IH rest by auto
    ultimately show ?L by (simp add: ps)
  qed
qed

lemma get_paths_stuck:
  "\<not> is_ok (rd_status r) \<Longrightarrow> get_paths n r = Inr (ps, r1) \<Longrightarrow> r1 = r"
  using get_path_stuck [of r] by (cases n) auto

section \<open>The whole record\<close>

definition plan_record_ok :: "plan \<Rightarrow> bool" where
  "plan_record_ok p \<longleftrightarrow> pl_id p = pl_input_digest p \<and>
     length (pl_input_digest p) = kDigestBytes \<and> \<not> is_zero (pl_input_digest p) \<and>
     short_id_text (pl_collective p) \<and> pl_stage_count p \<noteq> 0 \<and> unat (pl_stage_count p) \<le> kMaxStages \<and>
     length (pl_stages p) \<le> kMaxStages \<and> list_all stage_ok (pl_stages p) \<and>
     length (pl_paths p) \<le> kMaxLogicalEdges \<and> list_all path_ok (pl_paths p) \<and>
     length (pl_allocations p) \<le> kMaxEdges \<and> list_all allocation_ok (pl_allocations p) \<and>
     stats_ok (pl_stats p) \<and> ps_path_count (pl_stats p) = length (pl_paths p)"

interpretation tag: strict_codec put_string "get_string [] 64" "\<lambda>s. length s \<le> 64"
  by (rule string_codec) simp

interpretation digest_field: strict_codec put_digest "get_digest out" "\<lambda>d. length d = kDigestBytes"
proof (rule codec_keep_on_error [OF digest.strict_codec_axioms])
  show "get_digest out r = (if is_ok (rd_status (snd (get_digest [] r))) then get_digest [] r
      else (out, snd (get_digest [] r)))" for r
    by (simp add: get_digest_def split_beta Let_def)
qed

interpretation stage_count_field: strict_codec put_u32 "get_u32 out" "\<lambda>_. True"
proof (rule codec_keep_on_error [OF u32.strict_codec_axioms])
  show "get_u32 out r = (if is_ok (rd_status (snd (get_u32 0 r))) then get_u32 0 r
      else (out, snd (get_u32 0 r)))" for r
    by (simp add: get_u32_def split_beta Let_def)
qed

lemma count_codec:
  assumes "max_count < 2 ^ 32"
  shows "strict_codec (\<lambda>n. put_u32 (of_nat n)) (\<lambda>r. apfst unat (get_count 0 max_count r)) (\<lambda>n. n \<le> max_count)"
proof
  show "apfst unat (get_count 0 max_count (reader_at pre (put_u32 (of_nat n) @ rest))) =
      (n, reader_at (pre @ put_u32 (of_nat n)) rest)" if "n \<le> max_count" for n pre rest
    using that assms by (simp add: get_count_def u32.decodes)
  show "snd (apfst unat (get_count 0 max_count r)) = r" if "\<not> is_ok (rd_status r)" for r
    using u32.sticky [OF that] that by (simp add: get_count_def split_beta)
  fix pre bs n r
  assume *: "apfst unat (get_count 0 max_count (reader_at pre bs)) = (n, r)" and ok: "is_ok (rd_status r)"
  obtain w r1 where w: "get_u32 0 (reader_at pre bs) = (w, r1)" by fastforce
  from * ok w have "n = unat w" "r1 = r" "unat w \<le> max_count"
    by (auto simp: get_count_def split: if_splits)
  with u32.accepts [OF w] ok
  show "\<exists>rest. bs = put_u32 (of_nat n) @ rest \<and> n \<le> max_count \<and> r = reader_at (pre @ put_u32 (of_nat n)) rest"
    by auto
qed

interpretation path_total: strict_codec "\<lambda>n. put_u32 (of_nat n)"
    "\<lambda>r. apfst unat (get_count 0 kMaxLogicalEdges r)" "\<lambda>n. n \<le> kMaxLogicalEdges"
  by (rule count_codec) (simp add: limit_defs)

interpretation stage_list: strict_codec "put_list put_stage" "get_list kMaxStages get_stage"
    "\<lambda>xs. length xs \<le> kMaxStages \<and> list_all stage_ok xs"
  by (rule list_codec [OF stage_record.strict_codec_axioms]) (simp add: limit_defs)

interpretation allocation_list: strict_codec "put_list put_allocation" "get_list kMaxEdges get_allocation"
    "\<lambda>xs. length xs \<le> kMaxEdges \<and> list_all allocation_ok xs"
  by (rule list_codec [OF allocation_record.strict_codec_axioms]) (simp add: limit_defs)

lemma plan_decode_encode:
  assumes "plan_record_ok p" and "length (plan_encode p) \<le> kMaxPlanRecordBytes"
  shows "plan_decode (plan_encode p) = Inr p"
proof -
  note ok = assms(1) [unfolded plan_record_ok_def]
  have paths: "get_paths (length (pl_paths p)) (reader_at pre (concat (map put_path (pl_paths p)) @ rest)) =
      Inr (pl_paths p, reader_at (pre @ concat (map put_path (pl_paths p))) rest)" for pre rest
    using ok by (auto simp: get_paths_iff)
  have total: "get_count 0 kMaxLogicalEdges (reader_at pre (put_u32 (of_nat (length (pl_paths p))) @ rest)) =
      (of_nat (length (pl_paths p)), reader_at (pre @ put_u32 (of_nat (length (pl_paths p)))) rest)" for pre rest
    using ok by (simp add: get_count_def u32.decodes limit_defs)
  have small: "unat (of_nat (length (pl_paths p)) :: u32) = length (pl_paths p)"
    using ok by (simp add: limit_defs)
  note step = tag.decodes u16.decodes digest_field.decodes u64.decodes bindings_record.decodes ident_codec
    stage_count_field.decodes stage_list.decodes allocation_list.decodes stats_record.decodes u8.decodes
    codec.decodes [OF strict_codec.axioms(1) [OF ident_codec]]
  have size: "\<not> length (plan_encode p) > kMaxPlanRecordBytes" using assms(2) by simp
  have bytes: "plan_encode p = put_string ''cpath.plan.v1'' @ put_u16 kCanonicalFormatVersion
     @ put_digest (pl_input_digest p) @ put_u64 (pl_generation p) @ encode_bindings (pl_bindings p)
     @ put_string (pl_collective p) @ put_u8 (collective_kind_value (pl_kind p))
     @ put_u32 (pl_stage_count p) @ put_list put_stage (pl_stages p)
     @ put_u32 (of_nat (length (pl_paths p))) @ concat (map put_path (pl_paths p))
     @ put_list put_allocation (pl_allocations p) @ put_stats (pl_stats p)
     @ put_u8 (evidence_value (pl_evidence p))"
    by (simp add: plan_encode_def put_tagged_def put_list_def [of put_path])
  show ?thesis
    unfolding plan_decode_def if_not_P [OF size] new_reader_at
    using ok collective_kind_value_le [of "pl_kind p"] evidence_value_le [of "pl_evidence p"]
    by (simp add: bytes step total small paths u8.decodes_last require_end_def leD)
qed

text \<open>A read that ends without an error started without one.\<close>

lemma read_started_ok:
  assumes "strict_codec enc dec ok" "dec r = (x, r1)" "is_ok (rd_status r1)"
  shows "is_ok (rd_status r)"
  using strict_codec.sticky [OF assms(1), of r] assms(2,3) by fastforce

text \<open>A reader without an error and the bytes it still has in front of it.\<close>

definition positioned :: "byte_reader \<Rightarrow> bool" where
  "positioned r \<longleftrightarrow> (\<exists>pre bs. r = reader_at pre bs)"

definition ahead :: "byte_reader \<Rightarrow> bytes" where
  "ahead r = drop (rd_offset r) (rd_data r)"

lemma ahead_reader_at [simp]: "ahead (reader_at pre bs) = bs"
  by (simp add: ahead_def)

lemma positioned_start: "positioned (reader_at [] bs)"
  by (auto simp: positioned_def)

lemma read_step:
  assumes "strict_codec enc dec ok" "dec r = (x, r1)" "positioned r" "is_ok (rd_status r1)"
  shows "ahead r = enc x @ ahead r1" "ok x" "positioned r1"
  using strict_codec.accepts [OF assms(1)] assms(2-4) by (fastforce simp: positioned_def)+

lemma get_paths_step:
  assumes "get_paths n r = Inr (ps, r1)" "positioned r"
  shows "ahead r = concat (map put_path ps) @ ahead r1" "length ps = n" "list_all path_ok ps" "positioned r1"
  using assms by (fastforce simp: positioned_def get_paths_iff)+

lemma plan_decode_steps:
  assumes "plan_decode bs = Inr p"
  obtains r1 r2 r3 r4 r5 r6 r7 r8 r9 r10 r11 r12 r13 r14 kind path_total weakest where
    "length bs \<le> kMaxPlanRecordBytes"
    "get_string [] 64 (reader_at [] bs) = (''cpath.plan.v1'', r1)"
    "get_u16 0 r1 = (kCanonicalFormatVersion, r2)" "is_ok (rd_status r2)"
    "get_digest (replicate kDigestBytes 0) r2 = (pl_input_digest p, r3)"
    "get_u64 0 r3 = (pl_generation p, r4)" "decode_bindings no_bindings r4 = (pl_bindings p, r5)"
    "is_ok (rd_status r5)"
    "get_string [] kMaxIdentifierBytes r5 = (pl_collective p, r6)" "get_u8 0 r6 = (kind, r7)"
    "kind \<le> 4" "pl_kind p = collective_kind_of_value kind"
    "get_u32 1 r7 = (pl_stage_count p, r8)" "pl_stage_count p \<noteq> 0" "unat (pl_stage_count p) \<le> kMaxStages"
    "get_list kMaxStages get_stage r8 = (pl_stages p, r9)"
    "get_count 0 kMaxLogicalEdges r9 = (path_total, r10)"
    "get_paths (unat path_total) r10 = Inr (pl_paths p, r11)"
    "get_list kMaxEdges get_allocation r11 = (pl_allocations p, r12)" "get_stats r12 = (pl_stats p, r13)"
    "get_u8 0 r13 = (weakest, r14)" "weakest \<le> 2" "pl_evidence p = evidence_of_value weakest"
    "is_ok (rd_status r14)" "at_end r14" "length (pl_paths p) = ps_path_count (pl_stats p)"
    "\<not> is_zero (pl_input_digest p)" "pl_id p = pl_input_digest p"
  using assms unfolding plan_decode_def new_reader_at
  by (auto simp: Let_def require_end_def not_less split: prod.splits if_splits sum.splits)

lemma plan_decode_accepts:
  assumes "plan_decode bs = Inr p"
  shows "plan_record_ok p \<and> bs = plan_encode p \<and> length bs \<le> kMaxPlanRecordBytes"
  using assms
proof (rule plan_decode_steps)
  fix r1 r2 r3 r4 r5 r6 r7 r8 r9 r10 r11 r12 r13 r14 and kind weakest :: u8 and path_count :: u32
  assume size: "length bs \<le> kMaxPlanRecordBytes"
    and s1: "get_string [] 64 (reader_at [] bs) = (''cpath.plan.v1'', r1)"
    and s2: "get_u16 0 r1 = (kCanonicalFormatVersion, r2)" and o2: "is_ok (rd_status r2)"
    and s3: "get_digest (replicate kDigestBytes 0) r2 = (pl_input_digest p, r3)"
    and s4: "get_u64 0 r3 = (pl_generation p, r4)" and s5: "decode_bindings no_bindings r4 = (pl_bindings p, r5)"
    and o5: "is_ok (rd_status r5)"
    and s6: "get_string [] kMaxIdentifierBytes r5 = (pl_collective p, r6)" and s7: "get_u8 0 r6 = (kind, r7)"
    and kind: "kind \<le> 4" "pl_kind p = collective_kind_of_value kind"
    and s8: "get_u32 1 r7 = (pl_stage_count p, r8)"
    and stages: "pl_stage_count p \<noteq> 0" "unat (pl_stage_count p) \<le> kMaxStages"
    and s9: "get_list kMaxStages get_stage r8 = (pl_stages p, r9)"
    and s10: "get_count 0 kMaxLogicalEdges r9 = (path_count, r10)"
    and s11: "get_paths (unat path_count) r10 = Inr (pl_paths p, r11)"
    and s12: "get_list kMaxEdges get_allocation r11 = (pl_allocations p, r12)"
    and s13: "get_stats r12 = (pl_stats p, r13)" and s14: "get_u8 0 r13 = (weakest, r14)"
    and weakest: "weakest \<le> 2" "pl_evidence p = evidence_of_value weakest"
    and o14: "is_ok (rd_status r14)" and last: "at_end r14"
    and rest: "length (pl_paths p) = ps_path_count (pl_stats p)" "\<not> is_zero (pl_input_digest p)"
      "pl_id p = pl_input_digest p"
  have s10': "apfst unat (get_count 0 kMaxLogicalEdges r9) = (unat path_count, r10)" by (simp add: s10)
  have o13: "is_ok (rd_status r13)" by (rule read_started_ok [OF u8.strict_codec_axioms s14 o14])
  have o12: "is_ok (rd_status r12)" by (rule read_started_ok [OF stats_record.strict_codec_axioms s13 o13])
  have o11: "is_ok (rd_status r11)" by (rule read_started_ok [OF allocation_list.strict_codec_axioms s12 o12])
  have o10: "is_ok (rd_status r10)" using get_paths_stuck [OF _ s11] o11 by auto
  have o9: "is_ok (rd_status r9)" by (rule read_started_ok [OF path_total.strict_codec_axioms s10' o10])
  have o8: "is_ok (rd_status r8)" by (rule read_started_ok [OF stage_list.strict_codec_axioms s9 o9])
  have o7: "is_ok (rd_status r7)" by (rule read_started_ok [OF stage_count_field.strict_codec_axioms s8 o8])
  have o6: "is_ok (rd_status r6)" by (rule read_started_ok [OF u8.strict_codec_axioms s7 o7])
  have o4: "is_ok (rd_status r4)" by (rule read_started_ok [OF bindings_record.strict_codec_axioms s5 o5])
  have o3: "is_ok (rd_status r3)" by (rule read_started_ok [OF u64.strict_codec_axioms s4 o4])
  have o1: "is_ok (rd_status r1)" by (rule read_started_ok [OF u16.strict_codec_axioms s2 o2])
  note 1 = read_step [OF tag.strict_codec_axioms s1 positioned_start o1]
  note 2 = read_step [OF u16.strict_codec_axioms s2 1(3) o2]
  note 3 = read_step [OF digest_field.strict_codec_axioms s3 2(3) o3]
  note 4 = read_step [OF u64.strict_codec_axioms s4 3(3) o4]
  note 5 = read_step [OF bindings_record.strict_codec_axioms s5 4(3) o5]
  note 6 = read_step [OF ident_codec s6 5(3) o6]
  note 7 = read_step [OF u8.strict_codec_axioms s7 6(3) o7]
  note 8 = read_step [OF stage_count_field.strict_codec_axioms s8 7(3) o8]
  note 9 = read_step [OF stage_list.strict_codec_axioms s9 8(3) o9]
  note 10 = read_step [OF path_total.strict_codec_axioms s10' 9(3) o10]
  note 11 = get_paths_step [OF s11 10(3)]
  note 12 = read_step [OF allocation_list.strict_codec_axioms s12 11(4) o12]
  note 13 = read_step [OF stats_record.strict_codec_axioms s13 12(3) o13]
  note 14 = read_step [OF u8.strict_codec_axioms s14 13(3) o14]
  have "ahead r14 = []" using 14(3) last by (auto simp: positioned_def)
  with 1(1) have "bs = plan_encode p"
    by (simp add: 2(1) 3(1) 4(1) 5(1) 6(1) 7(1) 8(1) 9(1) 10(1) 11(1) 12(1) 13(1) 14(1) plan_encode_def
        put_tagged_def put_list_def [of put_path] 11(2) kind(2) weakest(2)
        collective_kind_value_inverse [OF kind(1)] evidence_value_inverse [OF weakest(1)])
  moreover have "plan_record_ok p"
    using 3(2) 6(2) 9(2) 10(2) 11(2,3) 12(2) 13(2) rest stages by (simp add: plan_record_ok_def)
  ultimately show ?thesis using size by simp
qed

lemma plan_decode_iff:
  "plan_decode bs = Inr p \<longleftrightarrow>
   plan_record_ok p \<and> bs = plan_encode p \<and> length bs \<le> kMaxPlanRecordBytes"
  using plan_decode_accepts plan_decode_encode by blast

section \<open>Properties of the record and of freshness\<close>

text \<open>
  C18: the plan decoder accepts exactly the canonical encodings. It returns a plan precisely when
  the bytes are the encoding of that plan, fit the record bound, and the plan is one a record can
  hold: every count inside its limit, a stage count from 1 to 64, identity equal to a non-zero
  32-byte input digest, and a path count that matches its statistics.
\<close>

theorem plan_decode_exact:
  "plan_decode bs = Inr p \<longleftrightarrow>
   plan_record_ok p \<and> bs = plan_encode p \<and> length bs \<le> kMaxPlanRecordBytes"
  by (rule plan_decode_iff)

end
