(* ===== verification/PlanCheck.thy ===== *)
theory PlanCheck
  imports Plan
begin

text \<open>
  The structural proof obligations of a plan (\<open>validate_plan\<close> of \<open>src/plan.cpp\<close> and
  \<open>hops_are_simple\<close> of \<open>src/planner.cpp\<close>), in the order the code checks them, and the
  declarative meaning of the verdict: \<open>plan_conforms\<close> says what an accepted plan is, and the
  validator is proved to decide it.
\<close>

section \<open>Filters\<close>

definition is_forbidden_tier :: "policy \<Rightarrow> tier_id \<Rightarrow> bool" where
  "is_forbidden_tier p tier \<longleftrightarrow> id_valid tier \<and> binary_search (forbidden_tiers p) tier"

definition is_forbidden_node :: "policy \<Rightarrow> node_id \<Rightarrow> bool" where
  "is_forbidden_node p node = binary_search (forbidden_nodes p) node"

definition is_forbidden_domain :: "fabric \<Rightarrow> policy \<Rightarrow> domain_id \<Rightarrow> bool" where
  "is_forbidden_domain g p domain =
     (if \<not> id_valid domain then False
      else list_ex (\<lambda>forbidden. domain_contains g forbidden domain) (forbidden_failure_domains p))"

fun evidence_is_sufficient :: "evidence_class \<Rightarrow> evidence_requirement \<Rightarrow> bool" where
  "evidence_is_sufficient observed erAny = True"
| "evidence_is_sufficient observed erSyntheticOrBetter = (observed \<noteq> evUnknown)"
| "evidence_is_sufficient observed erMeasured = (observed = evMeasured)"

definition domain_at_level :: "fabric \<Rightarrow> domain_id \<Rightarrow> domain_kind \<Rightarrow> domain_id" where
  "domain_at_level g domain level =
     (if \<not> id_valid domain then []
      else case find (\<lambda>entry. case find_failure_domain g entry of
                        None \<Rightarrow> False | Some row \<Rightarrow> fd_kind row = level) (domain_chain g domain) of
             Some entry \<Rightarrow> entry | None \<Rightarrow> domain)"

definition binding_permits :: "fabric \<Rightarrow> endpoint_binding \<Rightarrow> edge \<Rightarrow> bool" where
  "binding_permits g b e =
     (if allowed_failure_domains b \<noteq> [] \<and>
         (\<not> id_valid (e_domain e) \<or>
          \<not> list_ex (\<lambda>allowed. domain_contains g allowed (e_domain e)) (allowed_failure_domains b)) then False
      else if allowed_tiers b \<noteq> [] \<and>
         (\<not> id_valid (e_tier e) \<or> \<not> binary_search (allowed_tiers b) (e_tier e)) then False
      else True)"

definition hops_are_simple :: "hop list \<Rightarrow> bool" where
  "hops_are_simple hops =
     (if \<not> distinct (map h_edge hops) then False
      else if \<not> distinct (map h_to hops) then False
      else if hops \<noteq> [] \<and> list_ex (\<lambda>hop. h_to hop = h_from (hd hops)) hops then False
      else True)"

section \<open>One path\<close>

text \<open>The checks of one hop; the second argument is the hop that follows it, if any.\<close>

definition check_hop ::
  "fabric \<Rightarrow> policy \<Rightarrow> endpoint_binding \<Rightarrow> endpoint_binding \<Rightarrow> hop option \<Rightarrow> hop \<Rightarrow> error_code" where
  "check_hop g p source_binding target_binding following hop =
     (case find_edge g (h_edge hop) of None \<Rightarrow> kUnknownReference
      | Some e \<Rightarrow>
          if e_from e \<noteq> h_from hop \<or> e_to e \<noteq> h_to hop then kPlanInputMismatch
          else if (case following of None \<Rightarrow> False | Some after \<Rightarrow> h_from after \<noteq> h_to hop)
            then kInconsistentMetadata
          else if is_forbidden_node p (h_from hop) \<or> is_forbidden_node p (h_to hop) then kNodeForbidden
          else if is_forbidden_tier p (e_tier e) then kTierForbidden
          else if allowed_path_tiers p \<noteq> [] \<and>
                  (\<not> id_valid (e_tier e) \<or> \<not> binary_search (allowed_path_tiers p) (e_tier e))
            then kTierForbidden
          else if is_forbidden_domain g p (e_domain e) then kFailureDomainForbidden
          else if \<not> evidence_is_sufficient (e_evidence e) (po_evidence p) then kCapacityEvidenceInsufficient
          else if e_capacity e = 0 \<and> \<not> allow_unverified_capacity p then kEdgeHasNoVerifiedCapacity
          else if e_capacity e > 0 \<and> e_reserved e \<ge> e_capacity e then kEdgeHasNoVerifiedCapacity
          else if \<not> binding_permits g source_binding e \<or> \<not> binding_permits g target_binding e
            then kEndpointIneligible
          else kOk)"

fun check_hops ::
  "fabric \<Rightarrow> policy \<Rightarrow> endpoint_binding \<Rightarrow> endpoint_binding \<Rightarrow> hop list \<Rightarrow> error_code" where
  "check_hops g p sb tb [] = kOk"
| "check_hops g p sb tb (hop # rest) =
     and_then (check_hop g p sb tb (case rest of [] \<Rightarrow> None | after # _ \<Rightarrow> Some after) hop)
              (check_hops g p sb tb rest)"

text \<open>The domains, at the diversity level, of the hops whose edge declares one.\<close>

definition hop_domain :: "fabric \<Rightarrow> policy \<Rightarrow> hop \<Rightarrow> domain_id list" where
  "hop_domain g p hop =
     (case find_edge g (h_edge hop) of None \<Rightarrow> []
      | Some e \<Rightarrow> if po_domain_diversity p \<noteq> ddNone \<and> id_valid (e_domain e)
                  then [domain_at_level g (e_domain e) (domain_diversity_level p)] else [])"

definition hop_domains :: "fabric \<Rightarrow> policy \<Rightarrow> hop list \<Rightarrow> domain_id list" where
  "hop_domains g p hops = concat (map (hop_domain g p) hops)"

text \<open>The loop that skips one occurrence of the first and one of the last domain.\<close>

fun skip_attachments :: "domain_id \<Rightarrow> domain_id \<Rightarrow> bool \<Rightarrow> bool \<Rightarrow> domain_id list \<Rightarrow> domain_id list" where
  "skip_attachments first_domain last_domain removed_first removed_last [] = []"
| "skip_attachments first_domain last_domain removed_first removed_last (d # ds) =
     (if \<not> removed_first \<and> d = first_domain
        then skip_attachments first_domain last_domain True removed_last ds
      else if \<not> removed_last \<and> d = last_domain
        then skip_attachments first_domain last_domain removed_first True ds
      else d # skip_attachments first_domain last_domain removed_first removed_last ds)"

definition signature_of :: "domain_id list \<Rightarrow> domain_id list" where
  "signature_of domains =
     sort_unique (if domains = [] then []
                  else skip_attachments (hd domains) (last domains) False False domains)"

text \<open>
  One iteration of the path loop. \<open>earlier\<close> are the paths already visited: they are what
  \<open>seen_paths\<close>, \<open>seen_logical\<close> and \<open>per_logical\<close> record.
\<close>

definition check_path :: "planning_request \<Rightarrow> nat \<Rightarrow> path_plan list \<Rightarrow> path_plan \<Rightarrow> error_code" where
  "check_path r path_total earlier path =
     (let policy = r_policy r; fabric = r_fabric r; collective = r_collective r;
          logical_index = unat (pp_logical path) in
      if pp_id path = 0 \<or> unat (pp_id path) > path_total then kInconsistentMetadata
      else if list_ex (\<lambda>q. pp_id q = pp_id path) earlier then kDuplicateIdentifier
      else if logical_index = 0 \<or> logical_index > length (logical_edges collective)
        then kInconsistentMetadata
      else let logical = logical_edges collective ! (logical_index - 1) in
      if pp_src path \<noteq> fst logical \<or> pp_dst path \<noteq> snd logical then kPlanInputMismatch
      else if pp_stage path \<noteq> logical_edge_stage collective ! (logical_index - 1)
        then kInconsistentMetadata
      else case (find_binding r (fst logical), find_binding r (snd logical)) of
        (Some sb, Some tb) \<Rightarrow>
          if length (pp_hops path) > max_hops policy then kHopLimitExceeded
          else if pp_cost path > max_path_cost policy then kCostLimitExceeded
          else if \<not> hops_are_simple (pp_hops path) then kInconsistentMetadata
          else if pp_hops path = [] \<and> b_node sb \<noteq> b_node tb then kInconsistentMetadata
          else if pp_hops path \<noteq> [] \<and> h_from (hd (pp_hops path)) \<noteq> b_node sb then kPlanInputMismatch
          else if pp_hops path \<noteq> [] \<and> h_to (last (pp_hops path)) \<noteq> b_node tb then kPlanInputMismatch
          else and_then (check_hops fabric policy sb tb (pp_hops path))
           (let domains = hop_domains fabric policy (pp_hops path) in
            if signature_of domains \<noteq> pp_signature path then kInconsistentMetadata
            else if po_domain_diversity policy = ddRequired \<and>
                    length (filter (\<lambda>q. pp_logical q = pp_logical path) (earlier @ [path])) > 1 \<and>
                    length (pp_hops path) > 0 \<and> length domains \<noteq> length (pp_hops path)
              then kDomainDiversityUnsatisfiable
            else kOk)
      | _ \<Rightarrow> kUnboundParticipant)"

fun check_paths :: "planning_request \<Rightarrow> nat \<Rightarrow> path_plan list \<Rightarrow> path_plan list \<Rightarrow> error_code" where
  "check_paths r path_total earlier [] = kOk"
| "check_paths r path_total earlier (path # rest) =
     and_then (check_path r path_total earlier path) (check_paths r path_total (earlier @ [path]) rest)"

section \<open>Siblings, stages, allocations, statistics\<close>

definition check_sibling_pair :: "policy \<Rightarrow> path_plan \<Rightarrow> path_plan \<Rightarrow> error_code" where
  "check_sibling_pair p lhs rhs =
     (if po_disjointness p \<noteq> djNone \<and>
         list_ex (\<lambda>left. list_ex (\<lambda>right. h_edge left = h_edge right) (pp_hops rhs)) (pp_hops lhs)
        then kInsufficientDisjointPaths
      else if po_disjointness p = djNode \<and>
         list_ex (\<lambda>left. list_ex (\<lambda>right. h_to left = h_to right) (butlast (pp_hops rhs)))
                 (butlast (pp_hops lhs))
        then kInsufficientDisjointPaths
      else if po_domain_diversity p = ddRequired \<and> pp_hops lhs \<noteq> [] \<and> pp_hops rhs \<noteq> [] \<and>
         list_ex (\<lambda>domain. binary_search (pp_signature rhs) domain) (pp_signature lhs)
        then kDomainDiversityUnsatisfiable
      else kOk)"

fun check_sibling_pairs :: "policy \<Rightarrow> path_plan list \<Rightarrow> error_code" where
  "check_sibling_pairs p [] = kOk"
| "check_sibling_pairs p (lhs # rest) =
     and_then (first_error (check_sibling_pair p lhs) rest) (check_sibling_pairs p rest)"

definition check_siblings :: "policy \<Rightarrow> path_plan list \<Rightarrow> nat \<Rightarrow> error_code" where
  "check_siblings p paths logical_index =
     (let siblings = filter (\<lambda>q. unat (pp_logical q) = logical_index) paths in
      if siblings = [] then kPlanInputMismatch
      else if length siblings \<noteq> paths_per_logical_edge p then kPathCountUnsupported
      else check_sibling_pairs p siblings)"

definition check_stage_path :: "plan \<Rightarrow> stage \<Rightarrow> u64 \<Rightarrow> error_code" where
  "check_stage_path pl s path_id =
     (if path_id = 0 \<or> unat path_id > length (pl_paths pl) \<or>
         pp_id (pl_paths pl ! (unat path_id - 1)) \<noteq> path_id then kInconsistentMetadata
      else if pp_stage (pl_paths pl ! (unat path_id - 1)) \<noteq> st_index s then kInconsistentMetadata
      else kOk)"

definition check_stage_logical :: "collective \<Rightarrow> stage \<Rightarrow> u64 \<Rightarrow> error_code" where
  "check_stage_logical c s logical =
     (if logical = 0 \<or> unat logical > length (logical_edges c) then kInconsistentMetadata
      else if logical_edge_stage c ! (unat logical - 1) \<noteq> st_index s then kInconsistentMetadata
      else kOk)"

definition check_stage :: "collective \<Rightarrow> plan \<Rightarrow> stage \<Rightarrow> error_code" where
  "check_stage c pl s =
     (if st_index s \<ge> pl_stage_count pl then kInconsistentMetadata
      else and_then (first_error (check_stage_path pl s) (st_paths s))
                    (first_error (check_stage_logical c s) (st_logical s)))"

text \<open>
  The \<open>unordered_map\<close> from an edge to the capacity planned on it: an association list
  whose order is never used. \<open>operator[]\<close> inserts zero for an absent key.
\<close>

type_synonym tally = "(edge_id \<times> u64) list"

fun tally_add :: "u64 \<Rightarrow> edge_id \<Rightarrow> tally \<Rightarrow> tally" where
  "tally_add amount k [] = [(k, saturating_add 0 amount kCostCeiling)]"
| "tally_add amount k ((j, v) # rest) =
     (if j = k then (j, saturating_add v amount kCostCeiling) # rest else (j, v) # tally_add amount k rest)"

definition per_path_share :: "collective \<Rightarrow> policy \<Rightarrow> u64" where
  "per_path_share c p =
     (co_demand c + of_nat (paths_per_logical_edge p) - 1) div of_nat (paths_per_logical_edge p)"

definition recompute_allocations :: "collective \<Rightarrow> policy \<Rightarrow> path_plan list \<Rightarrow> tally" where
  "recompute_allocations c p paths =
     (if co_demand c > 0
      then fold (\<lambda>hop. tally_add (per_path_share c p) (h_edge hop)) (concat (map pp_hops paths)) []
      else [])"

definition check_allocation :: "fabric \<Rightarrow> tally \<Rightarrow> allocation \<Rightarrow> error_code" where
  "check_allocation g recomputed a =
     (case map_of recomputed (al_edge a) of None \<Rightarrow> kInconsistentMetadata
      | Some amount \<Rightarrow>
          if amount \<noteq> al_planned a then kInconsistentMetadata
          else case find_edge g (al_edge a) of None \<Rightarrow> kUnknownReference
          | Some e \<Rightarrow>
              if e_capacity e > 0 \<and> al_planned a > e_capacity e - e_reserved e then kInsufficientCapacity
              else kOk)"

definition check_allocations :: "planning_request \<Rightarrow> plan \<Rightarrow> error_code" where
  "check_allocations r pl =
     (let recomputed = recompute_allocations (r_collective r) (r_policy r) (pl_paths pl) in
      if adjacent_equal (sort (map al_edge (pl_allocations pl))) then kInconsistentMetadata
      else if length recomputed \<noteq> length (pl_allocations pl) then kInconsistentMetadata
      else first_error (check_allocation (r_fabric r) recomputed) (pl_allocations pl))"

record totals =
  tt_total_cost :: u64
  tt_max_cost :: u64
  tt_hop_count :: nat
  tt_bottleneck :: u64
  tt_weakest :: evidence_class
  tt_occupied :: nat

definition add_path_totals :: "path_plan \<Rightarrow> totals \<Rightarrow> totals" where
  "add_path_totals path t =
     t\<lparr>tt_total_cost := saturating_add (tt_total_cost t) (pp_cost path) kCostCeiling,
       tt_max_cost := max (tt_max_cost t) (pp_cost path),
       tt_hop_count := tt_hop_count t + length (pp_hops path),
       tt_bottleneck := (if pp_hops path \<noteq> [] then min (tt_bottleneck t) (pp_bottleneck path)
                         else tt_bottleneck t),
       tt_weakest := (if evidence_value (pp_evidence path) < evidence_value (tt_weakest t)
                      then pp_evidence path else tt_weakest t),
       tt_occupied := (if pp_hops path \<noteq> [] then tt_occupied t + 1 else tt_occupied t)\<rparr>"

definition path_totals :: "path_plan list \<Rightarrow> totals" where
  "path_totals paths =
     fold add_path_totals paths
       \<lparr>tt_total_cost = 0, tt_max_cost = 0, tt_hop_count = 0, tt_bottleneck = kCostCeiling,
        tt_weakest = evMeasured, tt_occupied = 0\<rparr>"

definition check_stats :: "planning_request \<Rightarrow> plan \<Rightarrow> error_code" where
  "check_stats r pl =
     (let t = path_totals (pl_paths pl); s = pl_stats pl;
          bottleneck = (if tt_occupied t = 0 then 0 else tt_bottleneck t) in
      if ps_total_cost s \<noteq> tt_total_cost t \<or> ps_max_path_cost s \<noteq> tt_max_cost t \<or>
         ps_hop_count s \<noteq> tt_hop_count t \<or>
         ps_logical_edge_count s \<noteq> length (logical_edges (r_collective r)) then kInconsistentMetadata
      else if ps_bottleneck s \<noteq> bottleneck then kInconsistentMetadata
      else if evidence_value (pl_evidence pl) \<noteq> evidence_value (tt_weakest t) then kInconsistentMetadata
      else kOk)"

section \<open>validate_plan()\<close>

definition check_identity :: "planning_request \<Rightarrow> plan \<Rightarrow> error_code" where
  "check_identity r pl =
     (if pl_input_digest pl \<noteq> canonical_digest r then kPlanInputMismatch
      else if pl_id pl \<noteq> pl_input_digest pl then kDigestMismatch
      else if pl_generation pl \<noteq> r_plan_generation r then kStalePlanGeneration
      else if pl_bindings pl \<noteq> current_bindings r then kGenerationRegression
      else if pl_collective pl \<noteq> co_id (r_collective r) then kPlanInputMismatch
      else if pl_kind pl \<noteq> co_kind (r_collective r) then kPlanInputMismatch
      else if pl_stage_count pl \<noteq> stage_count (r_collective r) then kPlanInputMismatch
      else if length (pl_stages pl) \<noteq> unat (pl_stage_count pl) then kInconsistentMetadata
      else kOk)"

text \<open>Everything after the identity of the plan.\<close>

definition check_contents :: "planning_request \<Rightarrow> plan \<Rightarrow> error_code" where
  "check_contents r pl =
     and_then (check_paths r (length (pl_paths pl)) [] (pl_paths pl))
    (and_then (first_error (check_siblings (r_policy r) (pl_paths pl))
                 [1..<length (logical_edges (r_collective r)) + 1])
    (and_then (first_error (check_stage (r_collective r) pl) (pl_stages pl))
    (and_then (check_allocations r pl) (check_stats r pl))))"

definition validate_plan :: "plan \<Rightarrow> planning_request \<Rightarrow> error_code" where
  "validate_plan pl r = and_then (check_identity r pl) (check_contents r pl)"

section \<open>What an accepted plan is\<close>

text \<open>A hop sequence that leads from one node to another along edges of the fabric.\<close>

fun fabric_walk :: "fabric \<Rightarrow> node_id \<Rightarrow> hop list \<Rightarrow> node_id \<Rightarrow> bool" where
  "fabric_walk g a [] b \<longleftrightarrow> a = b"
| "fabric_walk g a (h # hs) b \<longleftrightarrow>
     h_from h = a \<and> (\<exists>e\<in>set (edges g). e_id e = h_edge h \<and> e_from e = h_from h \<and> e_to e = h_to h) \<and>
     fabric_walk g (h_to h) hs b"

text \<open>What the policy and the two bindings of a logical edge demand of an edge that carries it.\<close>

definition edge_permitted ::
  "fabric \<Rightarrow> policy \<Rightarrow> endpoint_binding \<Rightarrow> endpoint_binding \<Rightarrow> edge \<Rightarrow> bool" where
  "edge_permitted g p sb tb e \<longleftrightarrow>
     e_from e \<notin> set (forbidden_nodes p) \<and> e_to e \<notin> set (forbidden_nodes p) \<and>
     e_tier e \<notin> set (forbidden_tiers p) \<and>
     (allowed_path_tiers p = [] \<or> e_tier e \<in> set (allowed_path_tiers p)) \<and>
     (\<forall>f\<in>set (forbidden_failure_domains p). \<not> domain_contains g f (e_domain e)) \<and>
     evidence_is_sufficient (e_evidence e) (po_evidence p) \<and>
     (if e_capacity e = 0 then allow_unverified_capacity p else e_reserved e < e_capacity e) \<and>
     (\<forall>b\<in>{sb, tb}.
        (allowed_failure_domains b = [] \<or>
         (\<exists>a\<in>set (allowed_failure_domains b). domain_contains g a (e_domain e))) \<and>
        (allowed_tiers b = [] \<or> e_tier e \<in> set (allowed_tiers b)))"

definition path_conforms :: "planning_request \<Rightarrow> path_plan \<Rightarrow> bool" where
  "path_conforms r path \<longleftrightarrow>
     0 < unat (pp_logical path) \<and> unat (pp_logical path) \<le> length (logical_edges (r_collective r)) \<and>
     logical_edges (r_collective r) ! (unat (pp_logical path) - 1) = (pp_src path, pp_dst path) \<and>
     pp_stage path = logical_edge_stage (r_collective r) ! (unat (pp_logical path) - 1) \<and>
     length (pp_hops path) \<le> max_hops (r_policy r) \<and> pp_cost path \<le> max_path_cost (r_policy r) \<and>
     pp_signature path = signature_of (hop_domains (r_fabric r) (r_policy r) (pp_hops path)) \<and>
     (\<exists>sb\<in>set (r_bindings r). \<exists>tb\<in>set (r_bindings r).
        b_participant sb = pp_src path \<and> b_participant tb = pp_dst path \<and>
        fabric_walk (r_fabric r) (b_node sb) (pp_hops path) (b_node tb) \<and>
        distinct (b_node sb # map h_to (pp_hops path)) \<and>
        (\<forall>hop\<in>set (pp_hops path). \<forall>e\<in>set (edges (r_fabric r)).
           e_id e = h_edge hop \<longrightarrow> edge_permitted (r_fabric r) (r_policy r) sb tb e))"

section \<open>Filters decide their meaning\<close>

lemma request_wfD:
  assumes "request_wf r"
  shows "collective_wf (r_collective r)" "fabric_wf (r_fabric r)" "is_ok (policy_validate (r_policy r))"
    "strictly_increasing (map b_participant (r_bindings r))"
    "\<And>b. b \<in> set (r_bindings r) \<Longrightarrow> binding_ok b"
    "\<And>b. b \<in> set (r_bindings r) \<Longrightarrow> binding_references_ok (r_collective r) (r_fabric r) b"
  using assms by (simp_all add: request_wf_def)

lemma identifiers_exclude_empty: "list_all is_valid_identifier xs \<Longrightarrow> x \<in> set xs \<Longrightarrow> id_valid x"
  by (auto simp: list_all_iff dest: is_valid_identifier_nonempty)

lemma domain_contains_valid: "domain_contains g a d \<Longrightarrow> id_valid a \<and> id_valid d"
  by (simp add: domain_contains_def split: if_splits)

lemma is_forbidden_iff:
  assumes "is_ok (policy_validate p)"
  shows "is_forbidden_tier p t \<longleftrightarrow> t \<in> set (forbidden_tiers p)"
    "is_forbidden_node p n \<longleftrightarrow> n \<in> set (forbidden_nodes p)"
    "is_forbidden_domain g p d \<longleftrightarrow> (\<exists>f\<in>set (forbidden_failure_domains p). domain_contains g f d)"
    "(\<not> id_valid t \<or> \<not> binary_search (allowed_path_tiers p) t) \<longleftrightarrow> t \<notin> set (allowed_path_tiers p)"
  using policy_validateD [OF assms]
  by (auto simp: is_forbidden_tier_def is_forbidden_node_def is_forbidden_domain_def list_ex_iff
      binary_search_iff strictly_increasingD identifiers_exclude_empty dest: domain_contains_valid)

lemma binding_permits_iff:
  assumes "binding_ok b" "binding_references_ok c g b"
  shows "binding_permits g b e \<longleftrightarrow>
    (allowed_failure_domains b = [] \<or> (\<exists>a\<in>set (allowed_failure_domains b). domain_contains g a (e_domain e))) \<and>
    (allowed_tiers b = [] \<or> e_tier e \<in> set (allowed_tiers b))"
proof -
  have "id_valid t" if "t \<in> set (allowed_tiers b)" for t
    using that assms(2) is_valid_tier_name_identifier is_valid_identifier_nonempty
    by (auto simp: binding_references_ok_def list_all_iff)
  with assms(1) show ?thesis
    by (auto simp: binding_permits_def binding_ok_def list_ex_iff binary_search_iff strictly_increasingD
        dest: domain_contains_valid)
qed

text \<open>A guard that returns an error, read as a condition of success.\<close>

lemma is_ok_guard: "n \<noteq> 0 \<Longrightarrow> is_ok (if c then ErrorCode n else x) \<longleftrightarrow> \<not> c \<and> is_ok x"
  by simp

lemma check_hop_iff:
  assumes wf: "request_wf r" and b: "sb \<in> set (r_bindings r)" "tb \<in> set (r_bindings r)"
  shows "is_ok (check_hop (r_fabric r) (r_policy r) sb tb following hop) \<longleftrightarrow>
    (\<exists>e\<in>set (edges (r_fabric r)). e_id e = h_edge hop \<and> e_from e = h_from hop \<and> e_to e = h_to hop \<and>
       edge_permitted (r_fabric r) (r_policy r) sb tb e) \<and>
    (\<forall>after. following = Some after \<longrightarrow> h_from after = h_to hop)"
proof (cases "find_edge (r_fabric r) (h_edge hop)")
  case None
  then show ?thesis
    using find_edge_iff [OF request_wfD(2) [OF wf], of "h_edge hop"] by (auto simp: check_hop_def)
next
  case (Some e)
  note edge = find_edge_iff [OF request_wfD(2) [OF wf], of "h_edge hop"]
  have one: "(\<exists>e'\<in>set (edges (r_fabric r)). e_id e' = h_edge hop \<and> P e') \<longleftrightarrow> P e" for P
    using Some edge by (metis option.inject)
  have cap: "\<not> (e_capacity e = 0 \<and> \<not> allow_unverified_capacity (r_policy r)) \<and>
      \<not> (0 < e_capacity e \<and> e_capacity e \<le> e_reserved e) \<longleftrightarrow>
      (if e_capacity e = 0 then allow_unverified_capacity (r_policy r) else e_reserved e < e_capacity e)"
    by (auto simp: word_gt_0 not_le)
  have next_ok: "\<not> (case following of None \<Rightarrow> False | Some after \<Rightarrow> h_from after \<noteq> h_to hop) \<longleftrightarrow>
      (\<forall>after. following = Some after \<longrightarrow> h_from after = h_to hop)"
    by (cases following) auto
  note bp = binding_permits_iff [OF request_wfD(5,6) [OF wf b(1)], of e]
    binding_permits_iff [OF request_wfD(5,6) [OF wf b(2)], of e]
  let ?fr = "\<lambda>a. a \<notin> set (forbidden_nodes (r_policy r))"
  have "is_ok (check_hop (r_fabric r) (r_policy r) sb tb following hop) \<longleftrightarrow>
      e_from e = h_from hop \<and> e_to e = h_to hop \<and>
      (\<forall>after. following = Some after \<longrightarrow> h_from after = h_to hop) \<and> ?fr (h_from hop) \<and> ?fr (h_to hop) \<and>
      e_tier e \<notin> set (forbidden_tiers (r_policy r)) \<and>
      (allowed_path_tiers (r_policy r) = [] \<or> e_tier e \<in> set (allowed_path_tiers (r_policy r))) \<and>
      (\<forall>f\<in>set (forbidden_failure_domains (r_policy r)). \<not> domain_contains (r_fabric r) f (e_domain e)) \<and>
      evidence_is_sufficient (e_evidence e) (po_evidence (r_policy r)) \<and>
      (if e_capacity e = 0 then allow_unverified_capacity (r_policy r) else e_reserved e < e_capacity e) \<and>
      binding_permits (r_fabric r) sb e \<and> binding_permits (r_fabric r) tb e"
    unfolding check_hop_def Some option.case is_forbidden_iff [OF request_wfD(3) [OF wf]]
      next_ok [symmetric] cap [symmetric]
    by (simp only: is_ok_guard numeral_neq_zero not_False_eq_True is_ok_code) blast
  note ok = this [unfolded bp]
  show ?thesis
  proof (cases "e_from e = h_from hop \<and> e_to e = h_to hop \<and>
      (\<forall>after. following = Some after \<longrightarrow> h_from after = h_to hop)")
    case True
    then show ?thesis
      unfolding one ok edge_permitted_def by (simp split del: if_split)
  next
    case False
    then show ?thesis unfolding one ok by blast
  qed
qed

section \<open>Paths\<close>

lemma check_hops_iff:
  assumes "request_wf r" "sb \<in> set (r_bindings r)" "tb \<in> set (r_bindings r)"
  shows "is_ok (check_hops (r_fabric r) (r_policy r) sb tb (hop # rest)) \<longleftrightarrow>
    fabric_walk (r_fabric r) (h_from hop) (hop # rest) (h_to (last (hop # rest))) \<and>
    (\<forall>h\<in>set (hop # rest). \<forall>e\<in>set (edges (r_fabric r)).
       e_id e = h_edge h \<longrightarrow> edge_permitted (r_fabric r) (r_policy r) sb tb e)"
proof (induction rest arbitrary: hop)
  have one: "(\<exists>e\<in>set (edges (r_fabric r)). e_id e = k \<and> P e \<and> Q e \<and> R e) \<longleftrightarrow>
      (\<exists>e\<in>set (edges (r_fabric r)). e_id e = k \<and> P e \<and> Q e) \<and>
      (\<forall>e\<in>set (edges (r_fabric r)). e_id e = k \<longrightarrow> R e)" for k P Q R
    using find_edge_iff [OF request_wfD(2) [OF assms(1)], of k] by (metis option.inject)
  note hop_iff = check_hop_iff [OF assms]
  case Nil
  then show ?case by (simp add: hop_iff one)
  case (Cons after rest)
  then show ?case by (simp add: hop_iff one) blast
qed

lemma walk_start: "fabric_walk g a (h # hs) b \<Longrightarrow> h_from h = a"
  by simp

lemma walk_end: "fabric_walk g a hs b \<Longrightarrow> hs \<noteq> [] \<Longrightarrow> h_to (last hs) = b"
  by (induction hs arbitrary: a) (auto split: if_splits)

lemma walk_edge:
  "fabric_walk g a hs b \<Longrightarrow> h \<in> set hs \<Longrightarrow>
   \<exists>e\<in>set (edges g). e_id e = h_edge h \<and> e_from e = h_from h \<and> e_to e = h_to h"
  by (induction hs arbitrary: a) auto

text \<open>In a walk, an edge taken twice would enter the same node twice.\<close>

lemma walk_distinct_edges:
  assumes "fabric_wf g" "fabric_walk g a hs b" "distinct (map h_to hs)"
  shows "distinct (map h_edge hs)"
proof -
  have "inj_on h_edge (set hs)"
  proof (rule inj_onI)
    fix x y
    assume xy: "x \<in> set hs" "y \<in> set hs" "h_edge x = h_edge y"
    with walk_edge [OF assms(2)] find_edge_iff [OF assms(1)] have "h_to x = h_to y"
      by (metis option.inject)
    with xy assms(3) show "x = y" by (auto simp: distinct_map dest: inj_onD)
  qed
  with assms(3) show ?thesis by (auto simp: distinct_map)
qed

lemma simple_walk_iff:
  assumes "fabric_wf g"
  shows "hops_are_simple hs \<and> (hs = [] \<longrightarrow> a = b) \<and> (hs \<noteq> [] \<longrightarrow> h_from (hd hs) = a) \<and>
      (hs \<noteq> [] \<longrightarrow> h_to (last hs) = b) \<and> (hs \<noteq> [] \<longrightarrow> fabric_walk g (h_from (hd hs)) hs (h_to (last hs))) \<longleftrightarrow>
    fabric_walk g a hs b \<and> distinct (a # map h_to hs)"
proof (cases hs)
  case Nil
  then show ?thesis by (simp add: hops_are_simple_def)
next
  case (Cons h rest)
  then have *: "hs \<noteq> []" "hd hs = h" by simp_all
  have "hops_are_simple hs \<longleftrightarrow> distinct (map h_edge hs) \<and> distinct (h_from h # map h_to hs)"
    by (auto simp: hops_are_simple_def list_ex_iff *) (metis image_eqI)
  then show ?thesis
    using walk_start [of g a h rest b] walk_end [of g a hs b] walk_distinct_edges [OF assms, of _ hs]
    unfolding Cons [symmetric] * by auto
qed

definition domains_declared :: "fabric \<Rightarrow> hop list \<Rightarrow> bool" where
  "domains_declared g hops \<longleftrightarrow>
     (\<forall>hop\<in>set hops. \<forall>e\<in>set (edges g). e_id e = h_edge hop \<longrightarrow> id_valid (e_domain e))"

lemma length_hop_domains_le: "length (hop_domains g p hops) \<le> length hops"
proof (induction hops)
  case (Cons h hs)
  have "length (hop_domain g p h) \<le> 1" by (simp add: hop_domain_def split: option.split)
  with Cons show ?case by (simp add: hop_domains_def)
qed (simp add: hop_domains_def)

lemma hop_domains_complete:
  assumes "fabric_wf g" "po_domain_diversity p \<noteq> ddNone" "fabric_walk g a hops b"
  shows "length (hop_domains g p hops) = length hops \<longleftrightarrow> domains_declared g hops"
  using assms(3)
proof (induction hops arbitrary: a)
  case Nil
  then show ?case by (simp add: hop_domains_def domains_declared_def)
next
  case (Cons h hs)
  then obtain e where e: "find_edge g (h_edge h) = Some e" by (auto simp: find_edge_iff [OF assms(1)])
  then have "length (hop_domain g p h) = (if id_valid (e_domain e) then 1 else 0)"
    using assms(2) by (simp add: hop_domain_def)
  moreover have "(\<forall>e\<in>set (edges g). e_id e = h_edge h \<longrightarrow> id_valid (e_domain e)) \<longleftrightarrow> id_valid (e_domain e)"
    using e find_edge_iff [OF assms(1), of "h_edge h"] by (metis option.inject)
  ultimately show ?case
    using Cons length_hop_domains_le [of g p hs] by (auto simp: hop_domains_def domains_declared_def)
qed

text \<open>What one iteration demands beyond the path itself: a fresh identity in range, and, under
  required diversity, declared domains on every path that follows a sibling.\<close>

definition path_fits :: "planning_request \<Rightarrow> nat \<Rightarrow> path_plan list \<Rightarrow> path_plan \<Rightarrow> bool" where
  "path_fits r n earlier path \<longleftrightarrow>
     0 < unat (pp_id path) \<and> unat (pp_id path) \<le> n \<and> pp_id path \<notin> pp_id ` set earlier \<and>
     (po_domain_diversity (r_policy r) = ddRequired \<and> pp_logical path \<in> pp_logical ` set earlier \<longrightarrow>
        domains_declared (r_fabric r) (pp_hops path))"

lemma check_path_bound_iff:
  assumes wf: "request_wf r" and b: "sb \<in> set (r_bindings r)" "tb \<in> set (r_bindings r)"
  shows "is_ok (if length hops > max_hops (r_policy r) then kHopLimitExceeded
          else if cost > max_path_cost (r_policy r) then kCostLimitExceeded
          else if \<not> hops_are_simple hops then kInconsistentMetadata
          else if hops = [] \<and> b_node sb \<noteq> b_node tb then kInconsistentMetadata
          else if hops \<noteq> [] \<and> h_from (hd hops) \<noteq> b_node sb then kPlanInputMismatch
          else if hops \<noteq> [] \<and> h_to (last hops) \<noteq> b_node tb then kPlanInputMismatch
          else and_then (check_hops (r_fabric r) (r_policy r) sb tb hops) rest) \<longleftrightarrow>
    length hops \<le> max_hops (r_policy r) \<and> cost \<le> max_path_cost (r_policy r) \<and>
    fabric_walk (r_fabric r) (b_node sb) hops (b_node tb) \<and> distinct (b_node sb # map h_to hops) \<and>
    (\<forall>hop\<in>set hops. \<forall>e\<in>set (edges (r_fabric r)).
       e_id e = h_edge hop \<longrightarrow> edge_permitted (r_fabric r) (r_policy r) sb tb e) \<and> is_ok rest"
proof -
  let ?adm = "\<forall>hop\<in>set hops. \<forall>e\<in>set (edges (r_fabric r)).
       e_id e = h_edge hop \<longrightarrow> edge_permitted (r_fabric r) (r_policy r) sb tb e"
  have hops: "is_ok (check_hops (r_fabric r) (r_policy r) sb tb hops) \<longleftrightarrow>
      (hops \<noteq> [] \<longrightarrow> fabric_walk (r_fabric r) (h_from (hd hops)) hops (h_to (last hops))) \<and> ?adm"
  proof (cases hops)
    case (Cons h hs)
    show ?thesis unfolding Cons check_hops_iff [OF wf b] by simp
  qed simp
  have "is_ok (if length hops > max_hops (r_policy r) then kHopLimitExceeded
          else if cost > max_path_cost (r_policy r) then kCostLimitExceeded
          else if \<not> hops_are_simple hops then kInconsistentMetadata
          else if hops = [] \<and> b_node sb \<noteq> b_node tb then kInconsistentMetadata
          else if hops \<noteq> [] \<and> h_from (hd hops) \<noteq> b_node sb then kPlanInputMismatch
          else if hops \<noteq> [] \<and> h_to (last hops) \<noteq> b_node tb then kPlanInputMismatch
          else and_then (check_hops (r_fabric r) (r_policy r) sb tb hops) rest) \<longleftrightarrow>
      length hops \<le> max_hops (r_policy r) \<and> cost \<le> max_path_cost (r_policy r) \<and>
      (hops_are_simple hops \<and> (hops = [] \<longrightarrow> b_node sb = b_node tb) \<and>
       (hops \<noteq> [] \<longrightarrow> h_from (hd hops) = b_node sb) \<and> (hops \<noteq> [] \<longrightarrow> h_to (last hops) = b_node tb) \<and>
       (hops \<noteq> [] \<longrightarrow> fabric_walk (r_fabric r) (h_from (hd hops)) hops (h_to (last hops)))) \<and> ?adm \<and> is_ok rest"
    by (simp only: is_ok_guard numeral_neq_zero not_False_eq_True and_then_ok hops not_less one_neq_zero) blast
  then show ?thesis unfolding simple_walk_iff [OF request_wfD(2) [OF wf]] by blast
qed

lemma check_path_iff:
  assumes wf: "request_wf r"
  shows "is_ok (check_path r n earlier path) \<longleftrightarrow> path_conforms r path \<and> path_fits r n earlier path"
proof (cases "0 < unat (pp_logical path) \<and> unat (pp_logical path) \<le> length (logical_edges (r_collective r)) \<and>
    logical_edges (r_collective r) ! (unat (pp_logical path) - 1) = (pp_src path, pp_dst path)")
  case False
  then show ?thesis
    by (simp add: check_path_def path_conforms_def Let_def is_ok_guard prod_eq_iff split del: if_split
        del: not_gr_zero) auto
next
  case True
  note find = find_binding_iff [OF request_wfD(4) [OF wf]]
  show ?thesis
  proof (cases "\<exists>sb tb. find_binding r (pp_src path) = Some sb \<and> find_binding r (pp_dst path) = Some tb")
    case False
    then have "\<not> path_conforms r path" unfolding path_conforms_def find by blast
    moreover have "\<not> is_ok (check_path r n earlier path)"
      using True False
      by (cases "find_binding r (pp_src path)"; cases "find_binding r (pp_dst path)")
         (simp_all add: check_path_def Let_def is_ok_guard split del: if_split)
    ultimately show ?thesis by blast
  next
    case bound: True
    then obtain sb tb where sb: "find_binding r (pp_src path) = Some sb"
      and tb: "find_binding r (pp_dst path) = Some tb" by blast
    then have in_set: "sb \<in> set (r_bindings r)" "tb \<in> set (r_bindings r)"
      and parts: "b_participant sb = pp_src path" "b_participant tb = pp_dst path" by (simp_all add: find)
    have uniq: "(\<exists>s\<in>set (r_bindings r). \<exists>t\<in>set (r_bindings r). b_participant s = pp_src path \<and>
        b_participant t = pp_dst path \<and> P s t) \<longleftrightarrow> P sb tb" for P
      using sb tb find by (metis option.inject)
    have ids: "pp_id path = 0 \<longleftrightarrow> unat (pp_id path) = 0" by (simp add: unat_eq_zero)
    have declared: "length (hop_domains (r_fabric r) (r_policy r) (pp_hops path)) = length (pp_hops path) \<longleftrightarrow>
        domains_declared (r_fabric r) (pp_hops path)"
      if "po_domain_diversity (r_policy r) = ddRequired"
        "fabric_walk (r_fabric r) (b_node sb) (pp_hops path) (b_node tb)"
      using hop_domains_complete [OF request_wfD(2) [OF wf] _ that(2)] that(1) by simp
    have empty: "domains_declared (r_fabric r) (pp_hops path)" if "pp_hops path = []"
      using that by (simp add: domains_declared_def)
    have sibs: "filter (\<lambda>q. pp_logical q = pp_logical path) earlier = [] \<longleftrightarrow>
        pp_logical path \<notin> pp_logical ` set earlier"
      and seen: "list_ex (\<lambda>q. pp_id q = pp_id path) earlier \<longleftrightarrow> pp_id path \<in> pp_id ` set earlier"
      by (auto simp: filter_empty_conv list_ex_iff image_iff) metis+
    have "is_ok (check_path r n earlier path) \<longleftrightarrow>
        0 < unat (pp_id path) \<and> unat (pp_id path) \<le> n \<and> pp_id path \<notin> pp_id ` set earlier \<and>
        pp_stage path = logical_edge_stage (r_collective r) ! (unat (pp_logical path) - 1) \<and>
        (length (pp_hops path) \<le> max_hops (r_policy r) \<and> pp_cost path \<le> max_path_cost (r_policy r) \<and>
         fabric_walk (r_fabric r) (b_node sb) (pp_hops path) (b_node tb) \<and>
         distinct (b_node sb # map h_to (pp_hops path)) \<and>
         (\<forall>hop\<in>set (pp_hops path). \<forall>e\<in>set (edges (r_fabric r)).
            e_id e = h_edge hop \<longrightarrow> edge_permitted (r_fabric r) (r_policy r) sb tb e) \<and>
         (pp_signature path = signature_of (hop_domains (r_fabric r) (r_policy r) (pp_hops path)) \<and>
          \<not> (po_domain_diversity (r_policy r) = ddRequired \<and> pp_logical path \<in> pp_logical ` set earlier \<and>
             pp_hops path \<noteq> [] \<and>
             length (hop_domains (r_fabric r) (r_policy r) (pp_hops path)) \<noteq> length (pp_hops path))))"
      using True
      by (simp add: check_path_def Let_def sb tb check_path_bound_iff [OF wf in_set] sibs seen ids is_ok_guard
          not_less conj_ac eq_commute [of _ "pp_signature path"] del: distinct.simps split del: if_split)
    then show ?thesis
      unfolding path_conforms_def path_fits_def uniq using True declared empty by blast
  qed
qed

section \<open>The path loop\<close>

lemma check_paths_iff:
  assumes wf: "request_wf r"
  shows "is_ok (check_paths r n earlier paths) \<longleftrightarrow>
    (\<forall>path\<in>set paths. path_conforms r path) \<and>
    (\<forall>i<length paths. path_fits r n (earlier @ take i paths) (paths ! i))"
proof (induction paths arbitrary: earlier)
  case (Cons path rest)
  have "(\<forall>i<length (path # rest). path_fits r n (earlier @ take i (path # rest)) ((path # rest) ! i)) \<longleftrightarrow>
      path_fits r n earlier path \<and>
      (\<forall>i<length rest. path_fits r n ((earlier @ [path]) @ take i rest) (rest ! i))"
    by (auto simp: less_Suc_eq_0_disj)
  with Cons show ?case by (auto simp: check_path_iff [OF wf])
qed simp

text \<open>Distinct identities in range are exactly the identities \<open>1\<close> to the number of paths.\<close>

definition path_ids_ok :: "path_plan list \<Rightarrow> bool" where
  "path_ids_ok paths \<longleftrightarrow> distinct (map pp_id paths) \<and>
     (\<forall>path\<in>set paths. 0 < unat (pp_id path) \<and> unat (pp_id path) \<le> length paths)"

text \<open>Under required diversity, every path that follows a sibling declares all its domains.\<close>

definition later_siblings_declared :: "planning_request \<Rightarrow> path_plan list \<Rightarrow> bool" where
  "later_siblings_declared r paths \<longleftrightarrow>
     (po_domain_diversity (r_policy r) = ddRequired \<longrightarrow>
       (\<forall>j<length paths. \<forall>i<j. pp_logical (paths ! i) = pp_logical (paths ! j) \<longrightarrow>
          domains_declared (r_fabric r) (pp_hops (paths ! j))))"

lemma image_take_iff:
  "j \<le> length xs \<Longrightarrow> y \<in> f ` set (take j xs) \<longleftrightarrow> (\<exists>i<j. f (xs ! i) = y)"
  by (auto simp flip: nth_image)

lemma fits_iff:
  "(\<forall>i<length paths. path_fits r (length paths) (take i paths) (paths ! i)) \<longleftrightarrow>
   path_ids_ok paths \<and> later_siblings_declared r paths"
proof -
  note in_take = image_take_iff [OF less_imp_le]
  have "distinct (map pp_id paths) \<longleftrightarrow> (\<forall>j<length paths. pp_id (paths ! j) \<notin> pp_id ` set (take j paths))"
    by (auto simp: in_take distinct_conv_nth) (metis linorder_neqE_nat)
  moreover have "later_siblings_declared r paths \<longleftrightarrow> (\<forall>j<length paths.
      po_domain_diversity (r_policy r) = ddRequired \<and> pp_logical (paths ! j) \<in> pp_logical ` set (take j paths) \<longrightarrow>
      domains_declared (r_fabric r) (pp_hops (paths ! j)))"
    by (auto simp: in_take later_siblings_declared_def)
  ultimately show ?thesis
    by (auto simp: path_fits_def path_ids_ok_def all_set_conv_all_nth)
qed

section \<open>Siblings\<close>

definition siblings_of :: "path_plan list \<Rightarrow> nat \<Rightarrow> path_plan list" where
  "siblings_of paths l = filter (\<lambda>path. unat (pp_logical path) = l) paths"

definition siblings_independent :: "policy \<Rightarrow> path_plan \<Rightarrow> path_plan \<Rightarrow> bool" where
  "siblings_independent p a b \<longleftrightarrow>
     (po_disjointness p \<noteq> djNone \<longrightarrow> h_edge ` set (pp_hops a) \<inter> h_edge ` set (pp_hops b) = {}) \<and>
     (po_disjointness p = djNode \<longrightarrow>
        h_to ` set (butlast (pp_hops a)) \<inter> h_to ` set (butlast (pp_hops b)) = {}) \<and>
     (po_domain_diversity p = ddRequired \<and> pp_hops a \<noteq> [] \<and> pp_hops b \<noteq> [] \<longrightarrow>
        set (pp_signature a) \<inter> set (pp_signature b) = {})"

lemma check_sibling_pair_iff:
  assumes "sorted (pp_signature b)"
  shows "is_ok (check_sibling_pair p a b) \<longleftrightarrow> siblings_independent p a b"
proof -
  have "list_ex (\<lambda>x. list_ex (\<lambda>y. f x = f y) ys) xs \<longleftrightarrow> f ` set xs \<inter> f ` set ys \<noteq> {}"
    for f :: "hop \<Rightarrow> string" and xs ys by (auto simp: list_ex_iff)
  moreover have "list_ex (binary_search (pp_signature b)) (pp_signature a) \<longleftrightarrow>
      set (pp_signature a) \<inter> set (pp_signature b) \<noteq> {}"
    by (auto simp: list_ex_iff binary_search_iff [OF assms])
  ultimately show ?thesis
    by (simp add: check_sibling_pair_def is_ok_guard siblings_independent_def split del: if_split) blast
qed

lemma check_sibling_pairs_iff:
  "\<forall>path\<in>set paths. sorted (pp_signature path) \<Longrightarrow>
   is_ok (check_sibling_pairs p paths) \<longleftrightarrow> sorted_wrt (siblings_independent p) paths"
  by (induction paths) (auto simp: first_error_ok check_sibling_pair_iff)

lemma check_siblings_iff:
  assumes "\<forall>path\<in>set paths. sorted (pp_signature path)" "0 < paths_per_logical_edge p"
  shows "is_ok (check_siblings p paths l) \<longleftrightarrow>
    length (siblings_of paths l) = paths_per_logical_edge p \<and>
    sorted_wrt (siblings_independent p) (siblings_of paths l)"
proof -
  have "\<forall>path\<in>set (siblings_of paths l). sorted (pp_signature path)"
    using assms(1) by (simp add: siblings_of_def)
  from check_sibling_pairs_iff [OF this] assms(2) show ?thesis
    by (auto simp: check_siblings_def Let_def siblings_of_def [symmetric])
qed

section \<open>Stages\<close>

definition stage_conforms :: "collective \<Rightarrow> path_plan list \<Rightarrow> u32 \<Rightarrow> stage \<Rightarrow> bool" where
  "stage_conforms c paths total_stages s \<longleftrightarrow> st_index s < total_stages \<and>
     (\<forall>k\<in>set (st_paths s). \<exists>i<length paths. unat k = i + 1 \<and> pp_id (paths ! i) = k \<and>
        pp_stage (paths ! i) = st_index s) \<and>
     (\<forall>k\<in>set (st_logical s). \<exists>i<length (logical_edges c). unat k = i + 1 \<and>
        logical_edge_stage c ! i = st_index s)"

lemma one_based:
  "\<not> (k = (0 :: u64) \<or> unat k > n) \<and> P (unat k - 1) \<longleftrightarrow> (\<exists>i<n. unat k = i + 1 \<and> P i)"
proof
  assume "\<not> (k = 0 \<or> unat k > n) \<and> P (unat k - 1)"
  moreover from this have "0 < unat k" by (simp add: unat_gt_0)
  ultimately show "\<exists>i<n. unat k = i + 1 \<and> P i"
    by (intro exI [of _ "unat k - 1"]) auto
qed auto

lemma check_stage_iff:
  "is_ok (check_stage c pl s) \<longleftrightarrow> stage_conforms c (pl_paths pl) (pl_stage_count pl) s"
proof -
  have "is_ok (check_stage_path pl s k) \<longleftrightarrow> (\<exists>i<length (pl_paths pl). unat k = i + 1 \<and>
      pp_id (pl_paths pl ! i) = k \<and> pp_stage (pl_paths pl ! i) = st_index s)" for k
    unfolding one_based [symmetric] by (auto simp: check_stage_path_def)
  moreover have "is_ok (check_stage_logical c s k) \<longleftrightarrow> (\<exists>i<length (logical_edges c). unat k = i + 1 \<and>
      logical_edge_stage c ! i = st_index s)" for k
    unfolding one_based [symmetric] by (auto simp: check_stage_logical_def)
  ultimately show ?thesis
    by (simp add: check_stage_def first_error_ok stage_conforms_def is_ok_guard not_le split del: if_split)
qed

section \<open>Allocations\<close>

text \<open>How often the hops of a plan use an edge.\<close>

definition edge_uses :: "path_plan list \<Rightarrow> edge_id \<Rightarrow> nat" where
  "edge_uses paths k = count_list (map h_edge (concat (map pp_hops paths))) k"

lemma tally_add_keys: "fst ` set (tally_add a k t) = insert k (fst ` set t)"
  by (induction a k t rule: tally_add.induct) auto

lemma tally_add_distinct: "distinct (map fst t) \<Longrightarrow> distinct (map fst (tally_add a k t))"
proof (induction a k t rule: tally_add.induct)
  case (2 a k j v rest)
  then show ?case using tally_add_keys [of a k rest] by (auto simp: image_iff)
qed simp

lemma map_of_tally_add:
  "map_of (tally_add a k t) j =
   (if j = k then Some (saturating_add (case map_of t k of None \<Rightarrow> 0 | Some v \<Rightarrow> v) a kCostCeiling)
    else map_of t j)"
  by (induction a k t rule: tally_add.induct) auto

lemma tally_fold:
  defines "tally hs a \<equiv> fold (\<lambda>hop. tally_add a (h_edge hop)) hs []"
  shows "distinct (map fst (tally hs a))" "fst ` set (tally hs a) = h_edge ` set hs"
    "map_option unat (map_of (tally hs a) k) =
       (if k \<in> h_edge ` set hs
        then Some (min (unat kCostCeiling) (count_list (map h_edge hs) k * unat a)) else None)"
proof (induction hs rule: rev_induct)
  case Nil
  { case 1 show ?case by (simp add: tally_def) }
  { case 2 show ?case by (simp add: tally_def) }
  { case 3 show ?case by (simp add: tally_def) }
next
  case (snoc h hs)
  have step: "tally (hs @ [h]) a = tally_add a (h_edge h) (tally hs a)" by (simp add: tally_def)
  { case 1 show ?case using snoc(1) by (simp add: step tally_add_distinct) }
  { case 2 show ?case using snoc(2) by (simp add: step tally_add_keys) }
  { case 3
    have sat: "unat (saturating_add v a kCostCeiling) = min (unat kCostCeiling) (unat v + unat a)" for v
      by (rule unat_saturating_add)
    show ?case
    proof (cases "k = h_edge h")
      case True
      with snoc(3) show ?thesis
        by (cases "map_of (tally hs a) k")
           (auto simp: step map_of_tally_add sat count_list_append add_mult_distrib split: if_splits)
    next
      case False
      with snoc(3) show ?thesis by (auto simp: step map_of_tally_add count_list_append)
    qed }
qed

definition allocations_conform :: "planning_request \<Rightarrow> plan \<Rightarrow> bool" where
  "allocations_conform r pl \<longleftrightarrow>
     distinct (map al_edge (pl_allocations pl)) \<and>
     al_edge ` set (pl_allocations pl) =
       (if co_demand (r_collective r) > 0 then {k. edge_uses (pl_paths pl) k > 0} else {}) \<and>
     (\<forall>a\<in>set (pl_allocations pl).
        unat (al_planned a) = min (unat kCostCeiling)
          (edge_uses (pl_paths pl) (al_edge a) * unat (per_path_share (r_collective r) (r_policy r))) \<and>
        (\<forall>e\<in>set (edges (r_fabric r)). e_id e = al_edge a \<longrightarrow> e_capacity e > 0 \<longrightarrow>
           al_planned a \<le> e_capacity e - e_reserved e))"

lemma option_unat_iff:
  "map_option unat x = (if c then Some m else None) \<Longrightarrow> x = Some (v :: u64) \<longleftrightarrow> c \<and> unat v = m"
  by (cases x) (auto simp: word_unat_eq_iff split: if_splits)

lemma check_allocation_iff:
  assumes "fabric_wf g" "fst ` set t \<subseteq> e_id ` set (edges g)"
  shows "is_ok (check_allocation g t a) \<longleftrightarrow> map_of t (al_edge a) = Some (al_planned a) \<and>
    (\<forall>e\<in>set (edges g). e_id e = al_edge a \<longrightarrow> e_capacity e > 0 \<longrightarrow> al_planned a \<le> e_capacity e - e_reserved e)"
proof (cases "map_of t (al_edge a)")
  case None
  then show ?thesis by (simp add: check_allocation_def)
next
  case (Some amount)
  then have "al_edge a \<in> fst ` set t" by (metis domI dom_map_of_conv_image_fst)
  with assms(2) obtain e where e: "e \<in> set (edges g)" "e_id e = al_edge a" by force
  then have find: "find_edge g (al_edge a) = Some e" by (simp add: find_edge_iff [OF assms(1)])
  have "e' = e" if "e' \<in> set (edges g)" "e_id e' = al_edge a" for e'
    using that find find_edge_iff [OF assms(1), of "al_edge a" e'] by simp
  with e have "(\<forall>e\<in>set (edges g). e_id e = al_edge a \<longrightarrow> e_capacity e > 0 \<longrightarrow>
      al_planned a \<le> e_capacity e - e_reserved e) \<longleftrightarrow>
      (e_capacity e > 0 \<longrightarrow> al_planned a \<le> e_capacity e - e_reserved e)" by blast
  with Some find show ?thesis by (auto simp: check_allocation_def)
qed

lemma check_allocations_iff:
  assumes wf: "fabric_wf (r_fabric r)"
    and known: "h_edge ` set (concat (map pp_hops (pl_paths pl))) \<subseteq> e_id ` set (edges (r_fabric r))"
  shows "is_ok (check_allocations r pl) \<longleftrightarrow> allocations_conform r pl"
proof -
  let ?hs = "concat (map pp_hops (pl_paths pl))" and ?al = "pl_allocations pl"
  let ?share = "per_path_share (r_collective r) (r_policy r)"
  define t where "t = recompute_allocations (r_collective r) (r_policy r) (pl_paths pl)"
  define U where "U = (if co_demand (r_collective r) > 0 then {k. edge_uses (pl_paths pl) k > 0} else {})"
  have used: "h_edge ` set ?hs = {k. edge_uses (pl_paths pl) k > 0}"
  proof -
    have "0 < count_list xs k \<longleftrightarrow> k \<in> set xs" for xs :: "edge_id list" and k
      using count_list_0_iff [of xs k] by auto
    then show ?thesis by (simp add: edge_uses_def del: set_concat)
  qed
  have keys: "fst ` set t = U" and dist: "distinct (map fst t)"
    using tally_fold(1,2) [of ?share ?hs] by (simp_all add: t_def U_def recompute_allocations_def used del: set_concat)
  have amount: "map_of t k = Some v \<longleftrightarrow> k \<in> U \<and>
      unat v = min (unat kCostCeiling) (edge_uses (pl_paths pl) k * unat ?share)" for k v
  proof -
    have "map_option unat (map_of t k) = (if k \<in> U then Some (min (unat kCostCeiling)
        (edge_uses (pl_paths pl) k * unat ?share)) else None)"
      using tally_fold(3) [of ?share ?hs k] unfolding used U_def
      by (cases "co_demand (r_collective r) > 0")
         (simp_all only: t_def recompute_allocations_def edge_uses_def if_True if_False map_of.simps
           option.map empty_iff)
    then show ?thesis by (rule option_unat_iff)
  qed
  have len: "length t = card U" using distinct_card [OF dist] by (simp only: keys length_map set_map)
  have fin: "finite U" unfolding keys [symmetric] by simp
  have sub: "fst ` set t \<subseteq> e_id ` set (edges (r_fabric r))"
    using known unfolding keys used U_def by auto
  have same: "length t = length ?al \<longleftrightarrow> al_edge ` set ?al = U"
    if "distinct (map al_edge ?al)" "al_edge ` set ?al \<subseteq> U"
  proof -
    have "length ?al = card (al_edge ` set ?al)" using distinct_card [OF that(1)] by simp
    then show ?thesis using card_subset_eq [OF fin that(2)] len by metis
  qed
  have "is_ok (check_allocations r pl) \<longleftrightarrow> distinct (map al_edge ?al) \<and> length t = length ?al \<and>
      (\<forall>a\<in>set ?al. is_ok (check_allocation (r_fabric r) t a))"
    by (simp add: check_allocations_def Let_def t_def [symmetric] adjacent_equal_sorted first_error_ok)
  also have "\<dots> \<longleftrightarrow> allocations_conform r pl"
    unfolding check_allocation_iff [OF wf sub] amount allocations_conform_def U_def [symmetric] using same by blast
  finally show ?thesis .
qed

section \<open>Statistics\<close>

definition stats_conform :: "collective \<Rightarrow> path_plan list \<Rightarrow> plan_stats \<Rightarrow> evidence_class \<Rightarrow> bool" where
  "stats_conform c paths s weakest \<longleftrightarrow>
     unat (ps_total_cost s) = min (unat kCostCeiling) (\<Sum>path\<leftarrow>paths. unat (pp_cost path)) \<and>
     ps_max_path_cost s = Max (insert 0 (pp_cost ` set paths)) \<and>
     ps_hop_count s = (\<Sum>path\<leftarrow>paths. length (pp_hops path)) \<and>
     ps_logical_edge_count s = length (logical_edges c) \<and>
     ps_bottleneck s = (let routed = {path \<in> set paths. pp_hops path \<noteq> []} in
        if routed = {} then 0 else Min (insert kCostCeiling (pp_bottleneck ` routed))) \<and>
     evidence_value weakest = Min (insert (evidence_value evMeasured) ((evidence_value \<circ> pp_evidence) ` set paths))"

lemma path_totals_snoc: "path_totals (paths @ [path]) = add_path_totals path (path_totals paths)"
  by (simp add: path_totals_def)

lemma path_totals_Nil:
  "path_totals [] = \<lparr>tt_total_cost = 0, tt_max_cost = 0, tt_hop_count = 0, tt_bottleneck = kCostCeiling,
     tt_weakest = evMeasured, tt_occupied = 0\<rparr>"
  by (simp add: path_totals_def)

lemmas path_totals_simps = path_totals_Nil path_totals_snoc add_path_totals_def

lemma totals_cost:
  "unat (tt_total_cost (path_totals paths)) = min (unat kCostCeiling) (\<Sum>path\<leftarrow>paths. unat (pp_cost path))"
  by (induction paths rule: rev_induct) (simp_all add: path_totals_simps unat_saturating_add)

lemma totals_max: "tt_max_cost (path_totals paths) = Max (insert 0 (pp_cost ` set paths))"
  by (induction paths rule: rev_induct)
     (simp_all add: path_totals_simps insert_commute [of 0] max.commute)

lemma totals_hops: "tt_hop_count (path_totals paths) = (\<Sum>path\<leftarrow>paths. length (pp_hops path))"
  by (induction paths rule: rev_induct) (simp_all add: path_totals_simps)

lemma routed_snoc:
  "{path \<in> set (paths @ [path1]). pp_hops path \<noteq> []} =
   (if pp_hops path1 \<noteq> [] then insert path1 {path \<in> set paths. pp_hops path \<noteq> []}
    else {path \<in> set paths. pp_hops path \<noteq> []})"
  by auto

lemma totals_occupied:
  "tt_occupied (path_totals paths) = 0 \<longleftrightarrow> {path \<in> set paths. pp_hops path \<noteq> []} = {}"
  by (induction paths rule: rev_induct) (simp_all only: routed_snoc, simp_all add: path_totals_simps)

lemma totals_bottleneck:
  "tt_bottleneck (path_totals paths) =
   Min (insert kCostCeiling (pp_bottleneck ` {path \<in> set paths. pp_hops path \<noteq> []}))"
proof (induction paths rule: rev_induct)
  case (snoc path paths)
  then show ?case
    unfolding routed_snoc
    by (simp add: path_totals_simps insert_commute [of kCostCeiling] min.commute)
qed (simp add: path_totals_simps)

lemma totals_weakest:
  "evidence_value (tt_weakest (path_totals paths)) =
   Min (insert (evidence_value evMeasured) ((evidence_value \<circ> pp_evidence) ` set paths))"
proof (induction paths rule: rev_induct)
  case (snoc path paths)
  have weaker: "evidence_value (if evidence_value x < evidence_value y then x else y) =
      min (evidence_value x) (evidence_value y)" for x y by (auto simp: min_def not_less dest: leD)
  have "tt_weakest (path_totals (paths @ [path])) =
      (if evidence_value (pp_evidence path) < evidence_value (tt_weakest (path_totals paths))
       then pp_evidence path else tt_weakest (path_totals paths))"
    by (simp add: path_totals_simps)
  then have "evidence_value (tt_weakest (path_totals (paths @ [path]))) =
      min (evidence_value (pp_evidence path)) (evidence_value (tt_weakest (path_totals paths)))"
    by (simp only: weaker)
  then show ?case unfolding snoc by (simp add: insert_commute [of 2])
qed (simp add: path_totals_simps)

lemmas path_totals_meaning = totals_cost totals_max totals_hops totals_occupied totals_bottleneck totals_weakest

lemma check_stats_iff:
  "is_ok (check_stats r pl) \<longleftrightarrow>
   stats_conform (r_collective r) (pl_paths pl) (pl_stats pl) (pl_evidence pl)"
  using path_totals_meaning [of "pl_paths pl"]
  by (auto simp: check_stats_def stats_conform_def Let_def word_unat_eq_iff [of "ps_total_cost (pl_stats pl)"])

section \<open>The validator decides conformance\<close>

definition plan_conforms :: "planning_request \<Rightarrow> plan \<Rightarrow> bool" where
  "plan_conforms r pl \<longleftrightarrow>
     pl_id pl = canonical_digest r \<and> pl_input_digest pl = canonical_digest r \<and>
     pl_generation pl = r_plan_generation r \<and> pl_bindings pl = current_bindings r \<and>
     pl_collective pl = co_id (r_collective r) \<and> pl_kind pl = co_kind (r_collective r) \<and>
     pl_stage_count pl = stage_count (r_collective r) \<and> length (pl_stages pl) = unat (pl_stage_count pl) \<and>
     path_ids_ok (pl_paths pl) \<and> (\<forall>path\<in>set (pl_paths pl). path_conforms r path) \<and>
     later_siblings_declared r (pl_paths pl) \<and>
     (\<forall>l. 0 < l \<and> l \<le> length (logical_edges (r_collective r)) \<longrightarrow>
        length (siblings_of (pl_paths pl) l) = paths_per_logical_edge (r_policy r) \<and>
        sorted_wrt (siblings_independent (r_policy r)) (siblings_of (pl_paths pl) l)) \<and>
     (\<forall>s\<in>set (pl_stages pl). stage_conforms (r_collective r) (pl_paths pl) (pl_stage_count pl) s) \<and>
     allocations_conform r pl \<and>
     stats_conform (r_collective r) (pl_paths pl) (pl_stats pl) (pl_evidence pl)"

lemma conforming_edges_known:
  assumes "\<forall>path\<in>set paths. path_conforms r path"
  shows "h_edge ` set (concat (map pp_hops paths)) \<subseteq> e_id ` set (edges (r_fabric r))"
proof
  fix k
  assume "k \<in> h_edge ` set (concat (map pp_hops paths))"
  then obtain path h where p: "path \<in> set paths" "h \<in> set (pp_hops path)" "k = h_edge h" by auto
  with assms obtain a b where "fabric_walk (r_fabric r) a (pp_hops path) b"
    unfolding path_conforms_def by blast
  from walk_edge [OF this p(2)] p(3) show "k \<in> e_id ` set (edges (r_fabric r))" by force
qed

lemma check_identity_iff:
  "is_ok (check_identity r pl) \<longleftrightarrow>
     pl_id pl = canonical_digest r \<and> pl_input_digest pl = canonical_digest r \<and>
     pl_generation pl = r_plan_generation r \<and> pl_bindings pl = current_bindings r \<and>
     pl_collective pl = co_id (r_collective r) \<and> pl_kind pl = co_kind (r_collective r) \<and>
     pl_stage_count pl = stage_count (r_collective r) \<and> length (pl_stages pl) = unat (pl_stage_count pl)"
  by (auto simp add: check_identity_def is_ok_guard split del: if_split)

lemma validate_plan_iff:
  assumes wf: "request_wf r"
  shows "is_ok (validate_plan pl r) \<longleftrightarrow> plan_conforms r pl"
proof (cases "\<forall>path\<in>set (pl_paths pl). path_conforms r path")
  case False
  then show ?thesis
    unfolding validate_plan_def check_contents_def and_then_ok check_paths_iff [OF wf] plan_conforms_def by blast
next
  case True
  then have sorted_sigs: "\<forall>path\<in>set (pl_paths pl). sorted (pp_signature path)"
    by (auto simp: path_conforms_def signature_of_def intro: strictly_increasingD)
  have one_to: "(\<forall>l\<in>set [1..<n + 1]. P l) \<longleftrightarrow> (\<forall>l. 0 < l \<and> l \<le> n \<longrightarrow> P l)" for n and P :: "nat \<Rightarrow> bool"
    by (auto simp: Suc_le_eq less_Suc_eq_le)
  have "is_ok (check_paths r (length (pl_paths pl)) [] (pl_paths pl)) \<longleftrightarrow>
      path_ids_ok (pl_paths pl) \<and> later_siblings_declared r (pl_paths pl)"
    unfolding check_paths_iff [OF wf] append_Nil fits_iff using True by blast
  moreover note check_siblings_iff [OF sorted_sigs policy_validateD(3) [OF request_wfD(3) [OF wf]]]
    check_allocations_iff [OF request_wfD(2) [OF wf] conforming_edges_known [OF True]]
  ultimately show ?thesis
    unfolding validate_plan_def check_contents_def and_then_ok first_error_ok check_identity_iff
      check_stage_iff check_stats_iff one_to plan_conforms_def
    using True by blast
qed

section \<open>Consequences\<close>

text \<open>The loop over the hop domains drops one occurrence of the first and one of the last.\<close>

lemma skip_attachments_done: "skip_attachments a b True True ds = ds"
  by (induction ds) auto

lemma skip_attachments_last: "skip_attachments a b True False ds = remove1 b ds"
  by (induction ds) (auto simp: skip_attachments_done)

lemma signature_interior:
  "signature_of ds = sort_unique (butlast (tl ds))"
proof (cases ds)
  case Nil
  then show ?thesis by (simp add: signature_of_def)
next
  case (Cons d rest)
  then have "signature_of ds = sort_unique (remove1 (last ds) rest)"
    by (simp add: signature_of_def skip_attachments_last)
  moreover have "set (remove1 (last ds) rest) = set (butlast rest)"
  proof (cases "rest = []")
    case False
    then have "mset (remove1 (last ds) rest) = mset (butlast rest)"
      using append_butlast_last_id [OF False] Cons
      by (metis add_mset_add_single add_mset_remove_trivial last_ConsR mset.simps(1,2) mset_append mset_remove1)
    then show ?thesis by (rule mset_eq_setD)
  qed simp
  ultimately show ?thesis by (simp add: sort_unique_eq Cons)
qed

lemma per_path_share_exact:
  assumes "collective_wf c" "is_ok (policy_validate p)"
  shows "unat (per_path_share c p) =
    (unat (co_demand c) + paths_per_logical_edge p - 1) div paths_per_logical_edge p"
proof -
  let ?k = "paths_per_logical_edge p"
  have k: "0 < ?k" "?k \<le> 8"
    using policy_validateD [OF assms(2)] by (simp_all add: limit_defs)
  have d: "unat (co_demand c) \<le> 1099511627776"
    using assms(1) by (simp add: collective_wf_def limit_defs word_le_nat_alt)
  have sum: "unat (co_demand c + of_nat ?k) = unat (co_demand c) + ?k"
    using k d by (simp add: unat_plus_no_overflow_u64)
  then have "1 \<le> co_demand c + of_nat ?k" using k by (simp add: word_le_nat_alt)
  from unat_sub [OF this] sum have "unat (co_demand c + of_nat ?k - 1) = unat (co_demand c) + ?k - 1" by simp
  then show ?thesis using k by (simp add: per_path_share_def unat_div)
qed

lemma conforming_capacity:
  assumes wf: "request_wf r" and ok: "plan_conforms r pl"
    and e: "e \<in> set (edges (r_fabric r))" "e_capacity e > 0"
  shows "unat (e_reserved e) +
    edge_uses (pl_paths pl) (e_id e) *
      ((unat (co_demand (r_collective r)) + paths_per_logical_edge (r_policy r) - 1)
         div paths_per_logical_edge (r_policy r)) \<le> unat (e_capacity e)"
proof -
  let ?uses = "edge_uses (pl_paths pl) (e_id e)"
    and ?share = "per_path_share (r_collective r) (r_policy r)"
  note share = per_path_share_exact [OF request_wfD(1,3) [OF wf]]
  have allocs: "allocations_conform r pl" using ok by (simp add: plan_conforms_def)
  have "is_ok (check_edge (r_fabric r) e)"
    using request_wfD(2) [OF wf] e(1) by (simp add: fabric_wf_def edges_ok_def)
  then have bounds: "e_reserved e \<le> e_capacity e" "e_capacity e \<le> kMaxCapacityMbps"
    by (auto simp: check_edge_def split: if_splits)
  have spare: "unat (e_capacity e - e_reserved e) = unat (e_capacity e) - unat (e_reserved e)"
    using bounds(1) by (simp add: unat_sub word_le_nat_alt)
  have "?uses * unat ?share \<le> unat (e_capacity e - e_reserved e)"
  proof (cases "?uses * unat ?share = 0")
    case False
    then have "?uses > 0" "unat ?share > 0" by auto
    moreover have "co_demand (r_collective r) \<noteq> 0"
    proof
      assume "co_demand (r_collective r) = 0"
      with share policy_validateD(3) [OF request_wfD(3) [OF wf]] have "unat ?share = 0" by simp
      with \<open>unat ?share > 0\<close> show False by simp
    qed
    ultimately have "e_id e \<in> al_edge ` set (pl_allocations pl)"
      using allocs by (simp add: allocations_conform_def word_gt_0)
    then obtain a where a: "a \<in> set (pl_allocations pl)" "al_edge a = e_id e" by auto
    with allocs e have "al_planned a \<le> e_capacity e - e_reserved e"
      "unat (al_planned a) = min (unat kCostCeiling) (?uses * unat ?share)"
      by (auto simp: allocations_conform_def)
    moreover have "unat (e_capacity e - e_reserved e) < unat kCostCeiling"
      using bounds(2) spare by (simp add: limit_defs word_le_nat_alt)
    ultimately show ?thesis by (simp add: word_le_nat_alt min_def split: if_splits)
  qed (simp only: le0)
  with share spare bounds(1) show ?thesis by (simp add: word_le_nat_alt)
qed

section \<open>A small plan\<close>

text \<open>
  A plan for the small request: two one-hop paths and two zero-hop paths, since the participants
  \<open>p1\<close> and \<open>p3\<close> are bound to the same node.
\<close>

definition plain_path :: "u64 \<Rightarrow> participant_id \<Rightarrow> participant_id \<Rightarrow> u32 \<Rightarrow> hop list \<Rightarrow> path_plan" where
  "plain_path k src dst s hops =
     \<lparr>pp_id = k, pp_logical = k, pp_src = src, pp_dst = dst, pp_stage = s, pp_hops = hops,
      pp_cost = (if hops = [] then 0 else 10), pp_bottleneck = (if hops = [] then 0 else 100),
      pp_signature = [], pp_evidence = evMeasured\<rparr>"

definition small_plan :: "digest \<Rightarrow> plan" where
  "small_plan d =
     \<lparr>pl_id = d, pl_input_digest = d, pl_generation = 7,
      pl_bindings = \<lparr>gb_topology = 1, gb_failure_domains = 1, gb_capacity_evidence = 1, gb_policy = 1,
                     gb_plan = 7\<rparr>,
      pl_collective = ''job'', pl_kind = ckHierarchical, pl_stage_count = 2,
      pl_stages = [\<lparr>st_index = 0, st_logical = [1, 3, 4], st_paths = [1, 3, 4]\<rparr>,
                   \<lparr>st_index = 1, st_logical = [2], st_paths = [2]\<rparr>],
      pl_paths = [plain_path 1 ''p1'' ''p2'' 0 [\<lparr>h_edge = ''e1'', h_from = ''a'', h_to = ''b''\<rparr>],
                  plain_path 2 ''p1'' ''p3'' 1 [],
                  plain_path 3 ''p2'' ''p3'' 0 [\<lparr>h_edge = ''e2'', h_from = ''b'', h_to = ''a''\<rparr>],
                  plain_path 4 ''p3'' ''p1'' 0 []],
      pl_allocations = [\<lparr>al_edge = ''e1'', al_planned = 10\<rparr>, \<lparr>al_edge = ''e2'', al_planned = 10\<rparr>],
      pl_stats = \<lparr>ps_total_cost = 20, ps_max_path_cost = 10, ps_path_count = 4, ps_hop_count = 2,
                  ps_logical_edge_count = 4, ps_bottleneck = 100\<rparr>,
      pl_evidence = evMeasured\<rparr>"

text \<open>Nothing but the identity check reads the digests.\<close>

lemma check_path_digest:
  "check_path (r\<lparr>canonical_digest := d, canonical_bytes := n\<rparr>) = check_path r"
proof -
  have "find_binding (r\<lparr>canonical_digest := d, canonical_bytes := n\<rparr>) = find_binding r"
    by (simp add: find_binding_def fun_eq_iff Let_def)
  then show ?thesis
    by (intro ext) (simp add: check_path_def Let_def split del: if_split cong: if_cong)
qed

lemma check_paths_digest:
  "check_paths (r\<lparr>canonical_digest := d, canonical_bytes := n\<rparr>) m earlier paths = check_paths r m earlier paths"
  by (induction paths arbitrary: earlier) (simp_all add: check_path_digest)

lemma check_contents_digest:
  fixes r :: planning_request
  shows "check_contents (r\<lparr>canonical_digest := d, canonical_bytes := n\<rparr>) (small_plan d1) =
   check_contents r (small_plan d2)"
proof -
  have same: "pl_paths (small_plan d1) = pl_paths (small_plan d2)"
    "pl_stages (small_plan d1) = pl_stages (small_plan d2)"
    "pl_stage_count (small_plan d1) = pl_stage_count (small_plan d2)"
    "pl_allocations (small_plan d1) = pl_allocations (small_plan d2)"
    "pl_stats (small_plan d1) = pl_stats (small_plan d2)"
    "pl_evidence (small_plan d1) = pl_evidence (small_plan d2)"
    by (simp_all add: small_plan_def)
  have "check_stage_path (small_plan d1) s = check_stage_path (small_plan d2) s" for s
    by (simp add: check_stage_path_def same fun_eq_iff)
  then have "check_stage c (small_plan d1) = check_stage c (small_plan d2)" for c
    by (intro ext) (simp add: check_stage_def same)
  moreover have "check_allocations (r\<lparr>canonical_digest := d, canonical_bytes := n\<rparr>) (small_plan d1) =
      check_allocations r (small_plan d2)"
    "check_stats (r\<lparr>canonical_digest := d, canonical_bytes := n\<rparr>) (small_plan d1) = check_stats r (small_plan d2)"
    by (simp_all add: check_allocations_def check_stats_def same Let_def cong: if_cong)
  ultimately show ?thesis by (simp add: check_contents_def check_paths_digest same)
qed

definition bare_request :: planning_request where
  "bare_request =
     \<lparr>r_collective = ring_collective, r_fabric = pair_fabric, r_policy = default_policy,
      r_plan_generation = 7, r_bindings = small_bindings, canonical_digest = [], canonical_bytes = 0\<rparr>"

lemma small_request_bare:
  "small_request = bare_request\<lparr>canonical_digest := canonical_digest small_request,
     canonical_bytes := canonical_bytes small_request\<rparr>"
  by (intro planning_request.equality) (simp_all add: small_request_def bare_request_def)

lemma small_plan_valid: "is_ok (validate_plan (small_plan (canonical_digest small_request)) small_request)"
proof -
  have "is_ok (check_contents bare_request (small_plan []))" by code_simp
  then have "is_ok (check_contents small_request (small_plan (canonical_digest small_request)))"
    by (subst small_request_bare) (simp only: check_contents_digest [where r = bare_request and ?d2.0 = "[]"])
  moreover have "co_id ring_collective = ''job''" "co_kind ring_collective = ckHierarchical"
    "stage_count ring_collective = 2" by code_simp+
  moreover have "topology_generation pair_fabric = 1" "failure_domain_generation pair_fabric = 1"
    "capacity_evidence_generation pair_fabric = 1" by code_simp+
  ultimately show ?thesis
    by (simp add: validate_plan_def check_identity_iff)
       (simp add: small_plan_def small_request_def current_bindings_def default_policy_def)
qed


section \<open>A request with an undeclared domain\<close>

definition open_fabric_spec :: fabric_spec where
  "open_fabric_spec =
     pair_spec\<lparr>fs_edges := [plain_edge ''e2'' ''b'' ''a'' ''rack'', plain_edge ''e1'' ''a'' ''b'' []]\<rparr>"

definition open_fabric :: fabric where
  "open_fabric = projr (fabric_build open_fabric_spec)"

definition diverse_policy :: policy where
  "diverse_policy = default_policy\<lparr>po_domain_diversity := ddRequired\<rparr>"

definition open_spec :: request_spec where
  "open_spec = small_spec\<lparr>rs_fabric := open_fabric_spec, rs_policy := diverse_policy\<rparr>"

definition open_request :: planning_request where
  "open_request = assembled_request 7 ring_collective open_fabric diverse_policy small_bindings"

definition open_bare :: planning_request where
  "open_bare = bare_request\<lparr>r_fabric := open_fabric, r_policy := diverse_policy\<rparr>"

definition open_path :: path_plan where
  "open_path = plain_path 1 ''p1'' ''p2'' 0 [\<lparr>h_edge = ''e1'', h_from = ''a'', h_to = ''b''\<rparr>]"

lemma open_request_built: "build_request open_spec = Inr open_request"
proof -
  have "\<not> isl (fabric_build open_fabric_spec)" by code_simp
  then have "fabric_build open_fabric_spec = Inr open_fabric" by (simp add: open_fabric_def)
  moreover have "is_ok (policy_validate diverse_policy)" "policy_canonicalize diverse_policy = diverse_policy"
    by code_simp+
  moreover have "canonical_bindings (rs_bindings small_spec) = Inr small_bindings" by code_simp
  moreover have "set (participants ring_collective) = {''p1'', ''p2'', ''p3''}" by code_simp
  moreover have "n_id ` set (nodes open_fabric) = {''a'', ''b''}" by code_simp
  ultimately show ?thesis
    using ring_collective_built
    by (simp add: build_request_iff small_spec_def open_spec_def open_request_def small_bindings_def
        plain_binding_def binding_references_ok_def generation_valid_def)
qed

lemma open_path_conforms: "path_conforms open_request open_path"
proof -
  have bare: "open_request = open_bare\<lparr>canonical_digest := canonical_digest open_request,
      canonical_bytes := canonical_bytes open_request\<rparr>"
    by (intro planning_request.equality) (simp_all add: open_request_def open_bare_def bare_request_def)
  have "is_ok (check_path open_bare 1 [] open_path)" by code_simp
  then have "is_ok (check_path open_request 1 [] open_path)"
    by (subst bare) (simp only: check_path_digest)
  then show ?thesis by (simp add: check_path_iff [OF build_request_wf [OF open_request_built]])
qed

section \<open>Properties\<close>



text \<open>
  C15: a validated plan never over-commits an edge: what an adjacent authority has reserved on it,
  plus one share of the demand (the demand divided by the paths per logical edge, rounded up) for
  every hop of the plan that uses it, stays within its verified capacity, as natural numbers and
  whatever the saturating arithmetic of the allocation table does.
\<close>

theorem validated_plan_respects_capacity:
  assumes "build_request spec = Inr r" "is_ok (validate_plan pl r)"
    and "e \<in> set (edges (r_fabric r))" "e_capacity e > 0"
  shows "unat (e_reserved e) +
    edge_uses (pl_paths pl) (e_id e) *
      ((unat (co_demand (r_collective r)) + paths_per_logical_edge (r_policy r) - 1)
         div paths_per_logical_edge (r_policy r)) \<le> unat (e_capacity e)"
proof -
  have wf: "request_wf r" by (rule build_request_wf [OF assms(1)])
  with assms(2-4) show ?thesis by (intro conforming_capacity) (simp_all add: validate_plan_iff)
qed

theorem validated_plan_respects_capacity_witness:
  "edge_uses (pl_paths (small_plan (canonical_digest small_request))) ''e1'' *
     ((unat (co_demand ring_collective) + 1 - 1) div 1) \<le> 100"
proof -
  let ?e = "plain_edge ''e1'' ''a'' ''b'' ''host''"
  have e: "?e \<in> set (edges pair_fabric)" "e_capacity ?e > 0" "e_capacity ?e = 100" "e_reserved ?e = 0"
    "e_id ?e = ''e1''" by code_simp+
  with validated_plan_respects_capacity [OF small_request_built small_plan_valid, of ?e]
  show ?thesis by (simp add: small_request_def default_policy_def)
qed

text \<open>
  C39: the failure-domain signature of a path is the sorted set of the domains of its interior
  hops, those strictly between the first and the last hop that declare one. An attachment domain
  is therefore not excluded as such: it stays in the signature when an interior hop lies in it too.
\<close>

theorem signature_is_interior:
  "signature_of ds = sort_unique (butlast (tl ds)) \<and>
   signature_of [a, a, b] = [a] \<and> signature_of [a, b, b] = [b] \<and> signature_of [a, c, b] = [c]"
  using signature_interior [of ds] by (simp add: signature_interior) (simp add: sort_unique_def)

text \<open>
  C40: under required domain diversity, the validator inspects undeclared domains only on paths that
  follow a sibling. Two plans that differ in the order of two sibling paths, one of which crosses an
  edge with no declared failure domain, can therefore get different verdicts: the check of a path
  that has no earlier sibling ignores whether its domains are declared, the check of a later one
  does not.
\<close>

theorem first_sibling_domains_unchecked:
  assumes "build_request spec = Inr r" "po_domain_diversity (r_policy r) = ddRequired"
    and "path_conforms r path" "0 < unat (pp_id path)" "unat (pp_id path) \<le> n"
    and "pp_id path \<notin> pp_id ` set earlier" "\<not> domains_declared (r_fabric r) (pp_hops path)"
  shows "is_ok (check_path r n earlier path) \<longleftrightarrow> pp_logical path \<notin> pp_logical ` set earlier"
  using assms(2-) by (simp add: check_path_iff [OF build_request_wf [OF assms(1)]] path_fits_def)

theorem first_sibling_domains_unchecked_witness:
  "is_ok (check_path open_request 2 [] open_path) \<and>
   \<not> is_ok (check_path open_request 2 [open_path\<lparr>pp_id := 2\<rparr>] open_path)"
proof -
  have "list_ex (\<lambda>e. e_id e = ''e1'' \<and> \<not> id_valid (e_domain e)) (edges open_fabric)" by code_simp
  then have "\<not> domains_declared (r_fabric open_request) (pp_hops open_path)"
    by (auto simp: domains_declared_def open_request_def open_path_def plain_path_def list_ex_iff)
  moreover have "po_domain_diversity (r_policy open_request) = ddRequired"
    by (simp add: open_request_def diverse_policy_def)
  moreover have "pp_id open_path = 1" by (simp add: open_path_def plain_path_def)
  ultimately show ?thesis
    using first_sibling_domains_unchecked [OF open_request_built _ open_path_conforms, of 2 "[]"]
      first_sibling_domains_unchecked [OF open_request_built _ open_path_conforms, of 2
        "[open_path\<lparr>pp_id := 2\<rparr>]"]
    by simp
qed
end
