(* ===== verification/Search.thy ===== *)
theory Search
  imports PlanCheck
begin

text \<open>
  The searches of the planner (\<open>src/planner.cpp\<close>): the block sets, the static filters and edge
  costs, and the breadth-first reachability test.

  \<open>NodeIndex\<close> and \<open>EdgeIndex\<close> are natural numbers, an absent index is \<open>None\<close>. The
  scratch members of \<open>PlannerState\<close> (\<open>dist\<close>, \<open>prev\<close>, \<open>frontier\<close>) are cleared at
  the start of every search and are local to it in the model.
\<close>

section \<open>Block sets\<close>

record block_set =
  node_stamp :: "u32 list"
  edge_stamp :: "u32 list"
  bs_generation :: u32

definition bs_resize :: "nat \<Rightarrow> nat \<Rightarrow> block_set" where
  "bs_resize node_total edge_total =
     \<lparr>node_stamp = replicate node_total 0, edge_stamp = replicate edge_total 0, bs_generation = 1\<rparr>"

definition bs_reset :: "block_set \<Rightarrow> block_set" where
  "bs_reset b =
     (let advanced = b\<lparr>bs_generation := bs_generation b + 1\<rparr> in
      if bs_generation advanced = 0 then
        advanced\<lparr>node_stamp := replicate (length (node_stamp b)) 0,
                 edge_stamp := replicate (length (edge_stamp b)) 0, bs_generation := 1\<rparr>
      else advanced)"

definition block_node :: "nat \<Rightarrow> block_set \<Rightarrow> block_set" where
  "block_node n b = b\<lparr>node_stamp := (node_stamp b)[n := bs_generation b]\<rparr>"

definition block_edge :: "nat \<Rightarrow> block_set \<Rightarrow> block_set" where
  "block_edge e b = b\<lparr>edge_stamp := (edge_stamp b)[e := bs_generation b]\<rparr>"

definition node_blocked :: "block_set \<Rightarrow> nat \<Rightarrow> bool" where
  "node_blocked b n \<longleftrightarrow> node_stamp b ! n = bs_generation b"

definition edge_blocked :: "block_set \<Rightarrow> nat \<Rightarrow> bool" where
  "edge_blocked b e \<longleftrightarrow> edge_stamp b ! e = bs_generation b"

section \<open>State and filters\<close>

record planner_state =
  s_fabric :: fabric
  s_policy :: policy
  s_node_allowed :: "bool list"
  s_edge_allowed :: "bool list"
  s_edge_cost :: "u64 list"
  s_spare :: "u64 list"
  s_demand :: u64
  s_hop_limit :: nat
  s_expansions :: nat
  s_max_expansions :: nat
  s_enumeration_steps :: nat
  s_enumeration_budget :: nat
  s_budget_exceeded :: bool
  s_enumeration_exhausted :: bool
  s_blocks :: block_set

fun evidence_satisfies :: "evidence_class \<Rightarrow> evidence_requirement \<Rightarrow> bool" where
  "evidence_satisfies observed erAny = True"
| "evidence_satisfies observed erSyntheticOrBetter = (observed \<noteq> evUnknown)"
| "evidence_satisfies observed erMeasured = (observed = evMeasured)"

definition tier_forbidden :: "policy \<Rightarrow> tier_id \<Rightarrow> bool" where
  "tier_forbidden p tier = (if \<not> id_valid tier then False else binary_search (forbidden_tiers p) tier)"

definition domain_forbidden :: "fabric \<Rightarrow> policy \<Rightarrow> domain_id \<Rightarrow> bool" where
  "domain_forbidden g p domain =
     (if \<not> id_valid domain then False
      else list_ex (\<lambda>forbidden. domain_contains g forbidden domain) (forbidden_failure_domains p))"

definition edge_statically_usable :: "planner_state \<Rightarrow> nat \<Rightarrow> bool" where
  "edge_statically_usable st i =
     (if \<not> s_edge_allowed st ! i then False
      else let e = edges (s_fabric st) ! i in
        if e_capacity e = 0 then allow_unverified_capacity (s_policy st) \<and> e_reserved e = 0
        else e_reserved e < e_capacity e)"

definition edge_spare :: "fabric \<Rightarrow> nat \<Rightarrow> u64" where
  "edge_spare g i =
     (let e = edges g ! i in
      if e_capacity e = 0 \<or> e_reserved e \<ge> e_capacity e then 0 else e_capacity e - e_reserved e)"

definition edge_carries_demand :: "planner_state \<Rightarrow> nat \<Rightarrow> bool" where
  "edge_carries_demand st i =
     (if s_demand st = 0 then True
      else if e_capacity (edges (s_fabric st) ! i) = 0 then True
      else edge_spare (s_fabric st) i \<ge> s_demand st)"

definition edge_cost_of :: "fabric \<Rightarrow> policy \<Rightarrow> nat \<Rightarrow> u64" where
  "edge_cost_of g p i =
     (let e = edges g ! i;
          latency_term = saturating_mul (e_latency e) (latency_weight_milli p) kCostCeiling div 1000 in
      if congestion_weight_milli p = 0 \<or> e_capacity e = 0 then latency_term
      else let used = e_reserved e in
        if used \<ge> e_capacity e then kCostCeiling
        else let utilisation_milli = saturating_mul used 1000 kCostCeiling div e_capacity e;
                 spare_milli = 1000 - utilisation_milli;
                 penalty = saturating_mul (congestion_weight_milli p) utilisation_milli kCostCeiling
                             div (if spare_milli = 0 then 1 else spare_milli) in
          saturating_add latency_term penalty kCostCeiling)"

definition binding_allows_edge :: "fabric \<Rightarrow> endpoint_binding \<Rightarrow> edge \<Rightarrow> bool" where
  "binding_allows_edge g b e =
     (if allowed_failure_domains b \<noteq> [] \<and>
         (\<not> id_valid (e_domain e) \<or>
          \<not> list_ex (\<lambda>allowed. domain_contains g allowed (e_domain e)) (allowed_failure_domains b)) then False
      else if allowed_tiers b \<noteq> [] \<and>
         (\<not> id_valid (e_tier e) \<or> \<not> binary_search (allowed_tiers b) (e_tier e)) then False
      else True)"

definition hop_usable ::
  "planner_state \<Rightarrow> nat \<Rightarrow> endpoint_binding \<Rightarrow> endpoint_binding \<Rightarrow> nat \<Rightarrow> bool" where
  "hop_usable st i sb tb following =
     (if edge_blocked (s_blocks st) i then False
      else if \<not> s_node_allowed st ! following \<or> node_blocked (s_blocks st) following then False
      else if \<not> edge_statically_usable st i \<or> \<not> edge_carries_demand st i then False
      else let e = edges (s_fabric st) ! i in
        if \<not> binding_allows_edge (s_fabric st) sb e \<or> \<not> binding_allows_edge (s_fabric st) tb e then False
        else True)"

text \<open>The node an edge leads to.\<close>

definition edge_target :: "planner_state \<Rightarrow> nat \<Rightarrow> nat option" where
  "edge_target st i = node_index (s_fabric st) (e_to (edges (s_fabric st) ! i))"

section \<open>Initial state\<close>

definition node_is_allowed :: "policy \<Rightarrow> node \<Rightarrow> bool" where
  "node_is_allowed p n \<longleftrightarrow>
     n_eligible n \<and> \<not> tier_forbidden p (n_tier n) \<and> \<not> binary_search (forbidden_nodes p) (n_id n)"

definition edge_is_allowed :: "fabric \<Rightarrow> policy \<Rightarrow> edge \<Rightarrow> bool" where
  "edge_is_allowed g p e \<longleftrightarrow>
     e_eligible e \<and> \<not> tier_forbidden p (e_tier e) \<and>
     \<not> (allowed_path_tiers p \<noteq> [] \<and>
        (\<not> id_valid (e_tier e) \<or> \<not> binary_search (allowed_path_tiers p) (e_tier e))) \<and>
     \<not> domain_forbidden g p (e_domain e) \<and> evidence_satisfies (e_evidence e) (po_evidence p)"

definition init_state :: "planning_request \<Rightarrow> u64 \<Rightarrow> nat \<Rightarrow> planner_state" where
  "init_state r demand budget =
     (let g = r_fabric r; p = r_policy r; edge_total = length (edges g) in
      \<lparr>s_fabric = g, s_policy = p,
       s_node_allowed = map (node_is_allowed p) (nodes g),
       s_edge_allowed = map (edge_is_allowed g p) (edges g),
       s_edge_cost = map (edge_cost_of g p) [0..<edge_total],
       s_spare = map (edge_spare g) [0..<edge_total],
       s_demand = demand, s_hop_limit = max_hops p, s_expansions = 0,
       s_max_expansions = max 1 (max_search_expansions p), s_enumeration_steps = 0,
       s_enumeration_budget = budget, s_budget_exceeded = False, s_enumeration_exhausted = False,
       s_blocks = bs_resize (length (nodes g)) edge_total\<rparr>)"

section \<open>Reachability\<close>

text \<open>
  \<open>bfs_min_hops\<close>. The sentinel distance \<open>0xFFFFFFFF\<close> is \<open>None\<close>; the vector
  \<open>queue\<close> is kept from its read position \<open>head\<close> on. An index outside the distance
  vector, which a built fabric does not have, is treated as visited.
\<close>

definition unvisited :: "nat option list \<Rightarrow> nat \<Rightarrow> bool" where
  "unvisited distance n \<longleftrightarrow> n < length distance \<and> distance ! n = None"

fun bfs_edges ::
  "planner_state \<Rightarrow> endpoint_binding \<Rightarrow> endpoint_binding \<Rightarrow> nat \<Rightarrow> nat \<Rightarrow> nat list \<Rightarrow>
   nat option list \<Rightarrow> nat list \<Rightarrow> nat + (nat option list \<times> nat list)" where
  "bfs_edges st sb tb target d [] distance queue = Inr (distance, queue)"
| "bfs_edges st sb tb target d (e # es) distance queue =
     (case edge_target st e of
        None \<Rightarrow> bfs_edges st sb tb target d es distance queue
      | Some n \<Rightarrow>
          if \<not> unvisited distance n then bfs_edges st sb tb target d es distance queue
          else if \<not> hop_usable st e sb tb n then bfs_edges st sb tb target d es distance queue
          else if n = target then Inl (d + 1)
          else bfs_edges st sb tb target d es (distance[n := Some (d + 1)]) (queue @ [n]))"

lemma count_list_update_None:
  "unvisited xs n \<Longrightarrow> Suc (count_list (xs[n := Some d]) None) = count_list xs None"
proof -
  assume "unvisited xs n"
  then have n: "n < length xs" "xs ! n = None" by (simp_all add: unvisited_def)
  have "xs[n := Some d] = take n xs @ Some d # drop (Suc n) xs" using n by (simp add: upd_conv_take_nth_drop)
  moreover have "xs = take n xs @ None # drop (Suc n) xs" using n id_take_nth_drop by metis
  then have "count_list xs None = count_list (take n xs @ None # drop (Suc n) xs) None" by simp
  ultimately show ?thesis by (simp add: count_list_append)
qed

lemma bfs_edges_measure:
  "bfs_edges st sb tb target d es distance queue = Inr (distance', queue') \<Longrightarrow>
   count_list distance' None + length queue' = count_list distance None + length queue"
proof (induction es arbitrary: distance queue)
  case (Cons e es)
  then show ?case
    using count_list_update_None [of distance _ "d + 1"]
    by (fastforce split: option.splits if_splits)
qed simp

function bfs_loop ::
  "planner_state \<Rightarrow> endpoint_binding \<Rightarrow> endpoint_binding \<Rightarrow> nat \<Rightarrow> nat option list \<Rightarrow> nat list \<Rightarrow> nat option" where
  "bfs_loop st sb tb target distance [] = None"
| "bfs_loop st sb tb target distance (node # queue) =
     (case bfs_edges st sb tb target (the (distance ! node)) (out_edges (s_fabric st) node) distance queue of
        Inl hops \<Rightarrow> Some hops
      | Inr (distance', queue') \<Rightarrow> bfs_loop st sb tb target distance' queue')"
  by pat_completeness auto
termination
proof (relation "measure (\<lambda>(st, sb, tb, target, distance, queue). count_list distance None + length queue)",
    goal_cases)
  case (2 st sb tb target distance node queue p distance' queue')
  then show ?case using bfs_edges_measure by fastforce
qed simp

text \<open>\<open>Some hops\<close>: reached, with that many hops.\<close>

definition bfs_min_hops ::
  "planner_state \<Rightarrow> nat \<Rightarrow> nat \<Rightarrow> endpoint_binding \<Rightarrow> endpoint_binding \<Rightarrow> nat option" where
  "bfs_min_hops st source target sb tb =
     (if source = target then Some 0
      else bfs_loop st sb tb target
        ((replicate (length (nodes (s_fabric st))) None)[source := Some 0]) [source])"

section \<open>Block sets are sets\<close>

text \<open>What the searches rely on: after a reset nothing is blocked, and blocking adds one index.\<close>

locale blocking =
  fixes wf :: "'b \<Rightarrow> bool"
    and size :: "'b \<Rightarrow> nat"
    and reset :: "'b \<Rightarrow> 'b"
    and block :: "nat \<Rightarrow> 'b \<Rightarrow> 'b"
    and blocked :: "'b \<Rightarrow> nat \<Rightarrow> bool"
  assumes wf_reset: "wf b \<Longrightarrow> wf (reset b)"
    and wf_block: "wf b \<Longrightarrow> wf (block n b)"
    and size_reset: "size (reset b) = size b"
    and size_block: "size (block n b) = size b"
    and blocked_reset: "wf b \<Longrightarrow> m < size b \<Longrightarrow> \<not> blocked (reset b) m"
    and blocked_block: "wf b \<Longrightarrow> m < size b \<Longrightarrow> blocked (block n b) m \<longleftrightarrow> m = n \<or> blocked b m"
begin

lemma fold_block:
  "wf b \<Longrightarrow> m < size b \<Longrightarrow>
   wf (fold block ns b) \<and> size (fold block ns b) = size b \<and>
   (blocked (fold block ns b) m \<longleftrightarrow> m \<in> set ns \<or> blocked b m)"
  by (induction ns arbitrary: b) (auto simp: wf_block size_block blocked_block)

lemma blocked_after:
  "wf b \<Longrightarrow> m < size b \<Longrightarrow> blocked (fold block ns (reset b)) m \<longleftrightarrow> m \<in> set ns"
  using fold_block [of "reset b" m ns] by (simp add: wf_reset size_reset blocked_reset)

end

definition bs_wf :: "block_set \<Rightarrow> bool" where
  "bs_wf b \<longleftrightarrow> bs_generation b \<noteq> 0 \<and> (\<forall>s\<in>set (node_stamp b). s \<le> bs_generation b) \<and>
     (\<forall>s\<in>set (edge_stamp b). s \<le> bs_generation b)"

lemma stamps_below_next:
  assumes "(s :: u32) \<le> g" "g + 1 \<noteq> 0"
  shows "s < g + 1"
proof -
  have "unat (g + 1) = unat g + 1" using assms(2) by (metis Suc_eq_plus1 add.commute unatSuc)
  with assms(1) show ?thesis by (simp add: word_le_nat_alt word_less_nat_alt)
qed

lemma bs_wf_reset: "bs_wf b \<Longrightarrow> bs_wf (bs_reset b)"
  using stamps_below_next [of _ "bs_generation b"]
  by (auto simp: bs_wf_def bs_reset_def Let_def less_imp_le dest: in_set_replicate [THEN iffD1])

lemma stamp_not_next:
  "\<forall>s\<in>set xs. s \<le> g \<Longrightarrow> n < length xs \<Longrightarrow> g + 1 \<noteq> 0 \<Longrightarrow> xs ! n \<noteq> (g + 1 :: u32)"
  using stamps_below_next [of "xs ! n" g] nth_mem [of n xs] by (metis less_irrefl)

lemma bs_reset_clears:
  assumes "bs_wf b"
  shows "n < length (node_stamp b) \<Longrightarrow> node_stamp (bs_reset b) ! n \<noteq> bs_generation (bs_reset b)"
    "e < length (edge_stamp b) \<Longrightarrow> edge_stamp (bs_reset b) ! e \<noteq> bs_generation (bs_reset b)"
  using assms stamp_not_next [of _ "bs_generation b"] by (simp_all add: bs_wf_def bs_reset_def Let_def)

lemma stamp_update_iff: "m < length xs \<Longrightarrow> xs[n := g] ! m = g \<longleftrightarrow> m = n \<or> xs ! m = g"
  by (cases "m = n") auto

lemma stamps_update: "\<forall>s\<in>set xs. s \<le> g \<Longrightarrow> s \<in> set (xs[n := g]) \<Longrightarrow> s \<le> (g :: u32)"
  using set_update_subset_insert [of xs n g] by auto

lemma bs_wf_block: "bs_wf b \<Longrightarrow> bs_wf (block_node n b)" "bs_wf b \<Longrightarrow> bs_wf (block_edge n b)"
  by (auto simp: bs_wf_def block_node_def block_edge_def intro: stamps_update)

lemma bs_reset_lengths:
  "length (node_stamp (bs_reset b)) = length (node_stamp b)"
  "length (edge_stamp (bs_reset b)) = length (edge_stamp b)"
  by (simp_all add: bs_reset_def Let_def)

lemmas block_facts = bs_wf_reset bs_wf_block bs_reset_lengths bs_reset_clears
  node_blocked_def edge_blocked_def block_node_def block_edge_def

interpretation node_blocks: blocking bs_wf "length \<circ> node_stamp" bs_reset block_node node_blocked
  by unfold_locales (simp_all add: bs_wf_reset bs_wf_block, auto simp: block_facts stamp_update_iff)

interpretation edge_blocks: blocking bs_wf "length \<circ> edge_stamp" bs_reset block_edge edge_blocked
  by unfold_locales (simp_all add: bs_wf_reset bs_wf_block, auto simp: block_facts stamp_update_iff)

lemma node_blocked_block_edges: "node_blocked (fold block_edge es b) n \<longleftrightarrow> node_blocked b n"
  by (induction es arbitrary: b) (simp_all add: node_blocked_def block_edge_def)

lemma edge_blocked_block_nodes: "edge_blocked (fold block_node ns b) e \<longleftrightarrow> edge_blocked b e"
  by (induction ns arbitrary: b) (simp_all add: edge_blocked_def block_node_def)

lemma block_edges_frame:
  "bs_wf b \<Longrightarrow> bs_wf (fold block_edge es b) \<and> node_stamp (fold block_edge es b) = node_stamp b"
  by (induction es arbitrary: b) (simp_all add: bs_wf_block, simp add: block_edge_def)

section \<open>Reachability\<close>

text \<open>One hop a path of this logical edge may take.\<close>

definition usable_step :: "planner_state \<Rightarrow> endpoint_binding \<Rightarrow> endpoint_binding \<Rightarrow> nat \<Rightarrow> nat \<Rightarrow> bool" where
  "usable_step st sb tb a b \<longleftrightarrow>
     (\<exists>e\<in>set (out_edges (s_fabric st) a). edge_target st e = Some b \<and> hop_usable st e sb tb b)"

abbreviation node_total :: "planner_state \<Rightarrow> nat" where
  "node_total st \<equiv> length (nodes (s_fabric st))"

lemma edge_target_bound:
  assumes "fabric_wf (s_fabric st)" "edge_target st e = Some n"
  shows "n < node_total st"
  using assms node_rows.index_iff [OF fabric_wfD(3) [OF assms(1)]]
  by (auto simp: edge_target_def node_index_def)

lemma usable_step_bound: "fabric_wf (s_fabric st) \<Longrightarrow> usable_step st sb tb a b \<Longrightarrow> b < node_total st"
  by (auto simp: usable_step_def edge_target_bound)

lemma relpowp_bound:
  assumes "\<And>a b. R a b \<Longrightarrow> b < (N :: nat)" "s < N" "(R ^^ k) s n"
  shows "n < N"
  using assms by (cases k) auto

lemma relpow_frontier:
  assumes seen: "\<forall>n<N. \<forall>k. dist n = Some k \<longrightarrow> (\<forall>j<k. \<not> (R ^^ j) s n)"
    and start: "s < N" "dist s \<noteq> None" and bound: "\<And>a b. R a b \<Longrightarrow> b < (N :: nat)"
    and closed: "\<forall>n<N. dist n \<noteq> None \<longrightarrow> n \<in> front \<or> (\<forall>m. R n m \<longrightarrow> dist m \<noteq> None)"
    and front: "\<forall>n\<in>front. \<exists>k\<ge>d. dist n = Some k"
    and path: "(R ^^ j) s n" "dist n = None"
  shows "d + 1 \<le> j"
  using path
proof (induction j arbitrary: n)
  case 0
  then show ?case using start by simp
next
  case (Suc j)
  then obtain m where m: "(R ^^ j) s m" "R m n" by auto
  have "m < N" by (rule relpowp_bound [OF bound start(1) m(1)])
  show ?case
  proof (cases "dist m")
    case None
    with Suc.IH [OF m(1)] show ?thesis by simp
  next
    case (Some k)
    with closed \<open>m < N\<close> m(2) Suc.prems(2) have "m \<in> front" by blast
    with front Some have "d \<le> k" by auto
    moreover have "k \<le> j" using seen \<open>m < N\<close> Some m(1) by (meson not_le)
    ultimately show ?thesis by simp
  qed
qed

text \<open>
  The invariant of the breadth-first loop: every distance assigned so far is the least number of
  hops, the waiting nodes are at the current distance or the next one in this order, and every
  visited node that is neither waiting nor in progress has only visited successors.
\<close>

definition bfs_inv ::
  "planner_state \<Rightarrow> endpoint_binding \<Rightarrow> endpoint_binding \<Rightarrow> nat \<Rightarrow> nat \<Rightarrow> nat \<Rightarrow> nat set \<Rightarrow>
   nat option list \<Rightarrow> nat list \<Rightarrow> bool" where
  "bfs_inv st sb tb source target d pend distance queue \<longleftrightarrow>
     length distance = node_total st \<and> source < node_total st \<and> distance ! source = Some 0 \<and>
     target < node_total st \<and> distance ! target = None \<and>
     (\<forall>n<node_total st. \<forall>k. distance ! n = Some k \<longrightarrow>
        (usable_step st sb tb ^^ k) source n \<and> (\<forall>j<k. \<not> (usable_step st sb tb ^^ j) source n)) \<and>
     (\<forall>n<node_total st. distance ! n \<noteq> None \<longrightarrow>
        n \<in> pend \<union> set queue \<or> (\<forall>m. usable_step st sb tb n m \<longrightarrow> distance ! m \<noteq> None)) \<and>
     (\<forall>n\<in>pend. n < node_total st \<and> distance ! n = Some d) \<and>
     (\<exists>q1 q2. queue = q1 @ q2 \<and> (\<forall>n\<in>set q1. n < node_total st \<and> distance ! n = Some d) \<and>
        (\<forall>n\<in>set q2. n < node_total st \<and> distance ! n = Some (d + 1)))"

lemma bfs_inv_frontier:
  assumes wf: "fabric_wf (s_fabric st)" and inv: "bfs_inv st sb tb source target d pend distance queue"
    and path: "(usable_step st sb tb ^^ j) source n" "distance ! n = None"
  shows "d + 1 \<le> j"
proof (rule relpow_frontier [where dist = "\<lambda>n. distance ! n" and N = "node_total st"
      and front = "pend \<union> set queue"])
  show "\<forall>n\<in>pend \<union> set queue. \<exists>k\<ge>d. distance ! n = Some k"
    using inv unfolding bfs_inv_def by (metis UnE Un_iff le_add1 order_refl set_append)
qed (use inv path usable_step_bound [OF wf] in \<open>unfold bfs_inv_def, auto\<close>)

lemma bfs_invD:
  assumes "bfs_inv st sb tb source target d pend distance queue"
  shows "length distance = node_total st" "source < node_total st" "distance ! source = Some 0"
    "target < node_total st" "distance ! target = None"
    "\<And>n k. n < node_total st \<Longrightarrow> distance ! n = Some k \<Longrightarrow>
       (usable_step st sb tb ^^ k) source n \<and> (\<forall>j<k. \<not> (usable_step st sb tb ^^ j) source n)"
    "\<And>n m. n < node_total st \<Longrightarrow> distance ! n \<noteq> None \<Longrightarrow> n \<notin> pend \<Longrightarrow> n \<notin> set queue \<Longrightarrow>
       usable_step st sb tb n m \<Longrightarrow> distance ! m \<noteq> None"
    "\<And>n. n \<in> pend \<Longrightarrow> n < node_total st \<and> distance ! n = Some d"
    "\<exists>q1 q2. queue = q1 @ q2 \<and> (\<forall>n\<in>set q1. n < node_total st \<and> distance ! n = Some d) \<and>
        (\<forall>n\<in>set q2. n < node_total st \<and> distance ! n = Some (d + 1))"
  using assms unfolding bfs_inv_def by blast+

lemma bfs_inv_exact:
  assumes wf: "fabric_wf (s_fabric st)" and inv: "bfs_inv st sb tb source target d pend distance queue"
    and x: "x \<in> pend" "usable_step st sb tb x n" "distance ! n = None"
  shows "(usable_step st sb tb ^^ (d + 1)) source n \<and> (\<forall>j<d + 1. \<not> (usable_step st sb tb ^^ j) source n)"
proof -
  from inv x(1) have "(usable_step st sb tb ^^ d) source x" unfolding bfs_inv_def by blast
  with x(2) have "(usable_step st sb tb ^^ (d + 1)) source n" by auto
  with bfs_inv_frontier [OF wf inv _ x(3)] show ?thesis by (meson not_le)
qed

lemma bfs_inv_visit:
  assumes wf: "fabric_wf (s_fabric st)" and inv: "bfs_inv st sb tb source target d pend distance queue"
    and x: "x \<in> pend" "usable_step st sb tb x n" "distance ! n = None" and n: "n \<noteq> target"
  shows "bfs_inv st sb tb source target d pend (distance[n := Some (d + 1)]) (queue @ [n])"
proof -
  let ?D = "distance[n := Some (d + 1)]"
  have len: "length distance = node_total st" using inv unfolding bfs_inv_def by blast
  have bound: "n < node_total st" by (rule usable_step_bound [OF wf x(2)])
  have at: "?D ! m = (if m = n then Some (d + 1) else distance ! m)" if "m < node_total st" for m
    using that by (simp add: len nth_list_update)
  have keep: "?D ! m = distance ! m" if "m \<noteq> n" for m using that by simp
  have self: "?D ! n = Some (d + 1)" using bound len by simp
  have visited: "distance ! m \<noteq> None \<longrightarrow> ?D ! m = distance ! m" for m using x(3) keep by (cases "m = n") auto
  have grow: "distance ! m \<noteq> None \<longrightarrow> ?D ! m \<noteq> None" for m using visited by metis
  obtain q1 q2 where q: "queue = q1 @ q2" "\<forall>n\<in>set q1. n < node_total st \<and> distance ! n = Some d"
    "\<forall>n\<in>set q2. n < node_total st \<and> distance ! n = Some (d + 1)"
    using inv unfolding bfs_inv_def by blast
  show ?thesis
    unfolding bfs_inv_def
  proof (intro conjI)
    show "length ?D = node_total st" by (simp add: len)
    show "source < node_total st" "target < node_total st" by (rule bfs_invD(2,4) [OF inv])+
    show "?D ! source = Some 0" using visited [of source] bfs_invD(3) [OF inv] by simp
    show "?D ! target = None" using keep [OF n [symmetric]] bfs_invD(5) [OF inv] by simp
    show "\<forall>m<node_total st. \<forall>k. ?D ! m = Some k \<longrightarrow>
        (usable_step st sb tb ^^ k) source m \<and> (\<forall>j<k. \<not> (usable_step st sb tb ^^ j) source m)"
      using bfs_inv_exact [OF wf inv x] bfs_invD(6) [OF inv] at by (metis option.inject)
    show "\<forall>m<node_total st. ?D ! m \<noteq> None \<longrightarrow>
        m \<in> pend \<union> set (queue @ [n]) \<or> (\<forall>k. usable_step st sb tb m k \<longrightarrow> ?D ! k \<noteq> None)"
    proof (intro allI impI)
      fix m
      assume m: "m < node_total st" "?D ! m \<noteq> None"
      show "m \<in> pend \<union> set (queue @ [n]) \<or> (\<forall>k. usable_step st sb tb m k \<longrightarrow> ?D ! k \<noteq> None)"
      proof (cases "m = n \<or> m \<in> pend \<union> set queue")
        case False
        with m keep have "distance ! m \<noteq> None" by simp
        with False m(1) bfs_invD(7) [OF inv] grow show ?thesis by blast
      qed auto
    qed
    show "\<forall>m\<in>pend. m < node_total st \<and> ?D ! m = Some d"
      using bfs_invD(8) [OF inv] visited by simp
    show "\<exists>q1 q2. queue @ [n] = q1 @ q2 \<and> (\<forall>n\<in>set q1. n < node_total st \<and> ?D ! n = Some d) \<and>
        (\<forall>n\<in>set q2. n < node_total st \<and> ?D ! n = Some (d + 1))"
      using q visited self bound by (intro exI [of _ q1] exI [of _ "q2 @ [n]"]) simp
  qed
qed

lemma bfs_edges_inv:
  assumes wf: "fabric_wf (s_fabric st)"
  shows "bfs_inv st sb tb source target d {x} distance queue \<Longrightarrow> set es \<subseteq> set (out_edges (s_fabric st) x) \<Longrightarrow>
    \<forall>e\<in>set (out_edges (s_fabric st) x) - set es. \<forall>m. edge_target st e = Some m \<and> hop_usable st e sb tb m \<longrightarrow>
       distance ! m \<noteq> None \<Longrightarrow>
    (case bfs_edges st sb tb target d es distance queue of
       Inl h \<Rightarrow> (usable_step st sb tb ^^ h) source target \<and> (\<forall>j<h. \<not> (usable_step st sb tb ^^ j) source target)
     | Inr (distance', queue') \<Rightarrow> bfs_inv st sb tb source target d {} distance' queue')"
proof (induction es arbitrary: distance queue)
  case Nil
  note inv = bfs_invD [OF Nil(1)]
  have "distance ! m \<noteq> None" if "usable_step st sb tb x m" for m
    using that Nil(3) unfolding usable_step_def by auto
  then have "bfs_inv st sb tb source target d {} distance queue"
    unfolding bfs_inv_def using inv(1-6,9) inv(7) by (intro conjI) blast+
  then show ?case by simp
next
  case (Cons e es)
  have e: "e \<in> set (out_edges (s_fabric st) x)" "set es \<subseteq> set (out_edges (s_fabric st) x)"
    using Cons.prems(2) by auto
  have len: "length distance = node_total st" using Cons.prems(1) unfolding bfs_inv_def by blast
  show ?case
  proof (cases "\<exists>n. edge_target st e = Some n \<and> unvisited distance n \<and> hop_usable st e sb tb n")
    case False
    then have "bfs_edges st sb tb target d (e # es) distance queue = bfs_edges st sb tb target d es distance queue"
      by (auto split: option.splits)
    moreover have "distance ! m \<noteq> None" if "edge_target st e = Some m" "hop_usable st e sb tb m" for m
      using that False edge_target_bound [OF wf that(1)] len by (auto simp: unvisited_def)
    ultimately show ?thesis using Cons.IH [OF Cons.prems(1) e(2)] Cons.prems(3) by auto
  next
    case True
    then obtain n where n: "edge_target st e = Some n" "unvisited distance n" "hop_usable st e sb tb n" by blast
    have step: "usable_step st sb tb x n" using e(1) n by (auto simp: usable_step_def)
    have none: "distance ! n = None" using n(2) by (simp add: unvisited_def)
    show ?thesis
    proof (cases "n = target")
      case True
      then show ?thesis using n bfs_inv_exact [OF wf Cons.prems(1) _ step none] by simp
    next
      case False
      let ?D = "distance[n := Some (d + 1)]"
      have grow: "distance ! m \<noteq> None \<Longrightarrow> ?D ! m \<noteq> None" for m using none by (cases "m = n") auto
      have self: "?D ! n \<noteq> None" using n(2) by (simp add: unvisited_def)
      have "\<forall>f\<in>set (out_edges (s_fabric st) x) - set es. \<forall>m. edge_target st f = Some m \<and> hop_usable st f sb tb m \<longrightarrow>
          ?D ! m \<noteq> None"
      proof (intro ballI allI impI)
        fix f m
        assume f: "f \<in> set (out_edges (s_fabric st) x) - set es"
          "edge_target st f = Some m \<and> hop_usable st f sb tb m"
        show "?D ! m \<noteq> None"
        proof (cases "f = e")
          case True
          with f n(1) self show ?thesis by simp
        next
          case False
          with f have "f \<in> set (out_edges (s_fabric st) x) - set (e # es)" by simp
          with f(2) Cons.prems(3) grow show ?thesis by blast
        qed
      qed
      from Cons.IH [OF bfs_inv_visit [OF wf Cons.prems(1) _ step none False] e(2) this] n False
      show ?thesis by simp
    qed
  qed
qed

lemma bfs_inv_pend:
  assumes "bfs_inv st sb tb source target d {} distance (x # queue)"
    and "x < node_total st" "distance ! x = Some d'"
    and "\<exists>q1 q2. queue = q1 @ q2 \<and> (\<forall>n\<in>set q1. n < node_total st \<and> distance ! n = Some d') \<and>
        (\<forall>n\<in>set q2. n < node_total st \<and> distance ! n = Some (d' + 1))"
  shows "bfs_inv st sb tb source target d' {x} distance queue"
  unfolding bfs_inv_def
proof (intro conjI)
  note inv = bfs_invD [OF assms(1)]
  show "length distance = node_total st" "source < node_total st" "distance ! source = Some 0"
    "target < node_total st" "distance ! target = None" by (fact inv)+
  show "\<forall>n<node_total st. \<forall>k. distance ! n = Some k \<longrightarrow>
      (usable_step st sb tb ^^ k) source n \<and> (\<forall>j<k. \<not> (usable_step st sb tb ^^ j) source n)"
    using inv(6) by blast
  show "\<forall>n<node_total st. distance ! n \<noteq> None \<longrightarrow>
      n \<in> {x} \<union> set queue \<or> (\<forall>m. usable_step st sb tb n m \<longrightarrow> distance ! m \<noteq> None)"
    using inv(7) by auto
  show "\<forall>n\<in>{x}. n < node_total st \<and> distance ! n = Some d'" using assms(2,3) by simp
qed (fact assms(4))

lemma bfs_inv_next:
  assumes "bfs_inv st sb tb source target d {} distance (x # queue)"
  shows "\<exists>d'. distance ! x = Some d' \<and> bfs_inv st sb tb source target d' {x} distance queue"
proof -
  obtain q1 q2 where q: "x # queue = q1 @ q2" "\<forall>n\<in>set q1. n < node_total st \<and> distance ! n = Some d"
    "\<forall>n\<in>set q2. n < node_total st \<and> distance ! n = Some (d + 1)"
    using bfs_invD(9) [OF assms] by blast
  show ?thesis
  proof (cases q1)
    case (Cons y q1')
    with q have tail: "queue = q1' @ q2" "\<forall>n\<in>set q1'. n < node_total st \<and> distance ! n = Some d"
      and x: "x < node_total st" "distance ! x = Some d" by auto
    have "bfs_inv st sb tb source target d {x} distance queue"
      by (rule bfs_inv_pend [OF assms x]) (use tail q(3) in blast)
    with x show ?thesis by blast
  next
    case Nil
    with q have tail: "\<forall>n\<in>set queue. n < node_total st \<and> distance ! n = Some (d + 1)"
      and x: "x < node_total st" "distance ! x = Some (d + 1)" by auto
    have "bfs_inv st sb tb source target (d + 1) {x} distance queue"
      by (rule bfs_inv_pend [OF assms x]) (use tail in \<open>intro exI [of _ queue] exI [of _ "[]"], simp\<close>)
    with x show ?thesis by blast
  qed
qed

lemma bfs_loop_inv:
  assumes "fabric_wf (s_fabric st)" "bfs_inv st sb tb source target d {} distance queue"
  shows "case bfs_loop st sb tb target distance queue of
      Some h \<Rightarrow> (usable_step st sb tb ^^ h) source target \<and> (\<forall>j<h. \<not> (usable_step st sb tb ^^ j) source target)
    | None \<Rightarrow> \<not> (usable_step st sb tb)\<^sup>*\<^sup>* source target"
  using assms
proof (induction st sb tb target distance queue arbitrary: d rule: bfs_loop.induct)
  case (1 st sb tb target distance)
  have "distance ! n \<noteq> None \<and> n < node_total st" if "(usable_step st sb tb)\<^sup>*\<^sup>* source n" for n
    using that
  proof induction
    case base
    then show ?case using bfs_invD(2,3) [OF 1(2)] by simp
  next
    case (step y z)
    then show ?case using bfs_invD(7) [OF 1(2), of y z] usable_step_bound [OF 1(1)] by simp
  qed
  then have "\<not> (usable_step st sb tb)\<^sup>*\<^sup>* source target" using bfs_invD(5) [OF 1(2)] by blast
  then show ?case by simp
next
  case (2 st sb tb target distance x queue)
  obtain d' where d': "distance ! x = Some d'" "bfs_inv st sb tb source target d' {x} distance queue"
    using bfs_inv_next [OF 2(3)] by blast
  let ?r = "bfs_edges st sb tb target d' (out_edges (s_fabric st) x) distance queue"
  have step: "case ?r of Inl h \<Rightarrow> (usable_step st sb tb ^^ h) source target \<and>
        (\<forall>j<h. \<not> (usable_step st sb tb ^^ j) source target)
      | Inr (distance', queue') \<Rightarrow> bfs_inv st sb tb source target d' {} distance' queue'"
    by (rule bfs_edges_inv [OF 2(2) d'(2)]) auto
  show ?case
  proof (cases ?r)
    case (Inl h)
    with step d' show ?thesis by simp
  next
    case (Inr p)
    obtain distance' queue' where p: "p = (distance', queue')" by fastforce
    with Inr step have inv: "bfs_inv st sb tb source target d' {} distance' queue'" by simp
    have eq: "bfs_edges st sb tb target (the (distance ! x)) (out_edges (s_fabric st) x) distance queue =
        Inr (distance', queue')" using Inr p d'(1) by simp
    show ?thesis using 2(1) [OF eq refl 2(2) inv] by (simp add: eq)
  qed
qed

lemma bfs_min_hops_exact:
  assumes "fabric_wf (s_fabric st)" "source < node_total st" "target < node_total st"
  shows "(bfs_min_hops st source target sb tb = Some h \<longleftrightarrow>
      (usable_step st sb tb ^^ h) source target \<and> (\<forall>j<h. \<not> (usable_step st sb tb ^^ j) source target)) \<and>
    (bfs_min_hops st source target sb tb = None \<longleftrightarrow> \<not> (usable_step st sb tb)\<^sup>*\<^sup>* source target)"
proof (cases "source = target")
  case True
  then show ?thesis by (auto simp: bfs_min_hops_def)
next
  case False
  let ?D = "(replicate (node_total st) None)[source := Some 0]"
  have D: "?D ! n = (if n = source then Some 0 else None)" if "n < node_total st" for n
    using that assms(2) by (simp add: nth_list_update)
  have "bfs_inv st sb tb source target 0 {} ?D [source]"
    unfolding bfs_inv_def
  proof (intro conjI)
    show "?D ! source = Some 0" "?D ! target = None" using D assms(2,3) False by simp_all
    show "\<forall>n<node_total st. \<forall>k. ?D ! n = Some k \<longrightarrow>
        (usable_step st sb tb ^^ k) source n \<and> (\<forall>j<k. \<not> (usable_step st sb tb ^^ j) source n)"
      by (simp add: D)
    show "\<forall>n<node_total st. ?D ! n \<noteq> None \<longrightarrow> n \<in> {} \<union> set [source] \<or>
        (\<forall>m. usable_step st sb tb n m \<longrightarrow> ?D ! m \<noteq> None)"
      by (simp add: D)
    show "\<exists>q1 q2. [source] = q1 @ q2 \<and> (\<forall>n\<in>set q1. n < node_total st \<and> ?D ! n = Some 0) \<and>
        (\<forall>n\<in>set q2. n < node_total st \<and> ?D ! n = Some (0 + 1))"
      using D assms(2) by (intro exI [of _ "[source]"] exI [of _ "[]"]) simp
  qed (use assms(2,3) in simp_all)
  from bfs_loop_inv [OF assms(1) this] False
  have *: "case bfs_min_hops st source target sb tb of
      Some h \<Rightarrow> (usable_step st sb tb ^^ h) source target \<and> (\<forall>j<h. \<not> (usable_step st sb tb ^^ j) source target)
    | None \<Rightarrow> \<not> (usable_step st sb tb)\<^sup>*\<^sup>* source target"
    by (simp add: bfs_min_hops_def)
  show ?thesis
  proof (cases "bfs_min_hops st source target sb tb")
    case None
    with * show ?thesis by (auto dest: relpowp_imp_rtranclp)
  next
    case (Some k)
    with * show ?thesis by (auto dest: relpowp_imp_rtranclp) (metis linorder_neqE_nat)
  qed
qed

section \<open>Properties\<close>

text \<open>The planner state of the small request, as the searches start with it.\<close>

definition small_state :: planner_state where
  "small_state = init_state bare_request 10 1000"

text \<open>Its value, for the evaluation of examples.\<close>

lemma small_state_eq [code]:
  "small_state =
   \<lparr>s_fabric = pair_fabric,
       s_policy = default_policy,
       s_node_allowed = [True, True], s_edge_allowed = [True, True],
       s_edge_cost = [10, 10], s_spare = [100, 100], s_demand = 10,
       s_hop_limit = 8, s_expansions = 0, s_max_expansions = 262144,
       s_enumeration_steps = 0, s_enumeration_budget = 1000,
       s_budget_exceeded = False, s_enumeration_exhausted = False,
       s_blocks =
         \<lparr>node_stamp = [0, 0], edge_stamp = [0, 0], bs_generation = 1\<rparr>\<rparr>"
  by code_simp

lemma small_state_fabric: "fabric_build pair_spec = Inr (s_fabric small_state)"
  using pair_fabric_built by (simp add: small_state_def init_state_def bare_request_def Let_def)

text \<open>
  C22: the generation-stamped block sets are sets: after a reset, which only advances a 32-bit
  counter and refills the stamps when it wraps, blocking some edges and then some nodes blocks
  exactly these, whatever was blocked before.
\<close>

theorem block_sets_exact:
  assumes "bs_wf b" "e < length (edge_stamp b)" "n < length (node_stamp b)"
  shows "(edge_blocked (fold block_node ns (fold block_edge es (bs_reset b))) e \<longleftrightarrow> e \<in> set es) \<and>
    (node_blocked (fold block_node ns (fold block_edge es (bs_reset b))) n \<longleftrightarrow> n \<in> set ns) \<and>
    bs_wf (fold block_node ns (fold block_edge es (bs_reset b)))"
proof -
  have e: "edge_blocked (fold block_edge es (bs_reset b)) e \<longleftrightarrow> e \<in> set es"
    using assms(1,2) by (intro edge_blocks.blocked_after) simp_all
  let ?m = "fold block_edge es (bs_reset b)"
  have m: "bs_wf ?m" "length (node_stamp ?m) = length (node_stamp b)"
    using block_edges_frame [OF bs_wf_reset [OF assms(1)], of es] by (simp_all add: bs_reset_lengths)
  have "\<not> node_blocked ?m n"
    using assms bs_reset_clears(1) [OF assms(1,3)] by (simp add: node_blocked_block_edges) (simp add: node_blocked_def)
  with e m assms(3) node_blocks.fold_block [OF m(1), of n ns] show ?thesis
    by (simp add: edge_blocked_block_nodes)
qed

theorem block_sets_exact_witness:
  "edge_blocked (fold block_node [0] (fold block_edge [1]
     (bs_reset (\<lparr>node_stamp = [5, 5], edge_stamp = [5, 0xFFFFFFFF], bs_generation = 0xFFFFFFFF\<rparr>)))) 1 \<and>
   \<not> edge_blocked (fold block_node [0] (fold block_edge [1]
     (bs_reset (\<lparr>node_stamp = [5, 5], edge_stamp = [5, 0xFFFFFFFF], bs_generation = 0xFFFFFFFF\<rparr>)))) 0"
proof -
  let ?b = "\<lparr>node_stamp = [5, 5], edge_stamp = [5, 0xFFFFFFFF], bs_generation = 0xFFFFFFFF\<rparr>"
  have "bs_wf ?b" by (simp add: bs_wf_def word_le_nat_alt)
  from block_sets_exact [OF this, of 1 0 "[0]" "[1]"] block_sets_exact [OF this, of 0 0 "[0]" "[1]"]
  show ?thesis by simp
qed

text \<open>
  C7: the breadth-first reachability test always ends and is exact on a built fabric: it reports
  \<open>h\<close> hops precisely when \<open>h\<close> is the least number of usable hops that lead from the source to
  the target, and reports unreachable precisely when no sequence of usable hops does.
\<close>

theorem reachability_exact:
  assumes "fabric_build spec = Inr (s_fabric st)" "source < node_total st" "target < node_total st"
  shows "(bfs_min_hops st source target sb tb = Some h \<longleftrightarrow>
      (usable_step st sb tb ^^ h) source target \<and> (\<forall>j<h. \<not> (usable_step st sb tb ^^ j) source target)) \<and>
    (bfs_min_hops st source target sb tb = None \<longleftrightarrow> \<not> (usable_step st sb tb)\<^sup>*\<^sup>* source target)"
  by (rule bfs_min_hops_exact [OF fabric_build_wf [OF assms(1)] assms(2,3)])

theorem reachability_exact_witness:
  "(usable_step small_state (plain_binding ''p1'' ''a'') (plain_binding ''p2'' ''b'') ^^ 1) 0 1 \<and>
   \<not> (usable_step small_state (plain_binding ''p1'' ''a'') (plain_binding ''p2'' ''b'') ^^ 0) 0 1"
proof -
  have n: "node_total small_state = 2" by code_simp
  have "bfs_min_hops small_state 0 1 (plain_binding ''p1'' ''a'') (plain_binding ''p2'' ''b'') = Some 1"
    by code_simp
  with reachability_exact [OF small_state_fabric, of 0 1 "plain_binding ''p1'' ''a''" "plain_binding ''p2'' ''b''" 1] n
  show ?thesis by simp
qed
end
