(* ===== verification/Enumerate.thy ===== *)
theory Enumerate
  imports Search
begin

text \<open>
  The bounded enumeration of the simple paths of a logical edge (\<open>enumerate_depth\<close> and
  \<open>enumerate_paths\<close> of \<open>src/planner.cpp\<close>) and its proof: an enumeration that reports
  itself exhaustive has found exactly the feasible simple paths.
\<close>

section \<open>Enumeration of simple paths\<close>

record enumeration =
  en_paths :: "nat list list"
  en_exhaustive :: bool
  en_steps :: nat
  en_step_limited :: bool

definition new_enumeration :: enumeration where
  "new_enumeration = \<lparr>en_paths = [], en_exhaustive = False, en_steps = 0, en_step_limited = False\<rparr>"

text \<open>
  The loop of \<open>enumerate_depth\<close> over the outgoing edges of a node. \<open>deeper\<close> is
  \<open>remaining - 1\<close>; the marks of \<open>visited\<close> and the stack \<open>current\<close> that the code restores
  after each call are passed down.
\<close>

fun enumerate_edges ::
  "nat \<Rightarrow> nat \<Rightarrow> nat \<Rightarrow> endpoint_binding \<Rightarrow> endpoint_binding \<Rightarrow> nat \<Rightarrow> nat \<Rightarrow> bool list \<Rightarrow> nat list \<Rightarrow> u64 \<Rightarrow>
   nat list \<Rightarrow> planner_state \<Rightarrow> enumeration \<Rightarrow> planner_state \<times> enumeration" where
  "enumerate_edges max_paths max_steps target sb tb deeper node visited current cost [] st out = (st, out)"
| "enumerate_edges max_paths max_steps target sb tb deeper node visited current cost (e # es) st out =
     (if en_steps out \<ge> max_steps \<or> length (en_paths out) > max_paths then (st, out)
      else if s_enumeration_steps st \<ge> s_enumeration_budget st
        then (st\<lparr>s_enumeration_exhausted := True\<rparr>, out\<lparr>en_step_limited := True\<rparr>)
      else let st1 = st\<lparr>s_enumeration_steps := s_enumeration_steps st + 1\<rparr>;
               out1 = out\<lparr>en_steps := en_steps out + 1\<rparr>;
               next_cost = saturating_add cost (s_edge_cost st ! e) kCostCeiling in
        case edge_target st e of
          None \<Rightarrow> enumerate_edges max_paths max_steps target sb tb deeper node visited current cost es st1 out1
        | Some n \<Rightarrow>
            if n = node \<or> \<not> hop_usable st e sb tb n \<or> visited ! n \<or> next_cost > max_path_cost (s_policy st)
              then enumerate_edges max_paths max_steps target sb tb deeper node visited current cost es st1 out1
            else if n = target then
              enumerate_edges max_paths max_steps target sb tb deeper node visited current cost es st1
                (if deeper = 0 then out1\<lparr>en_paths := en_paths out1 @ [current @ [e]]\<rparr> else out1)
            else (case deeper of
                0 \<Rightarrow> enumerate_edges max_paths max_steps target sb tb deeper node visited current cost es st1 out1
              | Suc deeper' \<Rightarrow>
                  (let (st2, out2) = enumerate_edges max_paths max_steps target sb tb deeper' n
                         (visited[n := True]) (current @ [e]) next_cost (out_edges (s_fabric st) n) st1 out1 in
                   enumerate_edges max_paths max_steps target sb tb deeper node visited current cost es st2 out2)))"

definition enumerate_depth ::
  "nat \<Rightarrow> nat \<Rightarrow> nat \<Rightarrow> endpoint_binding \<Rightarrow> endpoint_binding \<Rightarrow> nat \<Rightarrow> nat \<Rightarrow> bool list \<Rightarrow> nat list \<Rightarrow> u64 \<Rightarrow>
   planner_state \<Rightarrow> enumeration \<Rightarrow> planner_state \<times> enumeration" where
  "enumerate_depth max_paths max_steps target sb tb depth node visited current cost st out =
     (case depth of 0 \<Rightarrow> (st, out)
      | Suc deeper \<Rightarrow> enumerate_edges max_paths max_steps target sb tb deeper node visited current cost
                         (out_edges (s_fabric st) node) st out)"

text \<open>The deepening loop, over the depth limits still to be swept.\<close>

fun enumerate_limits ::
  "nat \<Rightarrow> nat \<Rightarrow> nat \<Rightarrow> nat \<Rightarrow> endpoint_binding \<Rightarrow> endpoint_binding \<Rightarrow> nat list \<Rightarrow>
   planner_state \<Rightarrow> enumeration \<Rightarrow> planner_state \<times> enumeration" where
  "enumerate_limits max_paths max_steps source target sb tb [] st out = (st, out\<lparr>en_exhaustive := True\<rparr>)"
| "enumerate_limits max_paths max_steps source target sb tb (limit # limits) st out =
     (let (st1, out1) = enumerate_depth max_paths max_steps target sb tb limit source
            ((replicate (length (nodes (s_fabric st))) False)[source := True]) [] 0 st out in
      if en_steps out1 \<ge> max_steps \<or> length (en_paths out1) > max_paths \<or>
         s_enumeration_steps st1 \<ge> s_enumeration_budget st1
      then (st1, out1\<lparr>en_step_limited := en_step_limited out1 \<or> en_steps out1 \<ge> max_steps \<or>
                        s_enumeration_steps st1 \<ge> s_enumeration_budget st1\<rparr>)
      else enumerate_limits max_paths max_steps source target sb tb limits st1 out1)"

definition enumerate_paths ::
  "planner_state \<Rightarrow> nat \<Rightarrow> nat \<Rightarrow> endpoint_binding \<Rightarrow> endpoint_binding \<Rightarrow> enumeration \<Rightarrow> nat \<Rightarrow> nat \<Rightarrow>
   planner_state \<times> enumeration" where
  "enumerate_paths st source target sb tb out max_paths max_steps =
     (let deepest = min (s_hop_limit st) (length (nodes (s_fabric st))) in
      enumerate_limits max_paths max_steps source target sb tb [1..<deepest + 1] st out)"


section \<open>The enumeration is exact\<close>

text \<open>
  The reference: all simple routes of exactly \<open>deeper + 1\<close> edges, in the order of the adjacency
  lists, without any bound.
\<close>

fun routes ::
  "planner_state \<Rightarrow> endpoint_binding \<Rightarrow> endpoint_binding \<Rightarrow> nat \<Rightarrow> nat \<Rightarrow> nat \<Rightarrow> bool list \<Rightarrow> u64 \<Rightarrow>
   nat list \<Rightarrow> nat list list" where
  "routes st sb tb target deeper node visited cost [] = []"
| "routes st sb tb target deeper node visited cost (e # es) =
     (let next_cost = saturating_add cost (s_edge_cost st ! e) kCostCeiling in
      case edge_target st e of None \<Rightarrow> []
      | Some n \<Rightarrow>
          if n = node \<or> \<not> hop_usable st e sb tb n \<or> visited ! n \<or> next_cost > max_path_cost (s_policy st) then []
          else if n = target then (if deeper = 0 then [[e]] else [])
          else (case deeper of 0 \<Rightarrow> []
            | Suc deeper' \<Rightarrow> map ((#) e) (routes st sb tb target deeper' n (visited[n := True]) next_cost
                                            (out_edges (s_fabric st) n))))
     @ routes st sb tb target deeper node visited cost es"

text \<open>A bound has been reached.\<close>

definition halted :: "nat \<Rightarrow> nat \<Rightarrow> planner_state \<Rightarrow> enumeration \<Rightarrow> bool" where
  "halted max_paths max_steps st out \<longleftrightarrow> en_steps out \<ge> max_steps \<or> length (en_paths out) > max_paths \<or>
     s_enumeration_steps st \<ge> s_enumeration_budget st"

text \<open>Two states that differ at most in what the enumeration has spent.\<close>

definition same_search :: "planner_state \<Rightarrow> planner_state \<Rightarrow> bool" where
  "same_search st st' \<longleftrightarrow>
     st' = st\<lparr>s_enumeration_steps := s_enumeration_steps st',
              s_enumeration_exhausted := s_enumeration_exhausted st'\<rparr>"

text \<open>
  What a part of the enumeration may do to its state: it spends, it appends only routes of the
  reference, and it appends all of them, in order, unless a bound has been reached.
\<close>

definition appends ::
  "nat \<Rightarrow> nat \<Rightarrow> nat list \<Rightarrow> nat list list \<Rightarrow> planner_state \<times> enumeration \<Rightarrow> planner_state \<times> enumeration \<Rightarrow> bool" where
  "appends max_paths max_steps current rs before after \<longleftrightarrow>
     (case (before, after) of ((st, out), (st', out')) \<Rightarrow>
        same_search st st' \<and> s_enumeration_steps st \<le> s_enumeration_steps st' \<and>
        en_steps out \<le> en_steps out' \<and> en_exhaustive out' = en_exhaustive out \<and>
        (\<not> halted max_paths max_steps st' out' \<longrightarrow> en_step_limited out' = en_step_limited out) \<and>
        (\<exists>xs. set xs \<subseteq> set rs \<and> en_paths out' = en_paths out @ map ((@) current) xs \<and>
           (\<not> halted max_paths max_steps st' out' \<longrightarrow> xs = rs)))"

lemma same_search_refl [simp]: "same_search st st"
  by (simp add: same_search_def)

lemma same_search_trans: "same_search a b \<Longrightarrow> same_search b c \<Longrightarrow> same_search a c"
  by (cases a; cases b; cases c) (simp add: same_search_def)

lemma same_searchD:
  assumes "same_search st st'"
  shows "s_fabric st' = s_fabric st" "s_policy st' = s_policy st" "s_edge_cost st' = s_edge_cost st"
    "s_enumeration_budget st' = s_enumeration_budget st" "s_hop_limit st' = s_hop_limit st"
    "edge_target st' = edge_target st" "hop_usable st' = hop_usable st"
proof -
  let ?s = "st\<lparr>s_enumeration_steps := s_enumeration_steps st', s_enumeration_exhausted := s_enumeration_exhausted st'\<rparr>"
  have eq: "st' = ?s" using assms unfolding same_search_def .
  have "edge_statically_usable ?s = edge_statically_usable st" "edge_carries_demand ?s = edge_carries_demand st"
    by (simp_all add: edge_statically_usable_def edge_carries_demand_def fun_eq_iff)
  then have "hop_usable ?s = hop_usable st" by (intro ext) (simp add: hop_usable_def)
  then show "hop_usable st' = hop_usable st" by (subst eq)
  show "edge_target st' = edge_target st" by (subst eq) (simp add: edge_target_def fun_eq_iff)
  show "s_fabric st' = s_fabric st" by (subst eq) simp
  show "s_policy st' = s_policy st" by (subst eq) simp
  show "s_edge_cost st' = s_edge_cost st" by (subst eq) simp
  show "s_enumeration_budget st' = s_enumeration_budget st" by (subst eq) simp
  show "s_hop_limit st' = s_hop_limit st" by (subst eq) simp
qed

lemma halted_mono:
  assumes "same_search st st'" "s_enumeration_steps st \<le> s_enumeration_steps st'" "en_steps out \<le> en_steps out'"
    "en_paths out' = en_paths out @ xs" "\<not> halted max_paths max_steps st' out'"
  shows "\<not> halted max_paths max_steps st out"
  using assms same_searchD(4) [OF assms(1)] by (auto simp: halted_def)

lemma appends_refl: "appends max_paths max_steps current [] s s"
  by (cases s) (simp add: appends_def)

lemma appends_stop: "halted max_paths max_steps st out \<Longrightarrow> appends max_paths max_steps current rs (st, out) (st, out)"
  by (simp add: appends_def exI [of _ "[]"])

lemma appends_trans:
  assumes ab: "appends max_paths max_steps current rs a b" and bc: "appends max_paths max_steps current rs' b c"
  shows "appends max_paths max_steps current (rs @ rs') a c"
proof -
  obtain st1 out1 st2 out2 st3 out3 where s: "a = (st1, out1)" "b = (st2, out2)" "c = (st3, out3)"
    by (cases a; cases b; cases c) blast
  obtain xs where xs: "set xs \<subseteq> set rs" "en_paths out2 = en_paths out1 @ map ((@) current) xs"
    "\<not> halted max_paths max_steps st2 out2 \<longrightarrow> xs = rs" using ab s by (auto simp: appends_def)
  obtain ys where ys: "set ys \<subseteq> set rs'" "en_paths out3 = en_paths out2 @ map ((@) current) ys"
    "\<not> halted max_paths max_steps st3 out3 \<longrightarrow> ys = rs'" using bc s by (auto simp: appends_def)
  have mid: "\<not> halted max_paths max_steps st3 out3 \<longrightarrow> \<not> halted max_paths max_steps st2 out2"
    using halted_mono bc ys(2) s by (auto simp: appends_def)
  have "same_search st1 st3" using ab bc s by (auto simp: appends_def intro: same_search_trans)
  then show ?thesis
    unfolding appends_def s prod.case
    using ab bc mid xs ys unfolding appends_def s prod.case
    by (intro conjI exI [of _ "xs @ ys"]) auto
qed

lemma appends_spend:
  "appends max_paths max_steps current [] (st, out)
     (st\<lparr>s_enumeration_steps := s_enumeration_steps st + 1\<rparr>, out\<lparr>en_steps := en_steps out + 1\<rparr>)"
  by (simp add: appends_def same_search_def)

lemma appends_push:
  "appends max_paths max_steps current [[e]] (st, out) (st, out\<lparr>en_paths := en_paths out @ [current @ [e]]\<rparr>)"
  by (auto simp: appends_def intro!: exI [of _ "[[e]]"])

lemma appends_below:
  assumes "appends max_paths max_steps (current @ [e]) rs s s'"
  shows "appends max_paths max_steps current (map ((#) e) rs) s s'"
proof -
  obtain st1 out1 st2 out2 where s: "s = (st1, out1)" "s' = (st2, out2)" by (cases s; cases s') blast
  obtain xs where xs: "set xs \<subseteq> set rs" "en_paths out2 = en_paths out1 @ map ((@) (current @ [e])) xs"
    "\<not> halted max_paths max_steps st2 out2 \<longrightarrow> xs = rs" using assms s by (auto simp: appends_def)
  have "map ((@) (current @ [e])) xs = map ((@) current) (map ((#) e) xs)" by simp
  then show ?thesis
    using assms xs unfolding appends_def s prod.case
    by (intro conjI exI [of _ "map ((#) e) xs"]) auto
qed

lemma enumerate_edges_appends:
  assumes "same_search st0 st"
  shows "appends max_paths max_steps current (routes st0 sb tb target deeper node visited cost es) (st, out)
     (enumerate_edges max_paths max_steps target sb tb deeper node visited current cost es st out)"
  using assms
proof (induction deeper arbitrary: node visited current cost es st out rule: less_induct)
  case (less deeper)
  note deeperIH = less.IH
  from less.prems show ?case
  proof (induction es arbitrary: st out)
    case Nil
    show ?case by (simp add: appends_refl)
  next
    case (Cons e es)
    let ?loop = "enumerate_edges max_paths max_steps target sb tb deeper node visited current cost es"
    let ?rest = "routes st0 sb tb target deeper node visited cost es"
    let ?st1 = "st\<lparr>s_enumeration_steps := s_enumeration_steps st + 1\<rparr>"
    let ?out1 = "out\<lparr>en_steps := en_steps out + 1\<rparr>"
    let ?cost = "saturating_add cost (s_edge_cost st0 ! e) kCostCeiling"
    note same = same_searchD [OF Cons.prems]
    have same1: "same_search st0 ?st1"
      using same_search_trans [OF Cons.prems, of ?st1] by (simp add: same_search_def)
    note spend = appends_spend [of max_paths max_steps current st out]
    note tail = Cons.IH [OF same1, of ?out1]
    have skip: "appends max_paths max_steps current ?rest (st, out) (?loop ?st1 ?out1)"
      using appends_trans [OF spend tail] by simp
    show ?case
    proof (cases "halted max_paths max_steps st out")
      case True
      then show ?thesis
        using appends_stop [OF True] by (auto simp: halted_def appends_def same_search_def intro!: exI [of _ "[]"])
    next
      case False
      then have go: "\<not> (en_steps out \<ge> max_steps \<or> length (en_paths out) > max_paths)"
        "\<not> s_enumeration_steps st \<ge> s_enumeration_budget st" by (auto simp: halted_def)
      show ?thesis
      proof (cases "\<exists>n. edge_target st0 e = Some n \<and> n \<noteq> node \<and> hop_usable st0 e sb tb n \<and> \<not> visited ! n \<and>
          ?cost \<le> max_path_cost (s_policy st0)")
        case False
        then have "enumerate_edges max_paths max_steps target sb tb deeper node visited current cost (e # es) st out =
            ?loop ?st1 ?out1" "routes st0 sb tb target deeper node visited cost (e # es) = ?rest"
          using go by (auto simp: same Let_def not_less split: option.split)
        with skip show ?thesis by simp
      next
        case True
        then obtain n where n: "edge_target st0 e = Some n" "n \<noteq> node" "hop_usable st0 e sb tb n"
          "\<not> visited ! n" "\<not> ?cost > max_path_cost (s_policy st0)" by (auto simp: not_less)
        show ?thesis
        proof (cases "n = target")
          case True
          have push: "appends max_paths max_steps current (if deeper = 0 then [[e]] else []) (?st1, ?out1)
              (?st1, if deeper = 0 then ?out1\<lparr>en_paths := en_paths ?out1 @ [current @ [e]]\<rparr> else ?out1)"
            using appends_push [of max_paths max_steps current e ?st1 ?out1]
            by (cases "deeper = 0") (simp_all add: appends_refl)
          from appends_trans [OF appends_trans [OF spend push] Cons.IH [OF same1]]
          show ?thesis using go n True by (cases "deeper = 0") (simp_all add: same Let_def)
        next
          case notarget: False
          show ?thesis
          proof (cases deeper)
            case 0
            with go n notarget skip show ?thesis by (simp add: same Let_def)
          next
            case (Suc deeper')
            obtain st2 out2 where below: "enumerate_edges max_paths max_steps target sb tb deeper' n
                (visited[n := True]) (current @ [e]) ?cost (out_edges (s_fabric st0) n) ?st1 ?out1 = (st2, out2)"
              by fastforce
            have "appends max_paths max_steps (current @ [e]) (routes st0 sb tb target deeper' n (visited[n := True])
                ?cost (out_edges (s_fabric st0) n)) (?st1, ?out1) (st2, out2)"
              using deeperIH [OF _ same1, of deeper' "current @ [e]" n "visited[n := True]" ?cost
                  "out_edges (s_fabric st0) n" ?out1] below Suc by simp
            note part = appends_below [OF this]
            then have "same_search st0 st2"
              using same1 by (auto simp: appends_def intro: same_search_trans)
            from appends_trans [OF appends_trans [OF spend part] Cons.IH [OF this]] below
            show ?thesis using go n notarget Suc by (simp add: same Let_def)
          qed
        qed
      qed
    qed
  qed
qed

section \<open>Feasible paths\<close>

text \<open>A path the planner may give a logical edge: connected, usable, simple and within the cost limit.\<close>

fun connected :: "planner_state \<Rightarrow> endpoint_binding \<Rightarrow> endpoint_binding \<Rightarrow> nat \<Rightarrow> nat list \<Rightarrow> nat \<Rightarrow> bool" where
  "connected st sb tb node [] target \<longleftrightarrow> node = target"
| "connected st sb tb node (e # es) target \<longleftrightarrow>
     e \<in> set (out_edges (s_fabric st) node) \<and>
     (\<exists>n. edge_target st e = Some n \<and> hop_usable st e sb tb n \<and> connected st sb tb n es target)"

definition path_nodes :: "planner_state \<Rightarrow> nat list \<Rightarrow> nat list" where
  "path_nodes st es = map (\<lambda>e. the (edge_target st e)) es"

definition path_cost :: "planner_state \<Rightarrow> u64 \<Rightarrow> nat list \<Rightarrow> u64" where
  "path_cost st cost es = foldl (\<lambda>c e. saturating_add c (s_edge_cost st ! e) kCostCeiling) cost es"

definition feasible_path ::
  "planner_state \<Rightarrow> endpoint_binding \<Rightarrow> endpoint_binding \<Rightarrow> nat \<Rightarrow> nat \<Rightarrow> nat list \<Rightarrow> bool" where
  "feasible_path st sb tb source target es \<longleftrightarrow>
     es \<noteq> [] \<and> connected st sb tb source es target \<and> distinct (source # path_nodes st es) \<and>
     path_cost st 0 es \<le> max_path_cost (s_policy st)"

lemma path_cost_simps [simp]:
  "path_cost st c [] = c"
  "path_cost st c (e # es) = path_cost st (saturating_add c (s_edge_cost st ! e) kCostCeiling) es"
  by (simp_all add: path_cost_def)

lemma path_cost_ge: "c \<le> kCostCeiling \<Longrightarrow> c \<le> path_cost st c es"
proof (induction es arbitrary: c)
  case (Cons e es)
  let ?c = "saturating_add c (s_edge_cost st ! e) kCostCeiling"
  have "c \<le> ?c" using Cons.prems by (simp add: word_le_nat_alt unat_saturating_add)
  with Cons.IH [of ?c] show ?case by (simp add: saturating_add_le order_trans [of c ?c])
qed simp

text \<open>The set of reference routes that start with one of the given edges.\<close>

definition routes_spec ::
  "planner_state \<Rightarrow> endpoint_binding \<Rightarrow> endpoint_binding \<Rightarrow> nat \<Rightarrow> nat \<Rightarrow> nat \<Rightarrow> bool list \<Rightarrow> u64 \<Rightarrow> nat list \<Rightarrow> bool" where
  "routes_spec st sb tb target deeper node visited cost p \<longleftrightarrow>
     length p = Suc deeper \<and> connected st sb tb node p target \<and> distinct (path_nodes st p) \<and>
     (\<forall>n\<in>set (path_nodes st p). \<not> visited ! n) \<and> path_cost st cost p \<le> max_path_cost (s_policy st)"

lemma connected_ends: "connected st sb tb node p target \<Longrightarrow> p \<noteq> [] \<Longrightarrow> last (path_nodes st p) = target"
  by (induction p arbitrary: node) (auto simp: path_nodes_def split: if_splits)

lemma routes_spec_Cons:
  assumes wf: "fabric_wf (s_fabric st)" and len: "length visited = node_total st" and node: "visited ! node"
    and cost: "cost \<le> kCostCeiling"
  shows "routes_spec st sb tb target deeper node visited cost (e # p) \<longleftrightarrow>
    e \<in> set (out_edges (s_fabric st) node) \<and>
    (\<exists>n. edge_target st e = Some n \<and> n \<noteq> node \<and> hop_usable st e sb tb n \<and> \<not> visited ! n \<and>
       saturating_add cost (s_edge_cost st ! e) kCostCeiling \<le> max_path_cost (s_policy st) \<and>
       (if n = target then deeper = 0 \<and> p = []
        else \<exists>deeper'. deeper = Suc deeper' \<and>
          routes_spec st sb tb target deeper' n (visited[n := True])
            (saturating_add cost (s_edge_cost st ! e) kCostCeiling) p))" (is "?L \<longleftrightarrow> ?R")
proof (cases "\<exists>n. edge_target st e = Some n \<and> \<not> visited ! n")
  case False
  then show ?thesis by (auto simp: routes_spec_def path_nodes_def)
next
  case True
  then obtain n where n: "edge_target st e = Some n" "\<not> visited ! n" by blast
  let ?c = "saturating_add cost (s_edge_cost st ! e) kCostCeiling"
  have nlt: "n < length visited" using edge_target_bound [OF wf n(1)] len by simp
  have vis: "(\<forall>m\<in>set (path_nodes st p). \<not> visited[n := True] ! m) \<longleftrightarrow>
      n \<notin> set (path_nodes st p) \<and> (\<forall>m\<in>set (path_nodes st p). \<not> visited ! m)"
    using nlt by (metis nth_list_update_eq nth_list_update_neq)
  have c: "?c \<le> path_cost st ?c p" by (rule path_cost_ge [OF saturating_add_le])
  have nn: "n \<noteq> node" using n(2) node by auto
  have tgt: "n \<in> set (path_nodes st p)" if "connected st sb tb n p target" "p \<noteq> []" "n = target"
  proof -
    have "path_nodes st p \<noteq> []" using that(2) by (simp add: path_nodes_def)
    then show ?thesis using connected_ends [OF that(1,2)] that(3) last_in_set by metis
  qed
  have empty: "connected st sb tb n [] target \<longleftrightarrow> n = target" by simp
  have "?L \<longleftrightarrow> length p = deeper \<and> e \<in> set (out_edges (s_fabric st) node) \<and> hop_usable st e sb tb n \<and>
      connected st sb tb n p target \<and> distinct (path_nodes st p) \<and> n \<notin> set (path_nodes st p) \<and>
      (\<forall>m\<in>set (path_nodes st p). \<not> visited ! m) \<and> path_cost st ?c p \<le> max_path_cost (s_policy st)"
    using n by (auto simp: routes_spec_def path_nodes_def)
  also have "\<dots> \<longleftrightarrow> ?R"
  proof (cases "n = target")
    case True
    then show ?thesis using n nn tgt order_trans [OF c] by (auto simp: path_nodes_def)
  next
    case False
    have "?R \<longleftrightarrow> e \<in> set (out_edges (s_fabric st) node) \<and> hop_usable st e sb tb n \<and>
        ?c \<le> max_path_cost (s_policy st) \<and> (\<exists>deeper'. deeper = Suc deeper' \<and>
          routes_spec st sb tb target deeper' n (visited[n := True]) ?c p)"
      using n nn False by simp
    then show ?thesis
      unfolding routes_spec_def vis using False c order_trans [OF c] by (cases p) auto
  qed
  finally show ?thesis .
qed

lemma routes_spec_starts:
  "routes_spec st sb tb target deeper node visited cost p \<Longrightarrow> \<exists>e q. p = e # q \<and> e \<in> set (out_edges (s_fabric st) node)"
  by (cases p) (auto simp: routes_spec_def)

lemma set_routes:
  assumes wf: "fabric_wf (s_fabric st)"
    and "length visited = node_total st" "node < node_total st" "visited ! node" "cost \<le> kCostCeiling"
    and "set es \<subseteq> set (out_edges (s_fabric st) node)"
  shows "set (routes st sb tb target deeper node visited cost es) =
    {p. routes_spec st sb tb target deeper node visited cost p \<and> hd p \<in> set es}"
  using assms(2-)
proof (induction deeper arbitrary: node visited cost es rule: less_induct)
  case (less deeper)
  note deeperIH = less.IH
  from less.prems show ?case
  proof (induction es)
    case Nil
    then show ?case by simp
  next
    case (Cons e es)
    let ?c = "saturating_add cost (s_edge_cost st ! e) kCostCeiling"
    let ?new = "set (routes st sb tb target deeper node visited cost [e])"
    have "?new = {p. routes_spec st sb tb target deeper node visited cost p \<and> hd p = e}"
    proof (cases "\<exists>n. edge_target st e = Some n \<and> n \<noteq> node \<and> hop_usable st e sb tb n \<and> \<not> visited ! n \<and>
        ?c \<le> max_path_cost (s_policy st)")
      case False
      then have "?new = {}" by (auto simp: Let_def not_less split: option.split)
      moreover have "\<not> routes_spec st sb tb target deeper node visited cost (e # p)" for p
        using False Cons.prems by (auto simp: routes_spec_Cons [OF wf])
      ultimately show ?thesis using routes_spec_starts [of st sb tb target deeper node visited cost] by fastforce
    next
      case True
      then obtain n where n: "edge_target st e = Some n" "n \<noteq> node" "hop_usable st e sb tb n" "\<not> visited ! n"
        "?c \<le> max_path_cost (s_policy st)" by blast
      have e: "e \<in> set (out_edges (s_fabric st) node)" using Cons.prems by simp
      have nlt: "n < node_total st" by (rule edge_target_bound [OF wf n(1)])
      have spec: "routes_spec st sb tb target deeper node visited cost (e # p) \<longleftrightarrow>
          (if n = target then deeper = 0 \<and> p = []
           else \<exists>deeper'. deeper = Suc deeper' \<and>
             routes_spec st sb tb target deeper' n (visited[n := True]) ?c p)" for p
        using Cons.prems e n by (simp add: routes_spec_Cons [OF wf])
      have "?new = {e # p |p. routes_spec st sb tb target deeper node visited cost (e # p)}"
      proof (cases "n = target \<or> deeper = 0")
        case True
        then show ?thesis unfolding spec using n by (auto simp: Let_def split: nat.split)
      next
        case False
        then obtain deeper' where d: "deeper = Suc deeper'" by (cases deeper) auto
        have "set (routes st sb tb target deeper' n (visited[n := True]) ?c (out_edges (s_fabric st) n)) =
            {p. routes_spec st sb tb target deeper' n (visited[n := True]) ?c p}"
          using deeperIH [of deeper' "visited[n := True]" n ?c "out_edges (s_fabric st) n"] Cons.prems(1) nlt d
            routes_spec_starts [of st sb tb target deeper' n "visited[n := True]" ?c]
          by (auto simp: saturating_add_le) fastforce
        then show ?thesis unfolding spec using n False d by (auto simp: Let_def)
      qed
      then show ?thesis using routes_spec_starts [of st sb tb target deeper node visited cost] by fastforce
    qed
    moreover have "set (routes st sb tb target deeper node visited cost (e # es)) =
        ?new \<union> set (routes st sb tb target deeper node visited cost es)" by simp
    ultimately show ?case using Cons by auto
  qed
qed

lemma feasible_route:
  assumes wf: "fabric_wf (s_fabric st)" and source: "source < node_total st"
  shows "set (routes st sb tb target deeper source ((replicate (node_total st) False)[source := True]) 0
      (out_edges (s_fabric st) source)) =
    {p. feasible_path st sb tb source target p \<and> length p = Suc deeper}"
proof -
  let ?v = "(replicate (node_total st) False)[source := True]"
  have v: "?v ! n \<longleftrightarrow> n = source" if "n < node_total st" for n
    using that by (cases "n = source") simp_all
  have bound: "n < node_total st" if "n \<in> set (path_nodes st p)" "connected st sb tb a p target" for n a p
    using that
  proof (induction p arbitrary: a)
    case (Cons e p)
    then show ?case using edge_target_bound [OF wf, of e] by (auto simp: path_nodes_def)
  qed (simp add: path_nodes_def)
  have "routes_spec st sb tb target deeper source ?v 0 p \<longleftrightarrow>
      feasible_path st sb tb source target p \<and> length p = Suc deeper" for p
    using bound v by (auto simp: routes_spec_def feasible_path_def)
  moreover have "routes_spec st sb tb target deeper source ?v 0 p \<Longrightarrow> hd p \<in> set (out_edges (s_fabric st) source)" for p
    using routes_spec_starts by fastforce
  ultimately show ?thesis
    using set_routes [OF wf, of ?v source 0 "out_edges (s_fabric st) source" sb tb target deeper] source by auto
qed

lemma feasible_path_bounds:
  assumes wf: "fabric_wf (s_fabric st)" and source: "source < node_total st"
    and p: "feasible_path st sb tb source target p"
  shows "0 < length p" "length p < node_total st"
proof -
  have "set (path_nodes st p) \<subseteq> {..<node_total st}" if "connected st sb tb a p target" for a
    using that
  proof (induction p arbitrary: a)
    case (Cons e p)
    then show ?case using edge_target_bound [OF wf, of e] by (auto simp: path_nodes_def)
  qed (simp add: path_nodes_def)
  with p source have "set (source # path_nodes st p) \<subseteq> {..<node_total st}" by (auto simp: feasible_path_def)
  then have "card (set (source # path_nodes st p)) \<le> node_total st"
    using card_mono [of "{..<node_total st}"] by fastforce
  moreover have "card (set (source # path_nodes st p)) = Suc (length p)"
    using p distinct_card [of "source # path_nodes st p"] by (simp add: feasible_path_def path_nodes_def)
  ultimately show "length p < node_total st" by simp
  show "0 < length p" using p by (simp add: feasible_path_def)
qed

lemma feasible_path_same:
  assumes "same_search st st'"
  shows "feasible_path st' = feasible_path st"
proof -
  note same = same_searchD [OF assms]
  have "connected st' sb tb a p b = connected st sb tb a p b" for sb tb a p b
    by (induction p arbitrary: a) (simp_all add: same)
  moreover have "path_nodes st' = path_nodes st" "path_cost st' = path_cost st"
    by (simp_all add: path_nodes_def path_cost_def same fun_eq_iff)
  ultimately show ?thesis by (simp add: feasible_path_def same fun_eq_iff)
qed

lemma enumerate_limits_exact:
  assumes wf: "fabric_wf (s_fabric st)" and source: "source < node_total st"
  shows "0 \<notin> set ls \<Longrightarrow> \<not> en_exhaustive out \<Longrightarrow> same_search st st1 \<Longrightarrow>
    enumerate_limits max_paths max_steps source target sb tb ls st1 out = (st', out') \<Longrightarrow>
    same_search st st' \<and>
    set (en_paths out') \<subseteq> set (en_paths out) \<union> {p. feasible_path st sb tb source target p \<and> length p \<in> set ls} \<and>
    (en_exhaustive out' \<longrightarrow>
       set (en_paths out') = set (en_paths out) \<union> {p. feasible_path st sb tb source target p \<and> length p \<in> set ls}) \<and>
    (ls \<noteq> [] \<longrightarrow> en_exhaustive out' = (\<not> halted max_paths max_steps st' out'))"
proof (induction ls arbitrary: st1 out)
  case Nil
  then show ?case by auto
next
  case (Cons l ls)
  let ?v = "(replicate (node_total st) False)[source := True]"
  obtain d where l: "l = Suc d" using Cons.prems(1) by (cases l) auto
  note same = same_searchD [OF Cons.prems(3)]
  obtain st2 out2 where two: "enumerate_edges max_paths max_steps target sb tb d source ?v [] 0
      (out_edges (s_fabric st) source) st1 out = (st2, out2)" by fastforce
  have depth: "enumerate_depth max_paths max_steps target sb tb l source
      ((replicate (length (nodes (s_fabric st1))) False)[source := True]) [] 0 st1 out = (st2, out2)"
    using two by (simp add: enumerate_depth_def l same)
  have ap: "appends max_paths max_steps [] (routes st sb tb target d source ?v 0 (out_edges (s_fabric st) source))
      (st1, out) (st2, out2)"
    using enumerate_edges_appends [OF Cons.prems(3), of max_paths max_steps "[]" sb tb target d source ?v 0
        "out_edges (s_fabric st) source" out] by (simp add: two)
  have set_r: "set (routes st sb tb target d source ?v 0 (out_edges (s_fabric st) source)) =
      {p. feasible_path st sb tb source target p \<and> length p = l}"
    using feasible_route [OF wf source, of sb tb target d] l by simp
  obtain xs where xs: "set xs \<subseteq> {p. feasible_path st sb tb source target p \<and> length p = l}"
    "en_paths out2 = en_paths out @ xs"
    "\<not> halted max_paths max_steps st2 out2 \<Longrightarrow> set xs = {p. feasible_path st sb tb source target p \<and> length p = l}"
  proof -
    from ap obtain ys where ys: "set ys \<subseteq> set (routes st sb tb target d source ?v 0 (out_edges (s_fabric st) source))"
      "en_paths out2 = en_paths out @ map ((@) []) ys" "\<not> halted max_paths max_steps st2 out2 \<longrightarrow>
        ys = routes st sb tb target d source ?v 0 (out_edges (s_fabric st) source)"
      unfolding appends_def prod.case by blast
    have "map ((@) []) ys = ys" by (simp add: map_idI)
    with ys set_r show thesis by (intro that [of ys]) auto
  qed
  have same2: "same_search st st2" and ex2: "\<not> en_exhaustive out2"
    using ap Cons.prems(2,3) by (auto simp: appends_def intro: same_search_trans)
  show ?case
  proof (cases "halted max_paths max_steps st2 out2")
    case True
    then have "st' = st2" "en_paths out' = en_paths out2" "\<not> en_exhaustive out'" "en_steps out' = en_steps out2"
      using Cons.prems(4) ex2 by (auto simp: depth halted_def Let_def)
    with True xs same2 show ?thesis by (auto simp: halted_def)
  next
    case False
    then have rec: "enumerate_limits max_paths max_steps source target sb tb ls st2 out2 = (st', out')"
      using Cons.prems(4) by (simp add: depth halted_def)
    have "0 \<notin> set ls" using Cons.prems(1) by simp
    note IH = Cons.IH [OF this ex2 same2 rec]
    have "en_exhaustive out' = (\<not> halted max_paths max_steps st' out')"
    proof (cases "ls = []")
      case True
      then show ?thesis using rec False by (auto simp: halted_def)
    qed (use IH in blast)
    moreover have "set (en_paths out2) = set (en_paths out) \<union> {p. feasible_path st sb tb source target p \<and> length p = l}"
      using xs(2,3) False by simp
    ultimately show ?thesis using IH by auto
  qed
qed

lemma enumerate_paths_exact:
  assumes wf: "fabric_wf (s_fabric st)" and source: "source < node_total st" and hops: "0 < s_hop_limit st"
    and run: "enumerate_paths st source target sb tb new_enumeration max_paths max_steps = (st', out)"
  shows "set (en_paths out) \<subseteq> {p. feasible_path st sb tb source target p \<and> length p \<le> s_hop_limit st}"
    "en_exhaustive out \<longleftrightarrow> \<not> halted max_paths max_steps st' out"
    "en_exhaustive out \<Longrightarrow>
       set (en_paths out) = {p. feasible_path st sb tb source target p \<and> length p \<le> s_hop_limit st}"
    "same_search st st'"
proof -
  let ?ls = "[1..<min (s_hop_limit st) (node_total st) + 1]"
  have ne: "?ls \<noteq> []" using hops source by simp
  have lens: "length p \<in> set ?ls \<longleftrightarrow> length p \<le> s_hop_limit st" if "feasible_path st sb tb source target p" for p
    using feasible_path_bounds [OF wf source that] hops by (auto simp: Suc_le_eq)
  have run': "enumerate_limits max_paths max_steps source target sb tb ?ls st new_enumeration = (st', out)"
    using run unfolding enumerate_paths_def Let_def .
  have ex: "\<not> en_exhaustive new_enumeration" "en_paths new_enumeration = []" by (simp_all add: new_enumeration_def)
  have z: "0 \<notin> set ?ls" by (simp del: upt_Suc)
  note exact = enumerate_limits_exact [OF wf source z ex(1) same_search_refl run', unfolded ex(2)]
  show "same_search st st'" using exact by blast
  show "en_exhaustive out \<longleftrightarrow> \<not> halted max_paths max_steps st' out" using exact ne by blast
  show "set (en_paths out) \<subseteq> {p. feasible_path st sb tb source target p \<and> length p \<le> s_hop_limit st}"
    using exact lens by auto
  show "set (en_paths out) = {p. feasible_path st sb tb source target p \<and> length p \<le> s_hop_limit st}"
    if "en_exhaustive out" using exact that lens by auto
qed

section \<open>Properties\<close>

text \<open>
  C6: the enumeration of simple paths is sound and says truthfully whether it is complete. On a
  built fabric, every path it lists is feasible (connected by usable hops from source to target, no
  node twice, within the cost limit) and within the hop limit; it reports itself exhaustive exactly
  when none of its three bounds was reached; and then it lists all feasible paths within the hop
  limit.
\<close>

theorem enumeration_exact:
  assumes "fabric_build spec = Inr (s_fabric st)" "source < node_total st" "0 < s_hop_limit st"
    and "enumerate_paths st source target sb tb new_enumeration max_paths max_steps = (st', out)"
  shows "set (en_paths out) \<subseteq> {p. feasible_path st sb tb source target p \<and> length p \<le> s_hop_limit st} \<and>
    (en_exhaustive out \<longleftrightarrow> en_steps out < max_steps \<and> length (en_paths out) \<le> max_paths \<and>
       s_enumeration_steps st' < s_enumeration_budget st') \<and>
    (en_exhaustive out \<longrightarrow>
       set (en_paths out) = {p. feasible_path st sb tb source target p \<and> length p \<le> s_hop_limit st})"
  using enumerate_paths_exact [OF fabric_build_wf [OF assms(1)] assms(2-)] by (auto simp: halted_def)

theorem enumeration_exact_witness:
  "{p. feasible_path small_state (plain_binding ''p1'' ''a'') (plain_binding ''p2'' ''b'') 0 1 p \<and> length p \<le> 8} =
   {[0]}"
proof -
  let ?run = "enumerate_paths small_state 0 1 (plain_binding ''p1'' ''a'') (plain_binding ''p2'' ''b'')
    new_enumeration 64 512"
  have facts: "en_paths (snd ?run) = [[0]] \<and> en_exhaustive (snd ?run) \<and> node_total small_state = 2 \<and>
    s_hop_limit small_state = 8" by code_simp
  obtain st' out where run: "?run = (st', out)" by fastforce
  show ?thesis
    using enumeration_exact [OF small_state_fabric _ _ run] facts run by auto
qed
end
