(* ===== verification/Shortest.thy ===== *)
theory Shortest
  imports Enumerate
begin

text \<open>
  The hop-limited shortest simple path search (\<open>shortest_path\<close> of \<open>src/planner.cpp\<close>)
  and its proof: the search always ends, a path it returns is a cheapest feasible one within the hop
  limit, and an unlimited search that returns nothing has shown that there is none.

  The key \<open>state_key(node, hops)\<close> packs two 32-bit values into one word (\<open>state_key_inj\<close>);
  the maps \<open>dist\<close> and \<open>prev\<close> are indexed by the pair. The priority queue is the list of its
  labels in \<open>LabelGreater\<close> order, \<open>(cost, hops, node)\<close>, so that its top is the head.
\<close>

section \<open>The search\<close>

definition state_key :: "u32 \<Rightarrow> u32 \<Rightarrow> u64" where
  "state_key node hops = or (push_bit 32 (ucast node)) (ucast hops)"

type_synonym search_key = "nat \<times> nat"
type_synonym label = "u64 \<times> nat \<times> nat"

record search_outcome =
  so_found :: bool
  so_budget_exceeded :: bool
  so_cost :: u64
  so_edges :: "nat list"

definition no_outcome :: search_outcome where
  "no_outcome = \<lparr>so_found = False, so_budget_exceeded = False, so_cost = 0, so_edges = []\<rparr>"

record search_space =
  sp_dist :: "search_key \<Rightarrow> u64 option"
  sp_prev :: "search_key \<Rightarrow> (search_key \<times> nat) option"
  sp_frontier :: "label list"

text \<open>The relaxation of the outgoing edges of the node a label was popped for.\<close>

fun relax_edges ::
  "planner_state \<Rightarrow> endpoint_binding \<Rightarrow> endpoint_binding \<Rightarrow> u64 \<Rightarrow> nat \<Rightarrow> nat \<Rightarrow> nat list \<Rightarrow>
   search_space \<Rightarrow> search_space" where
  "relax_edges st sb tb cost hops node [] sp = sp"
| "relax_edges st sb tb cost hops node (e # es) sp =
     (case edge_target st e of
        None \<Rightarrow> relax_edges st sb tb cost hops node es sp
      | Some n \<Rightarrow>
          if \<not> hop_usable st e sb tb n then relax_edges st sb tb cost hops node es sp
          else let next_cost = saturating_add cost (s_edge_cost st ! e) kCostCeiling;
                   next_key = (n, hops + 1) in
            if next_cost > max_path_cost (s_policy st) then relax_edges st sb tb cost hops node es sp
            else if (case sp_dist sp next_key of None \<Rightarrow> True | Some known \<Rightarrow> next_cost < known) then
              relax_edges st sb tb cost hops node es
                (sp\<lparr>sp_dist := (sp_dist sp)(next_key \<mapsto> next_cost),
                    sp_prev := (sp_prev sp)(next_key \<mapsto> ((node, hops), e)),
                    sp_frontier := insort (next_cost, hops + 1, n) (sp_frontier sp)\<rparr>)
            else relax_edges st sb tb cost hops node es sp)"

text \<open>
  The walk back over \<open>prev\<close>. Every entry leads to a key with one hop less
  (\<open>search_inv_trace\<close>), so the hop count of the first key is enough fuel.
\<close>

fun trace ::
  "nat \<Rightarrow> (search_key \<Rightarrow> (search_key \<times> nat) option) \<Rightarrow> search_key \<Rightarrow> search_key \<Rightarrow> nat list option" where
  "trace fuel prev start cursor =
     (if cursor = start then Some []
      else case fuel of 0 \<Rightarrow> None
      | Suc fuel' \<Rightarrow> (case prev cursor of None \<Rightarrow> None
          | Some (prior, e) \<Rightarrow> map_option (\<lambda>es. es @ [e]) (trace fuel' prev start prior)))"

text \<open>
  The main loop; \<open>expansions\<close> is the counter of the planner state, the only part of it that the
  loop changes besides \<open>budget_exceeded\<close>.
\<close>

function shortest_loop ::
  "planner_state \<Rightarrow> endpoint_binding \<Rightarrow> endpoint_binding \<Rightarrow> nat \<Rightarrow> nat \<Rightarrow> nat \<Rightarrow> search_space \<Rightarrow>
   nat \<times> search_outcome" where
  "shortest_loop st sb tb source target expansions sp =
     (case sp_frontier sp of [] \<Rightarrow> (expansions, no_outcome)
      | (cost, hops, node) # rest \<Rightarrow>
          let popped = sp\<lparr>sp_frontier := rest\<rparr> in
          if (case sp_dist sp (node, hops) of None \<Rightarrow> True | Some known \<Rightarrow> known < cost)
            then shortest_loop st sb tb source target expansions popped
          else if node = target then
            (expansions,
             case trace hops (sp_prev sp) (source, 0) (node, hops) of
               None \<Rightarrow> no_outcome\<lparr>so_cost := cost\<rparr>
             | Some es \<Rightarrow> \<lparr>so_found = True, so_budget_exceeded = False, so_cost = cost, so_edges = es\<rparr>)
          else if expansions \<ge> s_max_expansions st then (expansions, no_outcome\<lparr>so_budget_exceeded := True\<rparr>)
          else if hops \<ge> s_hop_limit st then shortest_loop st sb tb source target (expansions + 1) popped
          else shortest_loop st sb tb source target (expansions + 1)
                 (relax_edges st sb tb cost hops node (out_edges (s_fabric st) node) popped))"
  by pat_completeness auto
termination
  by (relation "measures [\<lambda>(st, sb, tb, source, target, expansions, sp). s_max_expansions st - expansions,
      \<lambda>(st, sb, tb, source, target, expansions, sp). length (sp_frontier sp)]") auto

declare shortest_loop.simps [simp del]

definition shortest_path ::
  "planner_state \<Rightarrow> nat \<Rightarrow> nat \<Rightarrow> endpoint_binding \<Rightarrow> endpoint_binding \<Rightarrow> planner_state \<times> search_outcome" where
  "shortest_path st source target sb tb =
     (if source = target then (st, no_outcome\<lparr>so_found := True\<rparr>)
      else if \<not> s_node_allowed st ! source \<or> \<not> s_node_allowed st ! target then (st, no_outcome)
      else let start = \<lparr>sp_dist = [(source, 0) \<mapsto> 0], sp_prev = Map.empty, sp_frontier = [(0, 0, source)]\<rparr>;
               (expansions, outcome) = shortest_loop st sb tb source target (s_expansions st) start in
        (st\<lparr>s_expansions := expansions,
            s_budget_exceeded := s_budget_exceeded st \<or> so_budget_exceeded outcome\<rparr>, outcome))"

section \<open>The search is exact\<close>

lemma state_key_inj: "state_key n h = state_key n' h' \<longleftrightarrow> n = n' \<and> h = h'"
proof
  assume eq: "state_key n h = state_key n' h'"
  have hi: "drop_bit 32 (state_key a b) = (ucast a :: u64)" for a b
    by (rule bit_word_eqI) (auto simp: state_key_def bit_simps dest: bit_imp_le_length)
  have lo: "take_bit 32 (state_key a b) = (ucast b :: u64)" for a b
    by (rule bit_word_eqI) (auto simp: state_key_def bit_simps dest: bit_imp_le_length)
  have "(ucast n :: u64) = ucast n'" "(ucast h :: u64) = ucast h'" using hi lo eq by metis+
  then show "n = n' \<and> h = h'" by (auto simp: bit_eq_iff bit_simps)
qed simp

text \<open>One usable hop, and the cost after it.\<close>

definition hop_step ::
  "planner_state \<Rightarrow> endpoint_binding \<Rightarrow> endpoint_binding \<Rightarrow> nat \<Rightarrow> nat \<Rightarrow> nat \<Rightarrow> bool" where
  "hop_step st sb tb a e b \<longleftrightarrow>
     e \<in> set (out_edges (s_fabric st) a) \<and> edge_target st e = Some b \<and> hop_usable st e sb tb b"

definition add_cost :: "planner_state \<Rightarrow> u64 \<Rightarrow> nat \<Rightarrow> u64" where
  "add_cost st c e = saturating_add c (s_edge_cost st ! e) kCostCeiling"

lemma add_cost_ge: "c \<le> kCostCeiling \<Longrightarrow> c \<le> add_cost st c e"
  by (simp add: add_cost_def word_le_nat_alt unat_saturating_add)

lemma add_cost_mono: "c \<le> c' \<Longrightarrow> add_cost st c e \<le> add_cost st c' e"
  by (simp add: add_cost_def saturating_add_mono)

lemma add_cost_le: "add_cost st c e \<le> kCostCeiling"
  by (simp add: add_cost_def saturating_add_le)

lemma path_cost_snoc: "path_cost st c (es @ [e]) = add_cost st (path_cost st c es) e"
  by (simp add: path_cost_def add_cost_def)

lemma path_cost_append: "path_cost st c (es @ fs) = path_cost st (path_cost st c es) fs"
  by (simp add: path_cost_def)

lemma path_cost_mono: "c \<le> c' \<Longrightarrow> path_cost st c es \<le> path_cost st c' es"
  by (induction es arbitrary: c c') (simp_all add: saturating_add_mono)

lemma path_cost_le: "c \<le> kCostCeiling \<Longrightarrow> path_cost st c es \<le> kCostCeiling"
  by (induction es arbitrary: c) (simp_all add: saturating_add_le)

lemma connected_append:
  "connected st sb tb a (es @ fs) b \<longleftrightarrow> (\<exists>m. connected st sb tb a es m \<and> connected st sb tb m fs b)"
  by (induction es arbitrary: a) auto

lemma connected_snoc:
  "connected st sb tb a (es @ [e]) b \<longleftrightarrow> (\<exists>m. connected st sb tb a es m \<and> hop_step st sb tb m e b)"
  by (simp add: connected_append hop_step_def)

text \<open>
  The invariant of the search. \<open>D\<close> is the set of keys expanded so far, \<open>bound\<close> the cost of
  the last of them, and \<open>pend\<close> the edges of the key in progress that are still to be relaxed.
\<close>

definition relaxed ::
  "planner_state \<Rightarrow> endpoint_binding \<Rightarrow> endpoint_binding \<Rightarrow> (search_key \<times> nat) set \<Rightarrow> u64 \<Rightarrow> search_space \<Rightarrow>
   nat \<Rightarrow> nat \<Rightarrow> bool" where
  "relaxed st sb tb pend bound sp n h \<longleftrightarrow>
     (\<exists>c. sp_dist sp (n, h) = Some c \<and> c \<le> bound \<and>
        (h < s_hop_limit st \<longrightarrow> (\<forall>e m. hop_step st sb tb n e m \<longrightarrow> ((n, h), e) \<notin> pend \<longrightarrow>
           add_cost st c e \<le> max_path_cost (s_policy st) \<longrightarrow>
           (\<exists>c'. sp_dist sp (m, h + 1) = Some c' \<and> c' \<le> add_cost st c e))))"

definition derived ::
  "planner_state \<Rightarrow> endpoint_binding \<Rightarrow> endpoint_binding \<Rightarrow> nat \<Rightarrow> search_key set \<Rightarrow> search_space \<Rightarrow>
   nat \<Rightarrow> nat \<Rightarrow> u64 \<Rightarrow> bool" where
  "derived st sb tb source D sp n h c \<longleftrightarrow>
     h \<le> s_hop_limit st \<and> c \<le> max_path_cost (s_policy st) \<and>
        c \<le> kCostCeiling \<and>
        (if h = 0 then n = source \<and> c = 0
         else \<exists>m e c'. sp_prev sp (n, h) = Some ((m, h - 1), e) \<and> (m, h - 1) \<in> D \<and>
           sp_dist sp (m, h - 1) = Some c' \<and> hop_step st sb tb m e n \<and> c = add_cost st c' e)"

lemma frontier_irrelevant [simp]:
  "relaxed st sb tb pend bound (sp\<lparr>sp_frontier := rest\<rparr>) n h = relaxed st sb tb pend bound sp n h"
  "derived st sb tb source D (sp\<lparr>sp_frontier := rest\<rparr>) n h c = derived st sb tb source D sp n h c"
  by (simp_all add: relaxed_def derived_def)

definition search_inv ::
  "planner_state \<Rightarrow> endpoint_binding \<Rightarrow> endpoint_binding \<Rightarrow> nat \<Rightarrow> nat \<Rightarrow> (search_key \<times> nat) set \<Rightarrow> u64 \<Rightarrow>
   search_key set \<Rightarrow> search_space \<Rightarrow> bool" where
  "search_inv st sb tb source target pend bound D sp \<longleftrightarrow>
     sorted (sp_frontier sp) \<and> sp_dist sp (source, 0) = Some 0 \<and> bound \<le> kCostCeiling \<and>
     (\<forall>n h c. sp_dist sp (n, h) = Some c \<longrightarrow> derived st sb tb source D sp n h c) \<and>
     (\<forall>n h. (n, h) \<in> D \<longrightarrow> n \<noteq> target \<and> relaxed st sb tb pend bound sp n h) \<and>
     (\<forall>n h c. sp_dist sp (n, h) = Some c \<longrightarrow> (n, h) \<in> D \<or> (c, h, n) \<in> set (sp_frontier sp)) \<and>
     (\<forall>c h n. (c, h, n) \<in> set (sp_frontier sp) \<longrightarrow>
        bound \<le> c \<and> (\<exists>known. sp_dist sp (n, h) = Some known \<and> known \<le> c))"

lemma search_invD:
  assumes "search_inv st sb tb source target pend bound D sp"
  shows "sorted (sp_frontier sp)" "sp_dist sp (source, 0) = Some 0" "bound \<le> kCostCeiling"
    "\<And>n h c. sp_dist sp (n, h) = Some c \<Longrightarrow> h \<le> s_hop_limit st \<and> c \<le> max_path_cost (s_policy st) \<and>
        c \<le> kCostCeiling \<and>
        (if h = 0 then n = source \<and> c = 0
         else \<exists>m e c'. sp_prev sp (n, h) = Some ((m, h - 1), e) \<and> (m, h - 1) \<in> D \<and>
           sp_dist sp (m, h - 1) = Some c' \<and> hop_step st sb tb m e n \<and> c = add_cost st c' e)"
    "\<And>n h. (n, h) \<in> D \<Longrightarrow> n \<noteq> target"
    "\<And>n h. (n, h) \<in> D \<Longrightarrow> \<exists>c. sp_dist sp (n, h) = Some c \<and> c \<le> bound \<and>
        (h < s_hop_limit st \<longrightarrow> (\<forall>e m. hop_step st sb tb n e m \<longrightarrow> ((n, h), e) \<notin> pend \<longrightarrow>
           add_cost st c e \<le> max_path_cost (s_policy st) \<longrightarrow>
           (\<exists>c'. sp_dist sp (m, h + 1) = Some c' \<and> c' \<le> add_cost st c e)))"
    "\<And>n h c. sp_dist sp (n, h) = Some c \<Longrightarrow> (n, h) \<in> D \<or> (c, h, n) \<in> set (sp_frontier sp)"
    "\<And>c h n. (c, h, n) \<in> set (sp_frontier sp) \<Longrightarrow>
        bound \<le> c \<and> (\<exists>known. sp_dist sp (n, h) = Some known \<and> known \<le> c)"
  using assms unfolding search_inv_def relaxed_def derived_def by (safe) blast+

text \<open>Recording a cheaper way to an unexpanded key.\<close>

lemma search_inv_improve:
  assumes inv: "search_inv st sb tb source target pend bound D sp"
    and node: "(n, h) \<in> D" "sp_dist sp (n, h) = Some bound" "h < s_hop_limit st"
    and hop: "hop_step st sb tb n e m" "add_cost st bound e \<le> max_path_cost (s_policy st)"
    and better: "\<And>known. sp_dist sp (m, h + 1) = Some known \<Longrightarrow> add_cost st bound e < known"
  shows "search_inv st sb tb source target (pend - {((n, h), e)}) bound D
    (sp\<lparr>sp_dist := (sp_dist sp)((m, h + 1) \<mapsto> add_cost st bound e),
        sp_prev := (sp_prev sp)((m, h + 1) \<mapsto> ((n, h), e)),
        sp_frontier := insort (add_cost st bound e, h + 1, m) (sp_frontier sp)\<rparr>)" (is "search_inv _ _ _ _ _ _ _ _ ?sp")
proof -
  let ?c = "add_cost st bound e"
  note I = search_invD [OF inv]
  have ge: "bound \<le> ?c" by (rule add_cost_ge [OF I(3)])
  have new: "(m, h + 1) \<notin> D"
  proof
    assume "(m, h + 1) \<in> D"
    then obtain known where "sp_dist sp (m, h + 1) = Some known" "known \<le> bound" using I(6) by blast
    with better ge show False by (meson leD order_trans)
  qed
  have old: "sp_dist ?sp k = sp_dist sp k" "sp_prev ?sp k = sp_prev sp k" if "k \<noteq> (m, h + 1)" for k
    using that by simp_all
  have less: "\<exists>c'. sp_dist ?sp k = Some c' \<and> c' \<le> c" if "sp_dist sp k = Some c" for k c
    using that better [of c] by (cases "k = (m, h + 1)") (auto intro: less_imp_le)
  show ?thesis
    unfolding search_inv_def
  proof (intro conjI allI impI)
    show "sorted (sp_frontier ?sp)" using I(1) by (simp add: sorted_insort)
    show "sp_dist ?sp (source, 0) = Some 0" using I(2) by simp
    show "bound \<le> kCostCeiling" by (fact I)
  next
    fix n' h' c
    assume a: "sp_dist ?sp (n', h') = Some c"
    have "h' \<le> s_hop_limit st \<and> c \<le> max_path_cost (s_policy st) \<and> c \<le> kCostCeiling \<and>
        (if h' = 0 then n' = source \<and> c = 0
         else \<exists>m e c'. sp_prev ?sp (n', h') = Some ((m, h' - 1), e) \<and> (m, h' - 1) \<in> D \<and>
           sp_dist ?sp (m, h' - 1) = Some c' \<and> hop_step st sb tb m e n' \<and> c = add_cost st c' e)"
    proof (cases "(n', h') = (m, h + 1)")
      case True
      then show ?thesis using a node hop add_cost_le [of st bound e] new by auto
    next
      case False
      have d: "sp_dist sp (n', h') = Some c" using a unfolding old(1) [OF False] .
      from I(4) [OF d] old [OF False] new show ?thesis by (auto split: if_splits)
    qed
    then show "derived st sb tb source D ?sp n' h' c" unfolding derived_def .
    show "(n', h') \<in> D \<or> (c, h', n') \<in> set (sp_frontier ?sp)"
      using a I(7) [of n' h' c] by (auto simp: set_insort_key split: if_splits)
  next
    fix n' h'
    assume D: "(n', h') \<in> D"
    show "n' \<noteq> target" by (rule I(5) [OF D])
    from I(6) [OF D] obtain c where c: "sp_dist sp (n', h') = Some c" "c \<le> bound"
      "h' < s_hop_limit st \<Longrightarrow> \<forall>e m. hop_step st sb tb n' e m \<longrightarrow> ((n', h'), e) \<notin> pend \<longrightarrow>
           add_cost st c e \<le> max_path_cost (s_policy st) \<longrightarrow>
           (\<exists>c'. sp_dist sp (m, h' + 1) = Some c' \<and> c' \<le> add_cost st c e)" by blast
    have k: "(n', h') \<noteq> (m, h + 1)" using D new by auto
    show "relaxed st sb tb (pend - {((n, h), e)}) bound ?sp n' h'"
      unfolding relaxed_def
    proof (rule exI [of _ c], intro conjI impI allI)
      show "sp_dist ?sp (n', h') = Some c" using old(1) [OF k] c(1) by simp
      show "c \<le> bound" by (fact c)
      fix f m'
      assume f: "h' < s_hop_limit st" "hop_step st sb tb n' f m'" "((n', h'), f) \<notin> pend - {((n, h), e)}"
        "add_cost st c f \<le> max_path_cost (s_policy st)"
      show "\<exists>c'. sp_dist ?sp (m', h' + 1) = Some c' \<and> c' \<le> add_cost st c f"
      proof (cases "((n', h'), f) = ((n, h), e)")
        case True
        then have "m' = m" "c = bound" using f(2) hop(1) c(1) node(2) by (auto simp: hop_step_def)
        with True show ?thesis by auto
      next
        case False
        with f have "((n', h'), f) \<notin> pend" by blast
        with c(3) f obtain c' where "sp_dist sp (m', h' + 1) = Some c'" "c' \<le> add_cost st c f" by blast
        with less show ?thesis by (meson order_trans)
      qed
    qed
  next
    fix c h' n'
    assume "(c, h', n') \<in> set (sp_frontier ?sp)"
    then consider "c = ?c" "h' = h + 1" "n' = m" | "(c, h', n') \<in> set (sp_frontier sp)"
      by (auto simp: set_insort_key)
    then have "bound \<le> c \<and> (\<exists>known. sp_dist ?sp (n', h') = Some known \<and> known \<le> c)"
    proof cases
      case 1
      then show ?thesis using ge by simp
    next
      case 2
      then show ?thesis using I(8) [OF 2] less by (meson order_trans)
    qed
    then show "bound \<le> c" "\<exists>known. sp_dist ?sp (n', h') = Some known \<and> known \<le> c" by blast+
  qed
qed

lemma search_inv_skip:
  assumes inv: "search_inv st sb tb source target pend bound D sp"
    and known: "\<And>m c. sp_dist sp (n, h) = Some c \<Longrightarrow> hop_step st sb tb n e m \<Longrightarrow>
      add_cost st c e \<le> max_path_cost (s_policy st) \<Longrightarrow> \<exists>c'. sp_dist sp (m, h + 1) = Some c' \<and> c' \<le> add_cost st c e"
  shows "search_inv st sb tb source target (pend - {((n, h), e)}) bound D sp"
proof -
  note I = search_invD [OF inv]
  have "relaxed st sb tb (pend - {((n, h), e)}) bound sp n' h'" if D: "(n', h') \<in> D" for n' h'
  proof -
    from I(6) [OF D] obtain c where c: "sp_dist sp (n', h') = Some c" "c \<le> bound"
      "h' < s_hop_limit st \<Longrightarrow> \<forall>e m. hop_step st sb tb n' e m \<longrightarrow> ((n', h'), e) \<notin> pend \<longrightarrow>
           add_cost st c e \<le> max_path_cost (s_policy st) \<longrightarrow>
           (\<exists>c'. sp_dist sp (m, h' + 1) = Some c' \<and> c' \<le> add_cost st c e)" by blast
    show ?thesis
      unfolding relaxed_def
    proof (rule exI [of _ c], intro conjI impI allI)
      fix f m
      assume f: "h' < s_hop_limit st" "hop_step st sb tb n' f m" "((n', h'), f) \<notin> pend - {((n, h), e)}"
        "add_cost st c f \<le> max_path_cost (s_policy st)"
      show "\<exists>c'. sp_dist sp (m, h' + 1) = Some c' \<and> c' \<le> add_cost st c f"
      proof (cases "((n', h'), f) = ((n, h), e)")
        case True
        then show ?thesis using known [of c m] c(1) f(2,4) by blast
      next
        case False
        with f(3) have "((n', h'), f) \<notin> pend" by blast
        with c(3) f show ?thesis by blast
      qed
    qed (fact c)+
  qed
  with inv show ?thesis unfolding search_inv_def by (elim conjE, intro conjI) simp_all
qed

lemma search_inv_pend:
  assumes inv: "search_inv st sb tb source target pend bound D sp" and sub: "pend \<subseteq> pend'"
  shows "search_inv st sb tb source target pend' bound D sp"
proof -
  have "relaxed st sb tb pend' bound sp n h" if "(n, h) \<in> D" for n h
    using search_invD(6) [OF inv that] sub unfolding relaxed_def by blast
  with inv show ?thesis unfolding search_inv_def by (elim conjE, intro conjI) simp_all
qed

text \<open>
  No key is expanded twice: the labels in the frontier are distinct, and a label of an expanded key
  is stale. The number of keys therefore bounds the expansions.
\<close>

definition labels_fresh :: "search_key set \<Rightarrow> search_space \<Rightarrow> bool" where
  "labels_fresh D sp \<longleftrightarrow> distinct (sp_frontier sp) \<and>
     (\<forall>c h n. (c, h, n) \<in> set (sp_frontier sp) \<longrightarrow> (n, h) \<in> D \<longrightarrow> sp_dist sp (n, h) \<noteq> Some c)"

lemma distinct_insort_key: "distinct (insort_key f x xs) \<longleftrightarrow> x \<notin> set xs \<and> distinct xs"
  by (induction xs) (auto simp: set_insort_key)

lemma labels_fresh_improve:
  assumes inv: "search_inv st sb tb source target pend bound D sp" and fresh: "labels_fresh D sp"
    and node: "(n, h) \<in> D" "sp_dist sp (n, h) = Some bound"
    and better: "\<And>known. sp_dist sp (m, h + 1) = Some known \<Longrightarrow> add_cost st bound e < known"
  shows "labels_fresh D
    (sp\<lparr>sp_dist := (sp_dist sp)((m, h + 1) \<mapsto> add_cost st bound e),
        sp_prev := (sp_prev sp)((m, h + 1) \<mapsto> ((n, h), e)),
        sp_frontier := insort (add_cost st bound e, h + 1, m) (sp_frontier sp)\<rparr>)"
proof -
  let ?c = "add_cost st bound e"
  note I = search_invD [OF inv]
  have "(m, h + 1) \<notin> D"
  proof
    assume "(m, h + 1) \<in> D"
    then obtain known where "sp_dist sp (m, h + 1) = Some known" "known \<le> bound" using I(6) by blast
    with better add_cost_ge [OF I(3), of st e] show False by (meson leD order_trans)
  qed
  moreover have "(?c, h + 1, m) \<notin> set (sp_frontier sp)" using I(8) [of ?c "h + 1" m] better by (meson leD)
  ultimately show ?thesis using fresh by (auto simp: labels_fresh_def distinct_insort_key set_insort_key)
qed

lemma relax_edges_inv:
  assumes "search_inv st sb tb source target (Pair (n, h) ` set es) bound D sp"
    and "(n, h) \<in> D" "sp_dist sp (n, h) = Some bound" "h < s_hop_limit st"
    and "set es \<subseteq> set (out_edges (s_fabric st) n)"
  shows "search_inv st sb tb source target {} bound D (relax_edges st sb tb bound h n es sp) \<and>
    (labels_fresh D sp \<longrightarrow> labels_fresh D (relax_edges st sb tb bound h n es sp))"
  using assms
proof (induction es arbitrary: sp)
  case Nil
  then show ?case by simp
next
  case (Cons e es)
  have es: "set es \<subseteq> set (out_edges (s_fabric st) n)" "e \<in> set (out_edges (s_fabric st) n)" using Cons.prems(5) by auto
  have pend: "Pair (n, h) ` set (e # es) - {((n, h), e)} \<subseteq> Pair (n, h) ` set es" by auto
  let ?improves = "\<exists>m. hop_step st sb tb n e m \<and> add_cost st bound e \<le> max_path_cost (s_policy st) \<and>
    (case sp_dist sp (m, h + 1) of None \<Rightarrow> True | Some known \<Rightarrow> add_cost st bound e < known)"
  show ?case
  proof (cases ?improves)
    case False
    then have skip: "relax_edges st sb tb bound h n (e # es) sp = relax_edges st sb tb bound h n es sp"
      using es(2) by (auto simp: hop_step_def add_cost_def Let_def split: option.split if_split)
    have "search_inv st sb tb source target (Pair (n, h) ` set (e # es) - {((n, h), e)}) bound D sp"
    proof (rule search_inv_skip [OF Cons.prems(1)])
      fix m c
      assume "sp_dist sp (n, h) = Some c" "hop_step st sb tb n e m" "add_cost st c e \<le> max_path_cost (s_policy st)"
      with False Cons.prems(3) show "\<exists>c'. sp_dist sp (m, h + 1) = Some c' \<and> c' \<le> add_cost st c e"
        by (auto simp: not_less split: option.splits)
    qed
    from Cons.IH [OF search_inv_pend [OF this pend] Cons.prems(2-4) es(1)] skip show ?thesis by simp
  next
    case True
    then obtain m where m: "hop_step st sb tb n e m" "add_cost st bound e \<le> max_path_cost (s_policy st)"
      "case sp_dist sp (m, h + 1) of None \<Rightarrow> True | Some known \<Rightarrow> add_cost st bound e < known" by blast
    let ?sp = "sp\<lparr>sp_dist := (sp_dist sp)((m, h + 1) \<mapsto> add_cost st bound e),
        sp_prev := (sp_prev sp)((m, h + 1) \<mapsto> ((n, h), e)),
        sp_frontier := insort (add_cost st bound e, h + 1, m) (sp_frontier sp)\<rparr>"
    have step: "relax_edges st sb tb bound h n (e # es) sp = relax_edges st sb tb bound h n es ?sp"
      using m by (cases "sp_dist sp (m, h + 1)") (simp_all add: hop_step_def add_cost_def Let_def not_less)
    have "search_inv st sb tb source target (Pair (n, h) ` set (e # es) - {((n, h), e)}) bound D ?sp"
      using m(3) by (intro search_inv_improve [OF Cons.prems(1-4) m(1,2)]) simp
    note IH = Cons.IH [OF search_inv_pend [OF this pend] Cons.prems(2) _ Cons.prems(4) es(1)]
    have "labels_fresh D sp \<longrightarrow> labels_fresh D ?sp"
    proof
      assume "labels_fresh D sp"
      then show "labels_fresh D ?sp"
        using m(3) by (intro labels_fresh_improve [OF Cons.prems(1) _ Cons.prems(2,3)]) simp_all
    qed
    with IH Cons.prems(3) step show ?thesis by simp
  qed
qed

text \<open>The path that \<open>prev\<close> records for a key.\<close>

lemma search_inv_trace:
  assumes inv: "search_inv st sb tb source target pend bound D sp" and "sp_dist sp (n, h) = Some c"
  shows "\<exists>p. trace h (sp_prev sp) (source, 0) (n, h) = Some p \<and> connected st sb tb source p n \<and>
    length p = h \<and> path_cost st 0 p = c"
  using assms(2)
proof (induction h arbitrary: n c)
  case 0
  then show ?case using search_invD(4) [OF inv 0] by simp
next
  case (Suc h)
  from search_invD(4) [OF inv Suc.prems] obtain m e c' where m: "sp_prev sp (n, Suc h) = Some ((m, h), e)"
    "sp_dist sp (m, h) = Some c'" "hop_step st sb tb m e n" "c = add_cost st c' e" by auto
  from Suc.IH [OF m(2)] obtain p where p: "trace h (sp_prev sp) (source, 0) (m, h) = Some p"
    "connected st sb tb source p m" "length p = h" "path_cost st 0 p = c'" by blast
  have "trace (Suc h) (sp_prev sp) (source, 0) (n, Suc h) = Some (p @ [e])"
    using m(1) p(1) by (subst trace.simps) simp
  moreover have "connected st sb tb source (p @ [e]) n" using m(3) p(2) by (auto simp: connected_snoc)
  ultimately show ?case using m(4) p(3,4) by (auto simp: path_cost_snoc)
qed

text \<open>
  Every walk within the limits either ends in an expanded key or leaves the expanded keys at a
  frontier label that is no dearer and no longer.
\<close>

lemma search_inv_walk:
  assumes inv: "search_inv st sb tb source target {} bound D sp"
    and "connected st sb tb source p n" "length p \<le> s_hop_limit st"
    and "path_cost st 0 p \<le> max_path_cost (s_policy st)"
  shows "(\<exists>c. (n, length p) \<in> D \<and> sp_dist sp (n, length p) = Some c \<and> c \<le> path_cost st 0 p) \<or>
    (\<exists>c h m. (c, h, m) \<in> set (sp_frontier sp) \<and> sp_dist sp (m, h) = Some c \<and> c \<le> path_cost st 0 p \<and> h \<le> length p)"
  using assms(2-)
proof (induction p arbitrary: n rule: rev_induct)
  case Nil
  then show ?case using search_invD(2) [OF inv] search_invD(7) [OF inv, of source 0 0] by auto
next
  case (snoc e p)
  from snoc.prems(1) obtain m where m: "connected st sb tb source p m" "hop_step st sb tb m e n"
    by (auto simp: connected_snoc)
  have le: "path_cost st 0 p \<le> path_cost st 0 (p @ [e])"
    by (simp add: path_cost_snoc add_cost_ge path_cost_le)
  have IH: "(\<exists>c. (m, length p) \<in> D \<and> sp_dist sp (m, length p) = Some c \<and> c \<le> path_cost st 0 p) \<or>
    (\<exists>c h m. (c, h, m) \<in> set (sp_frontier sp) \<and> sp_dist sp (m, h) = Some c \<and> c \<le> path_cost st 0 p \<and> h \<le> length p)"
    using snoc.IH [OF m(1)] snoc.prems(2,3) le by (simp add: order_trans)
  then show ?case
  proof (elim disjE exE conjE)
    fix c
    assume c: "(m, length p) \<in> D" "sp_dist sp (m, length p) = Some c" "c \<le> path_cost st 0 p"
    have cost: "add_cost st c e \<le> path_cost st 0 (p @ [e])" by (simp add: path_cost_snoc add_cost_mono c(3))
    from search_invD(6) [OF inv c(1)] c(2) m(2) snoc.prems(2,3) cost
    obtain c' where c': "sp_dist sp (n, length p + 1) = Some c'" "c' \<le> add_cost st c e" by fastforce
    from search_invD(7) [OF inv c'(1)] c' cost show ?case by fastforce
  next
    fix c h k
    assume "(c, h, k) \<in> set (sp_frontier sp)" "sp_dist sp (k, h) = Some c" "c \<le> path_cost st 0 p" "h \<le> length p"
    then show ?case using le by (intro disjI2 exI [of _ c] exI [of _ h] exI [of _ k]) simp
  qed
qed

text \<open>Expanding the key of the least label.\<close>

lemma search_inv_pop:
  assumes inv: "search_inv st sb tb source target {} bound D sp"
    and top: "sp_frontier sp = (c, h, n) # rest"
  shows "sp_dist sp (n, h) \<noteq> Some c \<Longrightarrow>
      search_inv st sb tb source target {} bound D (sp\<lparr>sp_frontier := rest\<rparr>)"
    and "sp_dist sp (n, h) = Some c \<Longrightarrow> n \<noteq> target \<Longrightarrow>
      pend = (if h < s_hop_limit st then Pair (n, h) ` set (out_edges (s_fabric st) n) else {}) \<Longrightarrow>
      search_inv st sb tb source target pend c (insert (n, h) D) (sp\<lparr>sp_frontier := rest\<rparr>)"
proof -
  let ?sp = "sp\<lparr>sp_frontier := rest\<rparr>"
  note I = search_invD [OF inv]
  have rest: "sorted rest" "\<forall>l\<in>set rest. (c, h, n) \<le> l" using I(1) top by auto
  have least: "c \<le> c'" if "(c', h', n') \<in> set rest" for c' h' n'
    using rest(2) that by (force simp: less_eq_prod_def)
  have bound: "bound \<le> c" using I(8) [of c h n] top by simp
  show "search_inv st sb tb source target {} bound D ?sp" if stale: "sp_dist sp (n, h) \<noteq> Some c"
  proof -
    have "(n', h') \<in> D \<or> (c', h', n') \<in> set rest" if "sp_dist sp (n', h') = Some c'" for n' h' c'
      using I(7) [OF that] that stale top by auto
    with inv rest(1) top show ?thesis
      unfolding search_inv_def by (elim conjE, intro conjI) simp_all
  qed
  assume c: "sp_dist sp (n, h) = Some c" and n: "n \<noteq> target"
    and pend: "pend = (if h < s_hop_limit st then Pair (n, h) ` set (out_edges (s_fabric st) n) else {})"
  have front: "(n', h') \<in> insert (n, h) D \<or> (c', h', n') \<in> set rest" if "sp_dist sp (n', h') = Some c'" for n' h' c'
    using I(7) [OF that] top by auto
  have old: "relaxed st sb tb pend c ?sp n' h'" if "(n', h') \<in> D" for n' h'
  proof -
    from I(6) [OF that] obtain c' where c': "sp_dist sp (n', h') = Some c'" "c' \<le> bound"
      "h' < s_hop_limit st \<Longrightarrow> \<forall>e m. hop_step st sb tb n' e m \<longrightarrow>
           add_cost st c' e \<le> max_path_cost (s_policy st) \<longrightarrow>
           (\<exists>c''. sp_dist sp (m, h' + 1) = Some c'' \<and> c'' \<le> add_cost st c' e)" by auto
    then show ?thesis unfolding relaxed_def using bound by (intro exI [of _ c']) auto
  qed
  have new: "relaxed st sb tb pend c ?sp n h"
    unfolding relaxed_def pend using c by (auto simp: hop_step_def)
  have labels: "c \<le> c' \<and> (\<exists>known. sp_dist sp (n', h') = Some known \<and> known \<le> c')"
    if "(c', h', n') \<in> set rest" for c' h' n'
    using least [OF that] I(8) [of c' h' n'] that top by auto
  have dists: "derived st sb tb source (insert (n, h) D) sp n' h' c'"
    if "sp_dist sp (n', h') = Some c'" for n' h' c'
    using I(4) [OF that] unfolding derived_def by (auto split: if_splits)
  show "search_inv st sb tb source target pend c (insert (n, h) D) ?sp"
    unfolding search_inv_def
  proof (intro conjI allI impI)
    show "sorted (sp_frontier ?sp)" using rest(1) by simp
    show "sp_dist ?sp (source, 0) = Some 0" using I(2) by simp
    show "c \<le> kCostCeiling" using I(4) [OF c] by simp
  next
    fix n' h' c'
    assume a: "sp_dist ?sp (n', h') = Some c'"
    then have a': "sp_dist sp (n', h') = Some c'" by simp
    show "derived st sb tb source (insert (n, h) D) ?sp n' h' c'" using dists [OF a'] by simp
    show "(n', h') \<in> insert (n, h) D \<or> (c', h', n') \<in> set (sp_frontier ?sp)" using front [OF a'] by simp
  next
    fix n' h'
    assume "(n', h') \<in> insert (n, h) D"
    then show "n' \<noteq> target" "relaxed st sb tb pend c ?sp n' h'" using I(5) n old new by auto
  next
    fix c' h' n'
    assume "(c', h', n') \<in> set (sp_frontier ?sp)"
    then show "c \<le> c'" "\<exists>known. sp_dist ?sp (n', h') = Some known \<and> known \<le> c'" using labels by auto
  qed
qed

lemma connected_split:
  assumes "connected st sb tb a p b" "k \<le> length p"
  shows "connected st sb tb a (take k p) ((a # path_nodes st p) ! k) \<and>
    connected st sb tb ((a # path_nodes st p) ! k) (drop k p) b"
  using assms
proof (induction p arbitrary: a k)
  case (Cons e p)
  then show ?case by (cases k) (auto simp: path_nodes_def)
qed simp

text \<open>A walk that visits a node twice has a shortcut that is no dearer.\<close>

lemma connected_shortcut:
  assumes conn: "connected st sb tb a p b" and twice: "\<not> distinct (a # path_nodes st p)"
  shows "\<exists>q. connected st sb tb a q b \<and> length q < length p \<and> path_cost st 0 q \<le> path_cost st 0 p"
proof -
  let ?v = "a # path_nodes st p"
  have len: "length ?v = Suc (length p)" by (simp add: path_nodes_def)
  from twice obtain i j where ij: "i < j" "j \<le> length p" "?v ! i = ?v ! j"
    unfolding distinct_conv_nth len using nat_neq_iff by (metis less_Suc_eq_le)
  let ?q = "take i p @ drop j p"
  have "connected st sb tb a ?q b"
    using connected_split [OF conn, of i] connected_split [OF conn, of j] ij by (auto simp: connected_append)
  moreover have "length ?q < length p" using ij by simp
  moreover have "path_cost st 0 ?q \<le> path_cost st 0 p"
  proof -
    let ?c = "path_cost st 0 (take i p)"
    have p: "p = take i p @ take (j - i) (drop i p) @ drop j p"
      using ij append_take_drop_id [of "j - i" "drop i p"] by simp
    have "?c \<le> path_cost st ?c (take (j - i) (drop i p))" by (simp add: path_cost_ge path_cost_le)
    then have "path_cost st ?c (drop j p) \<le> path_cost st (path_cost st ?c (take (j - i) (drop i p))) (drop j p)"
      by (rule path_cost_mono)
    then show ?thesis by (subst (3) p) (simp add: path_cost_append)
  qed
  ultimately show ?thesis by blast
qed

text \<open>What a finished search has established.\<close>

definition search_result ::
  "planner_state \<Rightarrow> endpoint_binding \<Rightarrow> endpoint_binding \<Rightarrow> nat \<Rightarrow> nat \<Rightarrow> search_outcome \<Rightarrow> bool" where
  "search_result st sb tb source target out \<longleftrightarrow>
     (if so_found out then
        feasible_path st sb tb source target (so_edges out) \<and> length (so_edges out) \<le> s_hop_limit st \<and>
        so_cost out = path_cost st 0 (so_edges out) \<and> \<not> so_budget_exceeded out \<and>
        (\<forall>q. feasible_path st sb tb source target q \<and> length q \<le> s_hop_limit st \<longrightarrow>
           so_cost out < path_cost st 0 q \<or>
           so_cost out = path_cost st 0 q \<and> length (so_edges out) \<le> length q)
      else so_budget_exceeded out \<or> (\<forall>q. feasible_path st sb tb source target q \<longrightarrow> s_hop_limit st < length q))"

lemma search_inv_found:
  assumes inv: "search_inv st sb tb source target {} bound D sp" and ne: "source \<noteq> target"
    and top: "sp_frontier sp = (c, h, target) # rest" and c: "sp_dist sp (target, h) = Some c"
  shows "\<exists>p. trace h (sp_prev sp) (source, 0) (target, h) = Some p \<and>
    search_result st sb tb source target
      \<lparr>so_found = True, so_budget_exceeded = False, so_cost = c, so_edges = p\<rparr>"
proof -
  note I = search_invD [OF inv]
  obtain p where p: "trace h (sp_prev sp) (source, 0) (target, h) = Some p" "connected st sb tb source p target"
    "length p = h" "path_cost st 0 p = c" using search_inv_trace [OF inv c] by blast
  have best: "c < path_cost st 0 q \<or> c = path_cost st 0 q \<and> h \<le> length q"
    if q: "connected st sb tb source q target" "length q \<le> s_hop_limit st"
      "path_cost st 0 q \<le> max_path_cost (s_policy st)" for q
    using search_inv_walk [OF inv q]
  proof (elim disjE exE conjE)
    fix c'
    assume "(target, length q) \<in> D"
    with I(5) show ?thesis by blast
  next
    fix c' h' m
    assume l: "(c', h', m) \<in> set (sp_frontier sp)" "c' \<le> path_cost st 0 q" "h' \<le> length q"
    have "(c, h, target) \<le> (c', h', m)" using I(1) l(1) top by auto
    with l(2,3) show ?thesis by (auto simp: less_eq_prod_def)
  qed
  have lim: "h \<le> s_hop_limit st" "c \<le> max_path_cost (s_policy st)" using I(4) [OF c] by auto
  have "distinct (source # path_nodes st p)"
  proof (rule ccontr)
    assume "\<not> ?thesis"
    from connected_shortcut [OF p(2) this] p(3,4) obtain q where "connected st sb tb source q target"
      "length q < h" "path_cost st 0 q \<le> c" by blast
    with best [of q] lim show False by (meson leD le_trans less_imp_le order_trans)
  qed
  moreover have "p \<noteq> []" using p(2) ne by auto
  ultimately have "feasible_path st sb tb source target p"
    using p(2,4) lim(2) by (simp add: feasible_path_def)
  then show ?thesis using p lim best by (auto simp: search_result_def feasible_path_def)
qed

lemma search_inv_exhausted:
  assumes inv: "search_inv st sb tb source target {} bound D sp" and empty: "sp_frontier sp = []"
  shows "search_result st sb tb source target no_outcome"
proof -
  have "s_hop_limit st < length q" if q: "feasible_path st sb tb source target q" for q
  proof (rule ccontr)
    assume "\<not> ?thesis"
    with q search_inv_walk [OF inv, of q target] empty have "(target, length q) \<in> D"
      by (auto simp: feasible_path_def not_less)
    with search_invD(5) [OF inv] show False by blast
  qed
  then show ?thesis by (simp add: search_result_def no_outcome_def)
qed

lemma shortest_loop_correct:
  assumes "search_inv st sb tb source target {} bound D sp" "source \<noteq> target"
  shows "search_result st sb tb source target (snd (shortest_loop st sb tb source target expansions sp))"
  using assms
proof (induction st sb tb source target expansions sp arbitrary: bound D rule: shortest_loop.induct)
  case (1 st sb tb source target expansions sp)
  note inv = 1(4) and ne = 1(5) and IH = 1(1-3)
  show ?case
  proof (cases "sp_frontier sp")
    case Nil
    then show ?thesis using search_inv_exhausted [OF inv Nil] by (simp add: shortest_loop.simps)
  next
    case (Cons l rest)
    obtain c h n where l: "l = (c, h, n)" by (cases l) auto
    have top: "sp_frontier sp = (c, h, n) # rest" using Cons l by simp
    let ?popped = "sp\<lparr>sp_frontier := rest\<rparr>"
    let ?stale = "case sp_dist sp (n, h) of None \<Rightarrow> True | Some known \<Rightarrow> known < c"
    obtain known where known: "sp_dist sp (n, h) = Some known" "known \<le> c"
      using search_invD(8) [OF inv, of c h n] top by auto
    have stale: "?stale \<longleftrightarrow> known < c" using known by simp
    show ?thesis
    proof (cases "known < c")
      case True
      then have "sp_dist sp (n, h) \<noteq> Some c" using known by simp
      from IH(1) [OF Cons l [symmetric] refl refl _ search_inv_pop(1) [OF inv top this] ne] True stale
      show ?thesis by (subst shortest_loop.simps) (simp add: top Let_def)
    next
      case False
      with known have c: "sp_dist sp (n, h) = Some c" by simp
      have fresh: "\<not> ?stale" using stale False by simp
      show ?thesis
      proof (cases "n = target")
        case True
        from search_inv_found [OF inv ne top [unfolded True] c [unfolded True]] True c
        show ?thesis by (subst shortest_loop.simps) (auto simp: top Let_def)
      next
        case notarget: False
        show ?thesis
        proof (cases "expansions \<ge> s_max_expansions st")
          case True
          then show ?thesis
            using c notarget by (subst shortest_loop.simps) (simp add: top Let_def search_result_def no_outcome_def)
        next
          case budget: False
          show ?thesis
          proof (cases "h \<ge> s_hop_limit st")
            case True
            then have "search_inv st sb tb source target {} c (insert (n, h) D) ?popped"
              using search_inv_pop(2) [OF inv top c notarget] by simp
            from IH(2) [OF Cons l [symmetric] refl refl fresh notarget budget True this ne]
            show ?thesis using c notarget budget True by (subst shortest_loop.simps) (simp add: top Let_def)
          next
            case limit: False
            then have "search_inv st sb tb source target (Pair (n, h) ` set (out_edges (s_fabric st) n)) c
                (insert (n, h) D) ?popped" using search_inv_pop(2) [OF inv top c notarget] by simp
            then have "search_inv st sb tb source target {} c (insert (n, h) D)
                (relax_edges st sb tb c h n (out_edges (s_fabric st) n) ?popped)"
              using c limit relax_edges_inv by simp
            from IH(3) [OF Cons l [symmetric] refl refl fresh notarget budget limit this ne]
            show ?thesis using c notarget budget limit by (subst shortest_loop.simps) (simp add: top Let_def)
          qed
        qed
      qed
    qed
  qed
qed

lemma shortest_loop_expansions:
  assumes "shortest_loop st sb tb source target expansions sp = (expansions', out)"
  shows "expansions \<le> expansions' \<and> expansions' \<le> max expansions (s_max_expansions st) \<and>
    (so_budget_exceeded out \<longrightarrow> s_max_expansions st \<le> expansions')"
  using assms
proof (induction st sb tb source target expansions sp rule: shortest_loop.induct)
  case (1 st sb tb source target expansions sp)
  note run = 1(4) and IH = 1(1-3)
  show ?case
  proof (cases "sp_frontier sp")
    case Nil
    then show ?thesis using run by (auto simp: shortest_loop.simps no_outcome_def)
  next
    case (Cons l rest)
    obtain c h n where l: "l = (c, h, n)" by (cases l) auto
    note IH' = IH(1) [OF Cons l [symmetric] refl refl] IH(2,3) [OF Cons l [symmetric] refl refl]
    let ?stale = "case sp_dist sp (n, h) of None \<Rightarrow> True | Some known \<Rightarrow> known < c"
    show ?thesis
    proof (cases "?stale \<or> n = target \<or> s_max_expansions st \<le> expansions")
      case True
      then show ?thesis
        using run IH'(1) Cons l
        by (subst (asm) shortest_loop.simps) (auto simp: Let_def no_outcome_def split: if_splits option.splits)
    next
      case False
      then have "\<not> ?stale" "n \<noteq> target" "\<not> s_max_expansions st \<le> expansions" by blast+
      note go = this
      have "shortest_loop st sb tb source target (expansions + 1)
          (if s_hop_limit st \<le> h then sp\<lparr>sp_frontier := rest\<rparr>
           else relax_edges st sb tb c h n (out_edges (s_fabric st) n) (sp\<lparr>sp_frontier := rest\<rparr>)) = (expansions', out)"
        using run go by (subst (asm) shortest_loop.simps) (simp add: Cons l Let_def split: if_splits)
      then have "expansions + 1 \<le> expansions' \<and> expansions' \<le> max (expansions + 1) (s_max_expansions st) \<and>
          (so_budget_exceeded out \<longrightarrow> s_max_expansions st \<le> expansions')"
        using IH'(2) [OF go] IH'(3) [OF go] by (cases "s_hop_limit st \<le> h") simp_all
      then show ?thesis using go(3) by auto
    qed
  qed
qed

lemma search_inv_start:
  "search_inv st sb tb source target {} 0 {}
     \<lparr>sp_dist = [(source, 0) \<mapsto> 0], sp_prev = Map.empty, sp_frontier = [(0, 0, source)]\<rparr>"
  by (auto simp: search_inv_def derived_def split: if_splits)

lemma feasible_target_allowed:
  assumes "feasible_path st sb tb source target p"
  shows "s_node_allowed st ! target"
proof -
  from assms have "connected st sb tb source p target" "p \<noteq> []" by (simp_all add: feasible_path_def)
  then obtain m e where "hop_step st sb tb m e target"
    by (metis append_butlast_last_id connected_snoc)
  then show ?thesis by (simp add: hop_step_def hop_usable_def Let_def split: if_splits)
qed

lemma shortest_path_correct:
  assumes ne: "source \<noteq> target" and source: "s_node_allowed st ! source"
    and run: "shortest_path st source target sb tb = (st', out)"
  shows "search_result st sb tb source target out"
    "st' = st\<lparr>s_expansions := s_expansions st', s_budget_exceeded := s_budget_exceeded st \<or> so_budget_exceeded out\<rparr>"
    "s_expansions st \<le> s_expansions st'"
    "s_expansions st' \<le> max (s_expansions st) (s_max_expansions st)"
    "so_budget_exceeded out \<longrightarrow> s_max_expansions st \<le> s_expansions st'"
proof -
  let ?start = "\<lparr>sp_dist = [(source, 0) \<mapsto> 0], sp_prev = Map.empty, sp_frontier = [(0, 0, source)]\<rparr>"
  obtain expansions' out' where loop: "shortest_loop st sb tb source target (s_expansions st) ?start = (expansions', out')"
    by fastforce
  note ex = shortest_loop_expansions [OF loop]
  show "search_result st sb tb source target out"
  proof (cases "s_node_allowed st ! target")
    case True
    then have "out = snd (shortest_loop st sb tb source target (s_expansions st) ?start)"
      using run ne source loop by (simp add: shortest_path_def)
    with shortest_loop_correct [OF search_inv_start ne] show ?thesis by simp
  next
    case False
    then have "out = no_outcome" using run ne source by (simp add: shortest_path_def)
    moreover have "\<not> feasible_path st sb tb source target q" for q using feasible_target_allowed False by blast
    ultimately show ?thesis by (simp add: search_result_def no_outcome_def)
  qed
  have eff: "\<exists>n. st' = st\<lparr>s_expansions := n, s_budget_exceeded := s_budget_exceeded st \<or> so_budget_exceeded out\<rparr> \<and>
      s_expansions st \<le> n \<and> n \<le> max (s_expansions st) (s_max_expansions st) \<and>
      (so_budget_exceeded out \<longrightarrow> s_max_expansions st \<le> n)"
  proof (cases "s_node_allowed st ! target")
    case True
    with run ne source loop ex show ?thesis by (intro exI [of _ expansions']) (auto simp: shortest_path_def)
  next
    case False
    then have "st' = st" "out = no_outcome" using run ne source by (simp_all add: shortest_path_def)
    then show ?thesis by (intro exI [of _ "s_expansions st"]) (simp add: no_outcome_def)
  qed
  then show "st' = st\<lparr>s_expansions := s_expansions st', s_budget_exceeded := s_budget_exceeded st \<or> so_budget_exceeded out\<rparr>"
    by (elim exE conjE) simp
  from eff show "s_expansions st \<le> s_expansions st'"
    "s_expansions st' \<le> max (s_expansions st) (s_max_expansions st)"
    "so_budget_exceeded out \<longrightarrow> s_max_expansions st \<le> s_expansions st'" by (elim exE conjE, simp)+
qed

section \<open>Enough budget\<close>

lemma search_keys_bounded:
  assumes wf: "fabric_wf (s_fabric st)" and source: "source < node_total st"
    and inv: "search_inv st sb tb source target pend bound D sp"
  shows "D \<subseteq> {..<node_total st} \<times> {..s_hop_limit st}"
proof clarify
  fix n h
  assume "(n, h) \<in> D"
  then obtain c where "sp_dist sp (n, h) = Some c" using search_invD(6) [OF inv] by blast
  from search_invD(4) [OF inv this] source edge_target_bound [OF wf] show "n \<in> {..<node_total st} \<and> h \<in> {..s_hop_limit st}"
    by (auto simp: hop_step_def split: if_splits)
qed

lemma labels_fresh_pop:
  assumes "labels_fresh D sp" "sp_frontier sp = (c, h, n) # rest"
  shows "labels_fresh D (sp\<lparr>sp_frontier := rest\<rparr>)"
    "sp_dist sp (n, h) = Some c \<Longrightarrow> (n, h) \<notin> D \<and> labels_fresh (insert (n, h) D) (sp\<lparr>sp_frontier := rest\<rparr>)"
  using assms by (auto simp: labels_fresh_def)

lemma shortest_loop_within_budget:
  assumes "search_inv st sb tb source target {} bound D sp" "labels_fresh D sp" "source \<noteq> target"
    and "fabric_wf (s_fabric st)" "source < node_total st"
    and "expansions + node_total st * (s_hop_limit st + 1) \<le> s_max_expansions st + card D"
  shows "\<not> so_budget_exceeded (snd (shortest_loop st sb tb source target expansions sp))"
  using assms
proof (induction st sb tb source target expansions sp arbitrary: bound D rule: shortest_loop.induct)
  case (1 st sb tb source target expansions sp)
  note IH = 1(1-3) and inv = 1(4) and fresh = 1(5) and ne = 1(6) and wf = 1(7) and source = 1(8) and enough = 1(9)
  show ?case
  proof (cases "sp_frontier sp")
    case Nil
    then show ?thesis by (simp add: shortest_loop.simps no_outcome_def)
  next
    case (Cons l rest)
    obtain c h n where l: "l = (c, h, n)" by (cases l) auto
    have top: "sp_frontier sp = (c, h, n) # rest" using Cons l by simp
    let ?popped = "sp\<lparr>sp_frontier := rest\<rparr>"
    let ?stale = "case sp_dist sp (n, h) of None \<Rightarrow> True | Some known \<Rightarrow> known < c"
    obtain known where known: "sp_dist sp (n, h) = Some known" "known \<le> c"
      using search_invD(8) [OF inv, of c h n] top by auto
    have stale: "?stale \<longleftrightarrow> known < c" using known by simp
    show ?thesis
    proof (cases "known < c")
      case True
      then have "sp_dist sp (n, h) \<noteq> Some c" using known by simp
      from IH(1) [OF Cons l [symmetric] refl refl _ search_inv_pop(1) [OF inv top this]
          labels_fresh_pop(1) [OF fresh top] ne wf source enough] True stale
      show ?thesis by (subst shortest_loop.simps) (simp add: top Let_def)
    next
      case False
      with known have c: "sp_dist sp (n, h) = Some c" by simp
      have current: "\<not> ?stale" using stale False by simp
      show ?thesis
      proof (cases "n = target")
        case True
        with c show ?thesis
          by (subst shortest_loop.simps) (auto simp: top Let_def no_outcome_def split: option.split)
      next
        case notarget: False
        note new = labels_fresh_pop(2) [OF fresh top c]
        define pend where "pend = (if h < s_hop_limit st then Pair (n, h) ` set (out_edges (s_fabric st) n) else {})"
        note inv1 = search_inv_pop(2) [OF inv top c notarget pend_def]
        have sub: "insert (n, h) D \<subseteq> {..<node_total st} \<times> {..s_hop_limit st}"
          by (rule search_keys_bounded [OF wf source inv1])
        then have fin: "finite D" using finite_subset by fastforce
        have "card (insert (n, h) D) \<le> card ({..<node_total st} \<times> {..s_hop_limit st})"
          by (intro card_mono sub) simp
        then have card: "card (insert (n, h) D) \<le> node_total st * (s_hop_limit st + 1)"
          "card (insert (n, h) D) = Suc (card D)" using new fin by (simp_all add: card_cartesian_product)
        have budget: "\<not> expansions \<ge> s_max_expansions st" using enough card by simp
        have enough1: "expansions + 1 + node_total st * (s_hop_limit st + 1) \<le>
            s_max_expansions st + card (insert (n, h) D)" using enough card(2) by simp
        show ?thesis
        proof (cases "h \<ge> s_hop_limit st")
          case True
          then have "search_inv st sb tb source target {} c (insert (n, h) D) ?popped" using inv1 by (simp add: pend_def)
          from IH(2) [OF Cons l [symmetric] refl refl current notarget budget True this conjunct2 [OF new] ne wf source enough1]
          show ?thesis using c notarget budget True by (subst shortest_loop.simps) (simp add: top Let_def)
        next
          case limit: False
          let ?relaxed = "relax_edges st sb tb c h n (out_edges (s_fabric st) n) ?popped"
          have "search_inv st sb tb source target (Pair (n, h) ` set (out_edges (s_fabric st) n)) c
              (insert (n, h) D) ?popped" using inv1 limit by (simp add: pend_def)
          then have "search_inv st sb tb source target {} c (insert (n, h) D) ?relaxed \<and>
              labels_fresh (insert (n, h) D) ?relaxed" using relax_edges_inv c limit new by simp
          from IH(3) [OF Cons l [symmetric] refl refl current notarget budget limit conjunct1 [OF this]
              conjunct2 [OF this] ne wf source enough1]
          show ?thesis using c notarget budget limit by (subst shortest_loop.simps) (simp add: top Let_def)
        qed
      qed
    qed
  qed
qed

text \<open>A budget of one expansion per node and hop count is enough to decide.\<close>

lemma shortest_path_decides:
  assumes "fabric_wf (s_fabric st)" "source < node_total st" "source \<noteq> target"
    and "s_expansions st + node_total st * (s_hop_limit st + 1) \<le> s_max_expansions st"
    and run: "shortest_path st source target sb tb = (st', out)"
  shows "\<not> so_budget_exceeded out"
proof -
  let ?start = "\<lparr>sp_dist = [(source, 0) \<mapsto> 0], sp_prev = Map.empty, sp_frontier = [(0, 0, source)]\<rparr>"
  have "labels_fresh {} ?start" by (simp add: labels_fresh_def)
  from shortest_loop_within_budget [OF search_inv_start this assms(3,1,2), of "s_expansions st"] assms(4)
  have loop: "\<not> so_budget_exceeded (snd (shortest_loop st sb tb source target (s_expansions st) ?start))" by simp
  obtain n out' where "shortest_loop st sb tb source target (s_expansions st) ?start = (n, out')" by fastforce
  with run assms(3) loop show ?thesis
    by (auto simp: shortest_path_def no_outcome_def split: if_splits)
qed

section \<open>Properties\<close>

text \<open>
  C4: the shortest-path search always ends and is exact. A path it returns is feasible and within the
  hop limit, its reported cost is the cost of the path, and no feasible path within the hop limit is
  cheaper, or equally cheap with fewer hops. If it returns none without having reached its budget,
  no feasible path within the hop limit exists. A budget stop happens only when all expansions are
  spent, and the search never spends more.
\<close>

theorem shortest_path_exact:
  assumes "source \<noteq> target" "s_node_allowed st ! source"
    and "shortest_path st source target sb tb = (st', out)"
  shows "(if so_found out then
       feasible_path st sb tb source target (so_edges out) \<and> length (so_edges out) \<le> s_hop_limit st \<and>
       so_cost out = path_cost st 0 (so_edges out) \<and>
       (\<forall>q. feasible_path st sb tb source target q \<and> length q \<le> s_hop_limit st \<longrightarrow>
          so_cost out < path_cost st 0 q \<or>
          so_cost out = path_cost st 0 q \<and> length (so_edges out) \<le> length q)
     else if so_budget_exceeded out then s_max_expansions st \<le> s_expansions st'
     else (\<forall>q. feasible_path st sb tb source target q \<longrightarrow> s_hop_limit st < length q)) \<and>
    s_expansions st' \<le> max (s_expansions st) (s_max_expansions st)"
proof -
  note c = shortest_path_correct [OF assms]
  show ?thesis
    using c(1) [unfolded search_result_def] c(4,5)
    by (cases "so_found out"; cases "so_budget_exceeded out") simp_all
qed

theorem shortest_path_exact_witness:
  "feasible_path small_state (plain_binding ''p1'' ''a'') (plain_binding ''p2'' ''b'') 0 1 [0] \<and>
   {q. feasible_path small_state (plain_binding ''p1'' ''a'') (plain_binding ''p2'' ''b'') 0 1 q \<and> length q \<le> 8 \<and>
      path_cost small_state 0 q < 10} = {}"
proof -
  let ?run = "shortest_path small_state 0 1 (plain_binding ''p1'' ''a'') (plain_binding ''p2'' ''b'')"
  have facts: "s_node_allowed small_state ! 0 \<and> so_found (snd ?run) \<and> so_edges (snd ?run) = [0] \<and>
    so_cost (snd ?run) = 10 \<and> s_hop_limit small_state = 8" by code_simp
  obtain st' out where run: "?run = (st', out)" by fastforce
  from shortest_path_exact [OF _ conjunct1 [OF facts] run] facts run
  have "feasible_path small_state (plain_binding ''p1'' ''a'') (plain_binding ''p2'' ''b'') 0 1 [0] \<and>
      (\<forall>q. feasible_path small_state (plain_binding ''p1'' ''a'') (plain_binding ''p2'' ''b'') 0 1 q \<and> length q \<le> 8 \<longrightarrow>
        10 \<le> path_cost small_state 0 q)" by (auto intro: less_imp_le)
  then show ?thesis using leD by blast
qed
end
