(* ===== verification/PathSets.thy ===== *)
theory PathSets
  imports Shortest
begin

text \<open>
  The candidates of a logical edge and the path sets built from them (\<open>src/planner.cpp\<close>):
  materialising a candidate, the disjointness tests between siblings, the path set with its capacity
  footprint and objective, and the bounded enumeration of the admissible sets.

  \<open>std::sort\<close> with \<open>candidate_less\<close> is a sort by the key the comparison reads; candidates
  of one logical edge with the same key have the same edges and are equal.
\<close>

section \<open>Candidates\<close>

record candidate =
  ca_edges :: "nat list"
  ca_cost :: u64
  ca_bottleneck :: u64
  ca_weakest :: evidence_class
  ca_signature :: "domain_id list"
  ca_domain_known :: bool

definition candidate_key :: "candidate \<Rightarrow> u64 \<times> nat \<times> nat list" where
  "candidate_key c = (ca_cost c, length (ca_edges c), ca_edges c)"

definition candidate_less :: "candidate \<Rightarrow> candidate \<Rightarrow> bool" where
  "candidate_less lhs rhs =
     (if ca_cost lhs \<noteq> ca_cost rhs then ca_cost lhs < ca_cost rhs
      else if length (ca_edges lhs) \<noteq> length (ca_edges rhs) then length (ca_edges lhs) < length (ca_edges rhs)
      else ca_edges lhs < ca_edges rhs)"

definition same_path :: "candidate \<Rightarrow> candidate \<Rightarrow> bool" where
  "same_path lhs rhs \<longleftrightarrow> ca_edges lhs = ca_edges rhs"

definition sort_candidates :: "candidate list \<Rightarrow> candidate list" where
  "sort_candidates = sort_key candidate_key"

text \<open>\<open>std::unique\<close> with \<open>same_path\<close>: of equal neighbours the first stays.\<close>

fun unique_paths :: "candidate list \<Rightarrow> candidate list" where
  "unique_paths (x # y # zs) =
     (if same_path x y then unique_paths (x # zs) else x # unique_paths (y # zs))"
| "unique_paths xs = xs"

text \<open>\<open>seen\<close> are the nodes and \<open>used\<close> the edges of the path so far.\<close>

fun edges_form_simple_path :: "planner_state \<Rightarrow> nat list \<Rightarrow> nat list \<Rightarrow> nat list \<Rightarrow> bool" where
  "edges_form_simple_path st seen used [] = True"
| "edges_form_simple_path st seen used (e # es) =
     (case edge_target st e of None \<Rightarrow> False
      | Some n \<Rightarrow>
          if n \<in> set seen then False
          else if e \<in> set used then False
          else edges_form_simple_path st (seen @ [n]) (used @ [e]) es)"

text \<open>The domain one edge contributes, if diversity is asked for and the edge has one at the level.\<close>

definition edge_level_domain :: "fabric \<Rightarrow> policy \<Rightarrow> edge \<Rightarrow> domain_id option" where
  "edge_level_domain g p e =
     (let level_domain = domain_at_level g (e_domain e) (domain_diversity_level p) in
      if id_valid level_domain then Some level_domain else None)"

text \<open>One iteration of the loop over the edges; the last component collects \<open>hop_domains\<close>.\<close>

definition extend_candidate :: "planner_state \<Rightarrow> nat \<Rightarrow> candidate \<times> domain_id list \<Rightarrow> candidate \<times> domain_id list" where
  "extend_candidate st i acc =
     (let (c, domains) = acc; g = s_fabric st; p = s_policy st; e = edges g ! i;
          c1 = c\<lparr>ca_cost := saturating_add (ca_cost c) (s_edge_cost st ! i) kCostCeiling,
                 ca_bottleneck := min (ca_bottleneck c) (edge_spare g i),
                 ca_weakest := (if evidence_value (e_evidence e) < evidence_value (ca_weakest c)
                                then e_evidence e else ca_weakest c)\<rparr> in
      if \<not> id_valid (e_domain e) then (c1\<lparr>ca_domain_known := False\<rparr>, domains)
      else if po_domain_diversity p \<noteq> ddNone then
        (case edge_level_domain g p e of
           None \<Rightarrow> (c1\<lparr>ca_domain_known := False\<rparr>, domains)
         | Some d \<Rightarrow> (c1, domains @ [d]))
      else (c1, domains))"

text \<open>\<open>None\<close>: \<open>*ok\<close> is false. The signature is computed as in \<open>plan.cpp\<close>.\<close>

definition make_candidate :: "planner_state \<Rightarrow> nat list \<Rightarrow> nat \<Rightarrow> candidate option" where
  "make_candidate st es source =
     (if \<not> (length es \<le> max_hops (s_policy st) \<and> edges_form_simple_path st [source] [] es) then None
      else let (c, domains) = fold (extend_candidate st) es
                 (\<lparr>ca_edges = es, ca_cost = 0, ca_bottleneck = kCostCeiling, ca_weakest = evMeasured,
                   ca_signature = [], ca_domain_known = True\<rparr>, []) in
        Some (c\<lparr>ca_bottleneck := (if ca_bottleneck c = kCostCeiling then 0 else ca_bottleneck c),
                ca_signature := (if po_domain_diversity (s_policy st) \<noteq> ddNone then signature_of domains else [])\<rparr>))"

section \<open>Sibling tests\<close>

definition paths_edge_disjoint :: "candidate \<Rightarrow> candidate \<Rightarrow> bool" where
  "paths_edge_disjoint lhs rhs \<longleftrightarrow> list_all (\<lambda>e. e \<notin> set (ca_edges rhs)) (ca_edges lhs)"

definition paths_node_disjoint :: "fabric \<Rightarrow> candidate \<Rightarrow> candidate \<Rightarrow> bool" where
  "paths_node_disjoint g lhs rhs \<longleftrightarrow>
     list_all (\<lambda>l. list_all (\<lambda>r. e_to (edges g ! l) \<noteq> e_to (edges g ! r)) (butlast (ca_edges rhs)))
       (butlast (ca_edges lhs))"

definition domains_independent :: "candidate \<Rightarrow> candidate \<Rightarrow> bool" where
  "domains_independent lhs rhs =
     (if \<not> ca_domain_known lhs \<or> \<not> ca_domain_known rhs then False
      else list_all (\<lambda>d. \<not> binary_search (ca_signature rhs) d) (ca_signature lhs))"

section \<open>Path sets\<close>

record path_set =
  ss_paths :: "candidate list"
  ss_total_cost :: u64
  ss_max_path_cost :: u64
  ss_headroom :: u64
  ss_domain_conflicts :: nat
  ss_usage :: "(nat \<times> u64) list"
  ss_signature :: "nat list"

definition path_set_less :: "path_set \<Rightarrow> path_set \<Rightarrow> bool" where
  "path_set_less lhs rhs =
     (if ss_total_cost lhs \<noteq> ss_total_cost rhs then ss_total_cost lhs < ss_total_cost rhs
      else if ss_domain_conflicts lhs \<noteq> ss_domain_conflicts rhs
        then ss_domain_conflicts lhs < ss_domain_conflicts rhs
      else if ss_max_path_cost lhs \<noteq> ss_max_path_cost rhs then ss_max_path_cost lhs < ss_max_path_cost rhs
      else if ss_headroom lhs \<noteq> ss_headroom rhs then ss_headroom lhs > ss_headroom rhs
      else ss_signature lhs < ss_signature rhs)"

text \<open>Merging one edge of a path into the capacity footprint.\<close>

fun merge_usage :: "u64 \<Rightarrow> nat \<Rightarrow> (nat \<times> u64) list \<Rightarrow> (nat \<times> u64) list" where
  "merge_usage demand e [] = [(e, demand)]"
| "merge_usage demand e ((f, amount) # rest) =
     (if f = e then (f, saturating_add amount demand kCostCeiling) # rest
      else (f, amount) # merge_usage demand e rest)"

definition usage_of :: "fabric \<Rightarrow> u64 \<Rightarrow> candidate list \<Rightarrow> (nat \<times> u64) list" where
  "usage_of g demand paths =
     fold (\<lambda>path usage. fold (\<lambda>e u. if e_capacity (edges g ! e) = 0 then u else merge_usage demand e u)
                          (ca_edges path) usage) paths []"

fun domain_conflicts_of :: "candidate list \<Rightarrow> nat" where
  "domain_conflicts_of [] = 0"
| "domain_conflicts_of (x # xs) =
     length (filter (\<lambda>y. \<not> domains_independent x y) xs) + domain_conflicts_of xs"

definition build_path_set :: "planner_state \<Rightarrow> candidate list \<Rightarrow> u64 \<Rightarrow> path_set" where
  "build_path_set st chosen demand =
     (let paths = sort_candidates chosen; g = s_fabric st; usage = sort (usage_of g demand paths) in
      \<lparr>ss_paths = paths,
       ss_total_cost = fold (\<lambda>path total. saturating_add total (ca_cost path) kCostCeiling) paths 0,
       ss_max_path_cost = fold (\<lambda>path highest. max highest (ca_cost path)) paths 0,
       ss_headroom =
         fold (\<lambda>(e, amount) room.
                 min room (if amount \<ge> edge_spare g e then 0 else edge_spare g e - amount)) usage kCostCeiling,
       ss_domain_conflicts = (if po_domain_diversity (s_policy st) \<noteq> ddNone then domain_conflicts_of paths else 0),
       ss_usage = usage,
       ss_signature = concat (map ca_edges paths)\<rparr>)"

section \<open>Enumeration of the admissible sets\<close>

datatype set_reject = rjNone | rjDisjointness | rjDomainDiversity | rjCapacity

record set_enumeration =
  se_best :: "path_set list"
  se_accepted :: nat
  se_considered :: nat
  se_step_limited :: bool
  se_rejected_disjointness :: nat
  se_rejected_domain :: nat
  se_rejected_capacity :: nat

definition new_set_enumeration :: set_enumeration where
  "new_set_enumeration =
     \<lparr>se_best = [], se_accepted = 0, se_considered = 0, se_step_limited = False,
      se_rejected_disjointness = 0, se_rejected_domain = 0, se_rejected_capacity = 0\<rparr>"

definition insert_set :: "path_set \<Rightarrow> path_set list \<Rightarrow> path_set list" where
  "insert_set s best = (let i = lower_bound path_set_less best s in take i best @ s # drop i best)"

definition offer_set :: "nat \<Rightarrow> path_set \<Rightarrow> set_enumeration \<Rightarrow> set_enumeration" where
  "offer_set cap s out =
     (let best = insert_set s (se_best out) in
      out\<lparr>se_accepted := se_accepted out + 1,
          se_best := (if length best > cap then butlast best else best)\<rparr>)"

text \<open>The loop over the chosen candidates that looks for the first conflict with a new one.\<close>

fun set_conflict :: "planner_state \<Rightarrow> nat \<Rightarrow> candidate \<Rightarrow> candidate list \<Rightarrow> set_reject" where
  "set_conflict st chosen_size c [] = rjNone"
| "set_conflict st chosen_size c (existing # rest) =
     (if po_disjointness (s_policy st) \<noteq> djNone \<and> \<not> paths_edge_disjoint existing c then rjDisjointness
      else if po_disjointness (s_policy st) = djNode \<and> \<not> paths_node_disjoint (s_fabric st) existing c
        then rjDisjointness
      else if po_domain_diversity (s_policy st) = ddRequired \<and> \<not> domains_independent existing c
        then rjDomainDiversity
      else if po_domain_diversity (s_policy st) = ddRequired \<and> chosen_size > 1 \<and> \<not> ca_domain_known c
        then rjDomainDiversity
      else set_conflict st chosen_size c rest)"

definition set_fits :: "planner_state \<Rightarrow> path_set \<Rightarrow> bool" where
  "set_fits st s \<longleftrightarrow> list_all (\<lambda>(e, amount). \<not> amount > edge_spare (s_fabric st) e) (ss_usage s)"

definition count_rejection :: "set_reject \<Rightarrow> set_enumeration \<Rightarrow> set_enumeration" where
  "count_rejection reject out =
     (let out1 = out\<lparr>se_considered := se_considered out + 1\<rparr> in
      if reject = rjDisjointness then out1\<lparr>se_rejected_disjointness := se_rejected_disjointness out1 + 1\<rparr>
      else if reject = rjDomainDiversity then out1\<lparr>se_rejected_domain := se_rejected_domain out1 + 1\<rparr>
      else out1)"

text \<open>
  \<open>enumerate_sets\<close> with its loop over the rest of the pool: \<open>pool\<close> is the part of the pool
  from \<open>index\<close> on.
\<close>

function (sequential) enumerate_sets ::
    "planner_state \<Rightarrow> nat \<Rightarrow> nat \<Rightarrow> nat \<Rightarrow> candidate list \<Rightarrow> candidate list \<Rightarrow> set_enumeration \<Rightarrow> set_enumeration"
  and sets_loop ::
    "planner_state \<Rightarrow> nat \<Rightarrow> nat \<Rightarrow> nat \<Rightarrow> candidate list \<Rightarrow> candidate list \<Rightarrow> set_enumeration \<Rightarrow> set_enumeration" where
  "enumerate_sets st wanted cap budget pool chosen out =
     (if se_considered out \<ge> budget then out\<lparr>se_step_limited := True\<rparr>
      else if length chosen = wanted then
        (let out1 = out\<lparr>se_considered := se_considered out + 1\<rparr>;
             s = build_path_set st chosen (s_demand st) in
         if \<not> set_fits st s then out1\<lparr>se_rejected_capacity := se_rejected_capacity out1 + 1\<rparr>
         else offer_set cap s out1)
      else if pool = [] then out
      else if length pool < wanted - length chosen then out
      else sets_loop st wanted cap budget pool chosen out)"
| "sets_loop st wanted cap budget [] chosen out = out"
| "sets_loop st wanted cap budget (c # rest) chosen out =
     (if se_considered out \<ge> budget then out\<lparr>se_step_limited := True\<rparr>
      else let reject = set_conflict st (length chosen) c chosen in
        if reject \<noteq> rjNone then sets_loop st wanted cap budget rest chosen (count_rejection reject out)
        else sets_loop st wanted cap budget rest chosen
               (enumerate_sets st wanted cap budget rest (chosen @ [c]) out))"
  by pat_completeness auto
termination
  by (relation "measure (\<lambda>x. case x of
        Inl (st, wanted, cap, budget, pool, chosen, out) \<Rightarrow> 2 * length pool + 1
      | Inr (st, wanted, cap, budget, pool, chosen, out) \<Rightarrow> 2 * length pool)") auto

declare enumerate_sets.simps [simp del]

section \<open>The enumeration is exact\<close>

text \<open>The objective as a sort key: the headroom counts downwards.\<close>

definition path_set_key :: "path_set \<Rightarrow> u64 \<times> nat \<times> u64 \<times> nat \<times> nat list" where
  "path_set_key s =
     (ss_total_cost s, ss_domain_conflicts s, ss_max_path_cost s, 2 ^ 64 - 1 - unat (ss_headroom s), ss_signature s)"

lemma diff_less_mono2_iff: "(a :: nat) \<le> n \<Longrightarrow> b \<le> n \<Longrightarrow> n - a < n - b \<longleftrightarrow> b < a"
  by auto

lemma diff_eq_iff_le: "(a :: nat) \<le> n \<Longrightarrow> b \<le> n \<Longrightarrow> n - a = n - b \<longleftrightarrow> a = b"
  by auto

lemma path_set_less_key: "path_set_less a b \<longleftrightarrow> path_set_key a < path_set_key b"
proof -
  have le: "unat z \<le> 2 ^ 64 - 1" for z :: u64
    using unsigned_less [where 'a = nat, of z] by (simp only: len_bit0 len_num1 less_eq_Suc_le) simp
  have room: "2 ^ 64 - 1 - unat x < 2 ^ 64 - 1 - unat y \<longleftrightarrow> y < x" "2 ^ 64 - 1 - unat x = 2 ^ 64 - 1 - unat y \<longleftrightarrow> x = y"
    for x y :: u64
    using diff_less_mono2_iff [OF le [of x] le [of y]] diff_eq_iff_le [OF le [of x] le [of y]]
    by (simp_all only: word_less_nat_alt word_unat_eq_iff)
  have room_le: "2 ^ 64 - 1 - unat x \<le> 2 ^ 64 - 1 - unat y \<longleftrightarrow> y \<le> x" for x y :: u64
    using room(1) [of y x] by (simp only: not_less [symmetric])
  show ?thesis
    unfolding path_set_less_def path_set_key_def less_prod_simp room room_le by auto
qed

lemma candidate_less_key: "candidate_less a b \<longleftrightarrow> candidate_key a < candidate_key b"
  unfolding candidate_less_def candidate_key_def less_prod_simp by auto

lemma insert_set_eq: "insert_set s best = insort_key path_set_key s best"
proof (induction best)
  case Nil
  then show ?case by (simp add: insert_set_def lower_bound_def)
next
  case (Cons b best)
  then show ?case by (auto simp: insert_set_def lower_bound_def path_set_less_key Let_def not_less)
qed

lemma take_insort: "take n (insort_key f x (take n xs)) = take n (insort_key f x xs)"
proof (induction xs arbitrary: n)
  case (Cons y ys)
  show ?case
  proof (cases n)
    case (Suc m)
    have "take m (y # take m ys) = take m (y # ys)" by (cases m) simp_all
    with Suc Cons show ?thesis by simp
  qed simp
qed simp

lemma offer_set_best:
  assumes "length (se_best out) \<le> cap"
  shows "se_best (offer_set cap s out) = take cap (insort_key path_set_key s (se_best out))"
    "se_accepted (offer_set cap s out) = se_accepted out + 1"
    "se_considered (offer_set cap s out) = se_considered out"
    "se_step_limited (offer_set cap s out) = se_step_limited out"
proof -
  have len: "length (insort_key path_set_key s (se_best out)) = Suc (length (se_best out))" by simp
  show "se_best (offer_set cap s out) = take cap (insort_key path_set_key s (se_best out))"
  proof (cases "cap = length (se_best out)")
    case True
    then show ?thesis by (simp add: offer_set_def Let_def insert_set_eq butlast_conv_take)
  qed (use assms len in \<open>simp add: offer_set_def Let_def insert_set_eq\<close>)
qed (simp_all add: offer_set_def Let_def)

text \<open>Keeping the best \<open>cap\<close> sets of a sequence of offers.\<close>

definition keep_best :: "nat \<Rightarrow> path_set list \<Rightarrow> path_set list \<Rightarrow> path_set list" where
  "keep_best cap sets best = fold (\<lambda>s b. take cap (insort_key path_set_key s b)) sets best"

lemma keep_best_take:
  "take cap (keep_best cap sets (take cap xs)) = take cap (fold (insort_key path_set_key) sets xs)"
proof (induction sets arbitrary: xs)
  case (Cons s sets)
  from Cons.IH [of "insort_key path_set_key s xs"] show ?case by (simp add: keep_best_def take_insort)
qed (simp add: keep_best_def)

lemma keep_best_length: "length best \<le> cap \<Longrightarrow> length (keep_best cap sets best) \<le> cap"
  by (induction sets arbitrary: best) (simp_all add: keep_best_def)

lemma keep_best_sorted: "keep_best cap sets [] = take cap (sort_key path_set_key (rev sets))"
proof -
  have "sort_key path_set_key (rev sets) = fold (insort_key path_set_key) sets []"
    by (simp add: sort_key_def foldr_conv_fold)
  with keep_best_take [of cap sets "[]"] keep_best_length [of "[]" cap sets] show ?thesis by simp
qed

text \<open>Two siblings may be chosen together.\<close>

definition compatible :: "planner_state \<Rightarrow> candidate \<Rightarrow> candidate \<Rightarrow> bool" where
  "compatible st x y \<longleftrightarrow>
     (po_disjointness (s_policy st) \<noteq> djNone \<longrightarrow> paths_edge_disjoint x y) \<and>
     (po_disjointness (s_policy st) = djNode \<longrightarrow> paths_node_disjoint (s_fabric st) x y) \<and>
     (po_domain_diversity (s_policy st) = ddRequired \<longrightarrow> domains_independent x y)"

lemma set_conflict_iff: "set_conflict st n c xs = rjNone \<longleftrightarrow> (\<forall>x\<in>set xs. compatible st x c)"
  by (induction xs) (auto simp: compatible_def domains_independent_def)

text \<open>The reference: the choices of \<open>k\<close> more candidates, in the order of the pool.\<close>

fun set_choices :: "planner_state \<Rightarrow> nat \<Rightarrow> candidate list \<Rightarrow> candidate list \<Rightarrow> candidate list list" where
  "set_choices st 0 pool chosen = [chosen]"
| "set_choices st (Suc k) [] chosen = []"
| "set_choices st (Suc k) (c # rest) chosen =
     (if \<forall>x\<in>set chosen. compatible st x c then set_choices st k rest (chosen @ [c]) else []) @
     set_choices st (Suc k) rest chosen"

definition admissible_from :: "planner_state \<Rightarrow> nat \<Rightarrow> candidate list \<Rightarrow> candidate list \<Rightarrow> path_set list" where
  "admissible_from st k pool chosen =
     filter (set_fits st) (map (\<lambda>xs. build_path_set st xs (s_demand st)) (set_choices st k pool chosen))"

abbreviation admissible_sets :: "planner_state \<Rightarrow> nat \<Rightarrow> candidate list \<Rightarrow> path_set list" where
  "admissible_sets st wanted pool \<equiv> admissible_from st wanted pool []"

lemma set_choices_short: "length pool < k \<Longrightarrow> set_choices st k pool chosen = []"
  by (induction st k pool chosen rule: set_choices.induct) auto

lemma Cons_images:
  "{g xs |xs. xs \<in> (#) c ` S \<union> S \<and> length xs = Suc k \<and> Q xs} =
   {g (c # xs) |xs. xs \<in> S \<and> length xs = k \<and> Q (c # xs)} \<union> {g xs |xs. xs \<in> S \<and> length xs = Suc k \<and> Q xs}"
  by auto

lemma set_set_choices:
  "set (set_choices st k pool chosen) =
     {chosen @ xs |xs. xs \<in> set (subseqs pool) \<and> length xs = k \<and> sorted_wrt (compatible st) xs \<and>
        (\<forall>x\<in>set chosen. \<forall>y\<in>set xs. compatible st x y)}"
proof (induction st k pool chosen rule: set_choices.induct)
  case (1 st pool chosen)
  have "[] \<in> set (subseqs pool)" by (induction pool) (simp_all add: Let_def)
  then show ?case by auto
next
  case (3 st k c rest chosen)
  let ?P = "\<lambda>xs. sorted_wrt (compatible st) xs \<and> (\<forall>x\<in>set chosen. \<forall>y\<in>set xs. compatible st x y)"
  have subs: "set (subseqs (c # rest)) = (#) c ` set (subseqs rest) \<union> set (subseqs rest)" by (simp add: Let_def)
  have "{chosen @ xs |xs. xs \<in> set (subseqs (c # rest)) \<and> length xs = Suc k \<and> ?P xs} =
      {chosen @ c # xs |xs. xs \<in> set (subseqs rest) \<and> length xs = k \<and> ?P (c # xs)} \<union>
      {chosen @ xs |xs. xs \<in> set (subseqs rest) \<and> length xs = Suc k \<and> ?P xs}"
    unfolding subs by (rule Cons_images)
  also have "{chosen @ c # xs |xs. xs \<in> set (subseqs rest) \<and> length xs = k \<and> ?P (c # xs)} =
      set (if \<forall>x\<in>set chosen. compatible st x c then set_choices st k rest (chosen @ [c]) else [])"
  proof (cases "\<forall>x\<in>set chosen. compatible st x c")
    case True
    then show ?thesis unfolding if_P [OF True] 3(1) [OF True] by (auto simp: ball_Un)
  qed auto
  finally show ?case using 3(2) by (simp only: set_choices.simps set_append)
qed auto

text \<open>
  What a part of the enumeration does: it offers sets of the reference, all of them in order unless
  the step limit was reached.
\<close>

definition offers :: "nat \<Rightarrow> path_set list \<Rightarrow> set_enumeration \<Rightarrow> set_enumeration \<Rightarrow> bool" where
  "offers cap sets out out' \<longleftrightarrow>
     (se_step_limited out \<longrightarrow> se_step_limited out') \<and> se_considered out \<le> se_considered out' \<and>
     (\<exists>xs. set xs \<subseteq> set sets \<and> se_best out' = keep_best cap xs (se_best out) \<and>
        se_accepted out' = se_accepted out + length xs \<and> (\<not> se_step_limited out' \<longrightarrow> xs = sets))"

lemma offers_refl: "offers cap [] out out"
  by (simp add: offers_def keep_best_def)

lemma offers_limit: "offers cap sets out (out\<lparr>se_step_limited := True\<rparr>)"
  by (auto simp: offers_def keep_best_def intro!: exI [of _ "[]"])

lemma offers_trans:
  assumes "offers cap xs a b" "offers cap ys b c"
  shows "offers cap (xs @ ys) a c"
proof -
  obtain us where us: "set us \<subseteq> set xs" "se_best b = keep_best cap us (se_best a)"
    "se_accepted b = se_accepted a + length us" "\<not> se_step_limited b \<longrightarrow> us = xs" using assms(1) by (auto simp: offers_def)
  obtain vs where vs: "set vs \<subseteq> set ys" "se_best c = keep_best cap vs (se_best b)"
    "se_accepted c = se_accepted b + length vs" "\<not> se_step_limited c \<longrightarrow> vs = ys" using assms(2) by (auto simp: offers_def)
  have "se_step_limited b \<longrightarrow> se_step_limited c" "se_step_limited a \<longrightarrow> se_step_limited b"
    "se_considered a \<le> se_considered b" "se_considered b \<le> se_considered c" using assms by (simp_all add: offers_def)
  with us vs show ?thesis unfolding offers_def by (intro conjI exI [of _ "us @ vs"]) (auto simp: keep_best_def)
qed

lemma count_rejection_frame:
  "se_best (count_rejection r out) = se_best out" "se_accepted (count_rejection r out) = se_accepted out"
  "se_step_limited (count_rejection r out) = se_step_limited out"
  "se_considered (count_rejection r out) = se_considered out + 1"
  by (simp_all add: count_rejection_def Let_def)

lemma offers_reject: "offers cap [] out (count_rejection r out)"
  by (simp add: offers_def count_rejection_frame keep_best_def)

lemma offers_length: "offers cap xs a b \<Longrightarrow> length (se_best a) \<le> cap \<Longrightarrow> length (se_best b) \<le> cap"
  by (auto simp: offers_def keep_best_length)

lemma offers_complete:
  assumes "length (se_best out) \<le> cap"
  shows "offers cap (filter (set_fits st) [s]) out
    (let out1 = out\<lparr>se_considered := se_considered out + 1\<rparr> in
     if \<not> set_fits st s then out1\<lparr>se_rejected_capacity := se_rejected_capacity out1 + 1\<rparr> else offer_set cap s out1)"
proof (cases "set_fits st s")
  case True
  have "length (se_best (out\<lparr>se_considered := se_considered out + 1\<rparr>)) \<le> cap" using assms by simp
  from offer_set_best [OF this, of s] True show ?thesis
    by (auto simp: offers_def keep_best_def Let_def intro!: exI [of _ "[s]"])
next
  case False
  then show ?thesis by (simp add: offers_def keep_best_def Let_def)
qed

lemma enumerate_sets_offers:
  "length chosen \<le> wanted \<Longrightarrow> length (se_best out) \<le> cap \<Longrightarrow>
     offers cap (admissible_from st (wanted - length chosen) pool chosen) out
       (enumerate_sets st wanted cap budget pool chosen out)"
  "length chosen < wanted \<Longrightarrow> length (se_best out) \<le> cap \<Longrightarrow>
     offers cap (admissible_from st (wanted - length chosen) pool chosen) out
       (sets_loop st wanted cap budget pool chosen out)"
proof (induction st wanted cap budget pool chosen out and st wanted cap budget pool chosen out
    rule: enumerate_sets_sets_loop.induct)
  case (1 st wanted cap budget pool chosen out)
  show ?case
  proof (cases "se_considered out \<ge> budget")
    case True
    then show ?thesis by (simp add: enumerate_sets.simps offers_limit)
  next
    case go: False
    show ?thesis
    proof (cases "length chosen = wanted")
      case True
      have "admissible_from st 0 pool chosen = filter (set_fits st) [build_path_set st chosen (s_demand st)]"
        by (simp add: admissible_from_def)
      with offers_complete [OF 1(3), of st "build_path_set st chosen (s_demand st)"] go True
      show ?thesis by (subst enumerate_sets.simps) (simp only: if_False if_True refl diff_self_eq_0 Let_def simp_thms)
    next
      case more: False
      show ?thesis
      proof (cases "length pool < wanted - length chosen")
        case True
        then have "admissible_from st (wanted - length chosen) pool chosen = []"
          by (simp add: admissible_from_def set_choices_short)
        with True go more show ?thesis by (simp add: enumerate_sets.simps offers_refl)
      next
        case False
        then have "pool \<noteq> []" using more 1(2) by auto
        with 1(1) go more False 1(2,3) show ?thesis by (simp add: enumerate_sets.simps)
      qed
    qed
  qed
next
  case (2 st wanted cap budget chosen out)
  then obtain k where "wanted - length chosen = Suc k" by (metis Suc_diff_Suc)
  then show ?case by (simp add: admissible_from_def offers_refl)
next
  case (3 st wanted cap budget c rest chosen out)
  obtain k where k: "wanted - length chosen = Suc k" using 3(4) by (metis Suc_diff_Suc)
  show ?case
  proof (cases "se_considered out \<ge> budget")
    case True
    then show ?thesis by (simp add: offers_limit)
  next
    case go: False
    let ?reject = "set_conflict st (length chosen) c chosen"
    show ?thesis
    proof (cases "?reject = rjNone")
      case False
      have "length (se_best (count_rejection ?reject out)) \<le> cap" using 3(5) by (simp add: count_rejection_frame)
      from offers_trans [OF offers_reject 3(1) [OF go refl False 3(4) this]] False go
      show ?thesis by (auto simp: admissible_from_def k set_conflict_iff)
    next
      case True
      let ?below = "enumerate_sets st wanted cap budget rest (chosen @ [c]) out"
      have "length (chosen @ [c]) \<le> wanted" "wanted - length (chosen @ [c]) = k" using 3(4) k by auto
      then have below: "offers cap (admissible_from st k rest (chosen @ [c])) out ?below"
        using 3(2) [OF go refl] True 3(5) by simp
      have "offers cap (admissible_from st (Suc k) rest chosen) ?below (sets_loop st wanted cap budget rest chosen ?below)"
        using 3(3) [OF go refl _ 3(4) offers_length [OF below 3(5)]] True k by simp
      from offers_trans [OF below this] True go show ?thesis
        by (simp add: admissible_from_def k set_conflict_iff)
    qed
  qed
qed

lemma keep_best_subset: "set (keep_best cap sets best) \<subseteq> set sets \<union> set best"
proof (induction sets arbitrary: best)
  case (Cons s sets)
  have "set (take cap (insort_key path_set_key s best)) \<subseteq> insert s (set best)"
    by (metis set_insort_key set_take_subset)
  with Cons.IH [of "take cap (insort_key path_set_key s best)"] show ?case by (auto simp: keep_best_def)
qed (simp add: keep_best_def)

lemma enumerate_sets_correct:
  assumes "out = enumerate_sets st wanted cap budget pool [] new_set_enumeration"
  shows "set (se_best out) \<subseteq> set (admissible_sets st wanted pool)" "length (se_best out) \<le> cap"
    "\<not> se_step_limited out \<Longrightarrow>
       se_best out = take cap (sort_key path_set_key (rev (admissible_sets st wanted pool))) \<and>
       se_accepted out = length (admissible_sets st wanted pool)"
proof -
  have new: "length (se_best new_set_enumeration) \<le> cap" by (simp add: new_set_enumeration_def)
  have off: "offers cap (admissible_sets st wanted pool) new_set_enumeration out"
    using enumerate_sets_offers(1) [of "[]" wanted new_set_enumeration cap st pool budget] new assms by simp
  then show "length (se_best out) \<le> cap" by (rule offers_length) (rule new)
  from off obtain xs where xs: "set xs \<subseteq> set (admissible_sets st wanted pool)" "se_best out = keep_best cap xs []"
    "se_accepted out = length xs" "\<not> se_step_limited out \<longrightarrow> xs = admissible_sets st wanted pool"
    by (auto simp: offers_def new_set_enumeration_def)
  then show "set (se_best out) \<subseteq> set (admissible_sets st wanted pool)" using keep_best_subset [of cap xs "[]"] by auto
  show "se_best out = take cap (sort_key path_set_key (rev (admissible_sets st wanted pool))) \<and>
      se_accepted out = length (admissible_sets st wanted pool)" if "\<not> se_step_limited out"
    using xs that by (simp add: keep_best_sorted)
qed

lemma set_admissible_sets:
  "set (admissible_sets st wanted pool) =
     {s. \<exists>xs. s = build_path_set st xs (s_demand st) \<and> xs \<in> set (subseqs pool) \<and> length xs = wanted \<and>
        sorted_wrt (compatible st) xs \<and> set_fits st s}"
  unfolding admissible_from_def set_filter set_map set_set_choices by auto

section \<open>Properties\<close>

text \<open>
  C5: the enumeration of the path sets of a logical edge is exact. Every set it keeps consists of
  the wanted number of pool candidates that are pairwise compatible (disjoint and domain independent
  as the policy asks) and fits the spare capacity; unless its step limit was reached, it has accepted
  all such sets and keeps the best \<open>cap\<close> of them in the order of the objective.
\<close>

theorem path_sets_exact:
  assumes "out = enumerate_sets st wanted cap budget pool [] new_set_enumeration"
    and "admissible = {s. \<exists>xs. s = build_path_set st xs (s_demand st) \<and> xs \<in> set (subseqs pool) \<and>
      length xs = wanted \<and> sorted_wrt (compatible st) xs \<and> set_fits st s}"
  shows "set (se_best out) \<subseteq> admissible \<and> length (se_best out) \<le> cap \<and>
    (\<not> se_step_limited out \<longrightarrow>
      (\<exists>sets. set sets = admissible \<and> se_accepted out = length sets \<and>
         se_best out = take cap (sort_key path_set_key sets)))"
proof -
  note c = enumerate_sets_correct [OF assms(1)]
  have "set (rev (admissible_sets st wanted pool)) = admissible" by (simp add: assms(2) set_admissible_sets)
  with c show ?thesis
    by (intro conjI impI exI [of _ "rev (admissible_sets st wanted pool)"]) (simp_all add: set_admissible_sets assms(2))
qed

definition small_pool :: "candidate list" where
  "small_pool = [the (make_candidate small_state [0] 0)]"

theorem path_sets_exact_witness:
  "\<exists>s. {s. \<exists>xs. s = build_path_set small_state xs (s_demand small_state) \<and> xs \<in> set (subseqs small_pool) \<and>
      length xs = 1 \<and> sorted_wrt (compatible small_state) xs \<and> set_fits small_state s} = {s}"
proof -
  let ?out = "enumerate_sets small_state 1 8 100 small_pool [] new_set_enumeration"
  have facts: "\<not> se_step_limited ?out \<and> se_accepted ?out = 1" by code_simp
  from path_sets_exact [OF refl refl, of small_state 1 8 100 small_pool] facts obtain sets where
    "set sets = {s. \<exists>xs. s = build_path_set small_state xs (s_demand small_state) \<and> xs \<in> set (subseqs small_pool) \<and>
      length xs = 1 \<and> sorted_wrt (compatible small_state) xs \<and> set_fits small_state s}" "length sets = 1" by auto
  then show ?thesis by (cases sets) auto
qed
end
