(* ===== verification/Flow.thy ===== *)
theory Flow
  imports PathSets
begin

text \<open>
  The unit-capacity maximum flow (\<open>class MaxFlow\<close> and \<open>max_disjoint_paths\<close> of
  \<open>src/planner.cpp\<close>) that certifies that a disjointness requirement cannot be met.

  Capacities and flows are natural numbers: the code keeps them in 32 bits, and none ever exceeds
  the number of paths asked for. A level \<open>kUnreachableLevel\<close> is \<open>None\<close>.
\<close>

section \<open>The flow network\<close>

record arc =
  arc_to :: nat
  arc_capacity :: nat
  arc_reverse :: nat

type_synonym flow_graph = "arc list list"

definition add_arc :: "nat \<Rightarrow> nat \<Rightarrow> nat \<Rightarrow> flow_graph \<Rightarrow> flow_graph" where
  "add_arc tail head capacity g =
     (let g1 = g[tail := g ! tail @ [\<lparr>arc_to = head, arc_capacity = capacity, arc_reverse = length (g ! head)\<rparr>]] in
      g1[head := g1 ! head @ [\<lparr>arc_to = tail, arc_capacity = 0, arc_reverse = length (g1 ! tail) - 1\<rparr>]])"

text \<open>The breadth-first levels, with the queue kept from its read position on.\<close>

definition unlevelled :: "nat option list \<Rightarrow> nat \<Rightarrow> bool" where
  "unlevelled level n \<longleftrightarrow> n < length level \<and> level ! n = None"

fun level_arcs :: "nat \<Rightarrow> arc list \<Rightarrow> nat option list \<Rightarrow> nat list \<Rightarrow> nat option list \<times> nat list" where
  "level_arcs d [] level queue = (level, queue)"
| "level_arcs d (a # as) level queue =
     (if arc_capacity a > 0 \<and> unlevelled level (arc_to a)
      then level_arcs d as (level[arc_to a := Some (d + 1)]) (queue @ [arc_to a])
      else level_arcs d as level queue)"

lemma level_arcs_measure:
  "level_arcs d as level queue = (level', queue') \<Longrightarrow>
   count_list level' None + length queue' = count_list level None + length queue"
proof (induction as arbitrary: level queue)
  case (Cons a as)
  then show ?case
    using count_list_update_None [of level "arc_to a" "d + 1"]
    by (fastforce simp: unlevelled_def unvisited_def split: if_splits)
qed simp

function level_loop :: "flow_graph \<Rightarrow> nat option list \<Rightarrow> nat list \<Rightarrow> nat option list" where
  "level_loop g level [] = level"
| "level_loop g level (n # queue) =
     (case level_arcs (the (level ! n)) (g ! n) level queue of (level', queue') \<Rightarrow> level_loop g level' queue')"
  by pat_completeness auto
termination
proof (relation "measure (\<lambda>(g, level, queue). count_list level None + length queue)", goal_cases)
  case (2 g level n queue level' queue')
  from level_arcs_measure [OF 2 [symmetric]] show ?case by simp
qed simp

definition levels :: "flow_graph \<Rightarrow> nat \<Rightarrow> nat option list" where
  "levels g source = level_loop g ((replicate (length g) None)[source := Some 0]) [source]"

text \<open>
  \<open>augment\<close>: the recursion descends one level at a time, so one more than the deepest level is
  enough fuel. \<open>augment_arcs\<close> is its loop, over the arc positions from the cursor on.
\<close>

definition push_flow :: "nat \<Rightarrow> nat \<Rightarrow> nat \<Rightarrow> flow_graph \<Rightarrow> flow_graph" where
  "push_flow n i pushed g =
     (let a = g ! n ! i;
          g1 = g[n := (g ! n)[i := a\<lparr>arc_capacity := arc_capacity a - pushed\<rparr>]];
          m = arc_to a; j = arc_reverse a; b = g1 ! m ! j in
      g1[m := (g1 ! m)[j := b\<lparr>arc_capacity := arc_capacity b + pushed\<rparr>]])"

function (sequential) augment ::
    "nat \<Rightarrow> nat option list \<Rightarrow> nat \<Rightarrow> nat \<Rightarrow> nat \<Rightarrow> flow_graph \<times> nat list \<Rightarrow> nat \<times> flow_graph \<times> nat list"
  and augment_arcs ::
    "nat \<Rightarrow> nat option list \<Rightarrow> nat \<Rightarrow> nat \<Rightarrow> nat \<Rightarrow> nat list \<Rightarrow> flow_graph \<times> nat list \<Rightarrow> nat \<times> flow_graph \<times> nat list" where
  "augment 0 level sink n limit s = (0, s)"
| "augment (Suc fuel) level sink n limit s =
     (if n = sink then (limit, s)
      else augment_arcs fuel level sink n limit [snd s ! n..<length (fst s ! n)] s)"
| "augment_arcs fuel level sink n limit [] s = (0, fst s, (snd s)[n := length (fst s ! n)])"
| "augment_arcs fuel level sink n limit (i # is) s =
     (let (g, cursor) = s; a = g ! n ! i; here = (g, cursor[n := i]) in
      if arc_capacity a = 0 \<or> level ! arc_to a \<noteq> map_option Suc (level ! n)
        then augment_arcs fuel level sink n limit is here
      else let (pushed, g1, cursor1) = augment fuel level sink (arc_to a) (min limit (arc_capacity a)) here in
        if pushed > 0 then (pushed, push_flow n i pushed g1, cursor1)
        else augment_arcs fuel level sink n limit is (g1, cursor1))"
  by pat_completeness auto
termination
  by (relation "measures [\<lambda>x. case x of Inl (fuel, _) \<Rightarrow> fuel | Inr (fuel, _) \<Rightarrow> fuel,
      \<lambda>x. case x of Inl _ \<Rightarrow> 0 | Inr (fuel, level, sink, n, limit, is, s) \<Rightarrow> Suc (length is)]") auto

definition level_height :: "nat option list \<Rightarrow> nat" where
  "level_height level = fold (\<lambda>x n. case x of None \<Rightarrow> n | Some d \<Rightarrow> max d n) level 0"

text \<open>The inner loop of \<open>run\<close>: one blocking phase over fixed levels.\<close>

function flow_phase ::
  "nat option list \<Rightarrow> nat \<Rightarrow> nat \<Rightarrow> nat \<Rightarrow> flow_graph \<times> nat list \<Rightarrow> nat \<Rightarrow> nat \<times> flow_graph" where
  "flow_phase level source sink limit s flow =
     (if flow < limit then
        let (pushed, s1) = augment (level_height level + 1) level sink source (limit - flow) s in
        if pushed = 0 then (flow, fst s1) else flow_phase level source sink limit s1 (flow + pushed)
      else (flow, fst s))"
  by pat_completeness auto
termination
  by (relation "measure (\<lambda>(level, source, sink, limit, s, flow). limit - flow)") auto

declare flow_phase.simps [simp del]

text \<open>
  The outer loop of \<open>run\<close>. A phase whose levels reach the sink pushes at least one unit
  (\<open>flow_phase_progress\<close>), so \<open>limit\<close> phases are enough.
\<close>

fun run_phases :: "nat \<Rightarrow> nat \<Rightarrow> nat \<Rightarrow> nat \<Rightarrow> flow_graph \<Rightarrow> nat \<Rightarrow> nat \<times> flow_graph" where
  "run_phases 0 source sink limit g flow = (flow, g)"
| "run_phases (Suc fuel) source sink limit g flow =
     (if flow < limit then
        let level = levels g source in
        if level ! sink = None then (flow, g)
        else let (flow', g') = flow_phase level source sink limit (g, replicate (length g) 0) flow in
          run_phases fuel source sink limit g' flow'
      else (flow, g))"

definition run_flow :: "nat \<Rightarrow> nat \<Rightarrow> nat \<Rightarrow> flow_graph \<Rightarrow> nat" where
  "run_flow source sink limit g = fst (run_phases (limit + 1) source sink limit g 0)"

section \<open>Disjoint paths\<close>

definition in_index :: "nat \<Rightarrow> nat" where
  "in_index n = n * 2"

definition out_index :: "nat \<Rightarrow> nat" where
  "out_index n = n * 2 + 1"

text \<open>The arcs of the network, in the order in which they are added.\<close>

definition node_arcs :: "planner_state \<Rightarrow> nat \<Rightarrow> nat \<Rightarrow> nat \<Rightarrow> (nat \<times> nat \<times> nat) list" where
  "node_arcs st source target limit =
     map (\<lambda>n. (in_index n, out_index n, if n = source \<or> n = target then limit else 1))
       (filter (\<lambda>n. s_node_allowed st ! n) [0..<length (nodes (s_fabric st))])"

definition edge_arc ::
  "planner_state \<Rightarrow> bool \<Rightarrow> endpoint_binding \<Rightarrow> endpoint_binding \<Rightarrow> nat \<Rightarrow> (nat \<times> nat \<times> nat) list" where
  "edge_arc st node_disjoint sb tb i =
     (if \<not> edge_statically_usable st i \<or> \<not> edge_carries_demand st i then []
      else let g = s_fabric st; e = edges g ! i in
        if \<not> binding_allows_edge g sb e \<or> \<not> binding_allows_edge g tb e then []
        else case (node_index g (e_from e), node_index g (e_to e)) of
          (Some a, Some b) \<Rightarrow>
            if \<not> s_node_allowed st ! a \<or> \<not> s_node_allowed st ! b then []
            else [(if node_disjoint then out_index a else a, if node_disjoint then in_index b else b, 1)]
        | _ \<Rightarrow> [])"

definition network_arcs ::
  "planner_state \<Rightarrow> nat \<Rightarrow> nat \<Rightarrow> bool \<Rightarrow> endpoint_binding \<Rightarrow> endpoint_binding \<Rightarrow> nat \<Rightarrow> (nat \<times> nat \<times> nat) list" where
  "network_arcs st source target node_disjoint sb tb limit =
     (if node_disjoint then node_arcs st source target limit else []) @
     concat (map (edge_arc st node_disjoint sb tb) [0..<length (edges (s_fabric st))])"

definition network :: "nat \<Rightarrow> (nat \<times> nat \<times> nat) list \<Rightarrow> flow_graph" where
  "network total_nodes arcs = fold (\<lambda>(a, b, c). add_arc a b c) arcs (replicate total_nodes [])"

definition max_disjoint_paths ::
  "planner_state \<Rightarrow> nat \<Rightarrow> nat \<Rightarrow> bool \<Rightarrow> endpoint_binding \<Rightarrow> endpoint_binding \<Rightarrow> nat \<Rightarrow> nat" where
  "max_disjoint_paths st source target node_disjoint sb tb limit =
     run_flow (if node_disjoint then out_index source else source)
       (if node_disjoint then in_index target else target) limit
       (network (length (nodes (s_fabric st)) * (if node_disjoint then 2 else 1))
          (network_arcs st source target node_disjoint sb tb limit))"

section \<open>Cuts\<close>

text \<open>
  What may flow out of a set of nodes. Pushing flow along a path to the sink lowers the capacity of
  every cut that the path leaves by exactly the amount pushed.
\<close>

definition out_weight :: "nat set \<Rightarrow> arc list \<Rightarrow> nat" where
  "out_weight S as = sum_list (map (\<lambda>a. if arc_to a \<in> S then 0 else arc_capacity a) as)"

definition cut_capacity :: "nat set \<Rightarrow> flow_graph \<Rightarrow> nat" where
  "cut_capacity S g = (\<Sum>n\<in>S. out_weight S (g ! n))"

text \<open>Every arc leads to a node, and its reverse arc leads back.\<close>

definition graph_wf :: "flow_graph \<Rightarrow> bool" where
  "graph_wf g \<longleftrightarrow> (\<forall>n<length g. \<forall>a\<in>set (g ! n). arc_to a < length g \<and>
     (arc_to a \<noteq> n \<longrightarrow> arc_reverse a < length (g ! arc_to a) \<and> arc_to (g ! arc_to a ! arc_reverse a) = n))"

lemma graph_wfD:
  assumes "graph_wf g" "n < length g" "i < length (g ! n)"
  shows "arc_to (g ! n ! i) < length g"
    "arc_to (g ! n ! i) \<noteq> n \<Longrightarrow> arc_reverse (g ! n ! i) < length (g ! arc_to (g ! n ! i)) \<and>
       arc_to (g ! arc_to (g ! n ! i) ! arc_reverse (g ! n ! i)) = n"
  using assms nth_mem [OF assms(3)] unfolding graph_wf_def by blast+

lemma sum_list_update_weight:
  fixes f :: "'a \<Rightarrow> nat"
  shows "i < length xs \<Longrightarrow> sum_list (map f (xs[i := y])) + f (xs ! i) = sum_list (map f xs) + f y"
  by (induction xs arbitrary: i) (auto split: nat.split)

lemma cut_update:
  assumes "finite S" "n < length g"
  shows "cut_capacity S (g[n := as]) + (if n \<in> S then out_weight S (g ! n) else 0) =
    cut_capacity S g + (if n \<in> S then out_weight S as else 0)"
proof (cases "n \<in> S")
  case True
  have "cut_capacity S (g[n := as]) = out_weight S as + (\<Sum>k\<in>S - {n}. out_weight S (g ! k))"
    unfolding cut_capacity_def using assms True by (simp add: sum.remove [of S n])
  moreover have "cut_capacity S g = out_weight S (g ! n) + (\<Sum>k\<in>S - {n}. out_weight S (g ! k))"
    unfolding cut_capacity_def using assms True by (simp add: sum.remove [of S n])
  ultimately show ?thesis using True by simp
next
  case False
  then have "\<And>k. k \<in> S \<Longrightarrow> g[n := as] ! k = g ! k" by (metis nth_list_update_neq)
  with False show ?thesis by (simp add: cut_capacity_def)
qed

text \<open>Replacing the capacity of one arc.\<close>

definition set_capacity :: "nat \<Rightarrow> nat \<Rightarrow> nat \<Rightarrow> flow_graph \<Rightarrow> flow_graph" where
  "set_capacity n i c g = g[n := (g ! n)[i := (g ! n ! i)\<lparr>arc_capacity := c\<rparr>]]"

lemma length_set_capacity [simp]: "length (set_capacity n i c g) = length g"
  by (simp add: set_capacity_def)

lemma nth_set_capacity:
  "set_capacity n i c g ! k =
     (if k = n \<and> n < length g then (g ! n)[i := (g ! n ! i)\<lparr>arc_capacity := c\<rparr>] else g ! k)"
  by (cases "n < length g") (auto simp: set_capacity_def list_update_beyond)

lemma length_nth_set_capacity [simp]: "length (set_capacity n i c g ! k) = length (g ! k)"
  by (simp add: nth_set_capacity)

lemma arcs_set_capacity [simp]:
  assumes "i < length (g ! n)" "j < length (g ! k)"
  shows "arc_to (set_capacity n i c g ! k ! j) = arc_to (g ! k ! j)"
    "arc_reverse (set_capacity n i c g ! k ! j) = arc_reverse (g ! k ! j)"
  using assms by (auto simp: nth_set_capacity nth_list_update)

lemma nth_set_capacity_neq [simp]: "k \<noteq> n \<Longrightarrow> set_capacity n i c g ! k = g ! k"
  by (simp add: nth_set_capacity)

lemma graph_wf_set_capacity:
  assumes "graph_wf g" "i < length (g ! n)"
  shows "graph_wf (set_capacity n i c g)"
  unfolding graph_wf_def
proof (intro allI impI ballI)
  fix k a
  assume k: "k < length (set_capacity n i c g)" and "a \<in> set (set_capacity n i c g ! k)"
  then obtain j where j: "j < length (g ! k)" "a = set_capacity n i c g ! k ! j"
    by (auto simp: in_set_conv_nth)
  have a: "arc_to a = arc_to (g ! k ! j)" "arc_reverse a = arc_reverse (g ! k ! j)"
    using j assms(2) by simp_all
  have k': "k < length g" using k by simp
  show "arc_to a < length (set_capacity n i c g) \<and> (arc_to a \<noteq> k \<longrightarrow>
      arc_reverse a < length (set_capacity n i c g ! arc_to a) \<and>
      arc_to (set_capacity n i c g ! arc_to a ! arc_reverse a) = k)"
    using graph_wfD [OF assms(1) k' j(1)] assms(2) by (simp add: a)
qed

lemma cut_set_capacity:
  assumes "finite S" "n < length g" "i < length (g ! n)"
  shows "cut_capacity S (set_capacity n i c g) + (if n \<in> S \<and> arc_to (g ! n ! i) \<notin> S then arc_capacity (g ! n ! i) else 0) =
    cut_capacity S g + (if n \<in> S \<and> arc_to (g ! n ! i) \<notin> S then c else 0)"
proof -
  let ?b = "(g ! n ! i)\<lparr>arc_capacity := c\<rparr>"
  have "out_weight S ((g ! n)[i := ?b]) + (if arc_to (g ! n ! i) \<in> S then 0 else arc_capacity (g ! n ! i)) =
      out_weight S (g ! n) + (if arc_to (g ! n ! i) \<in> S then 0 else c)"
    using sum_list_update_weight [OF assms(3), of "\<lambda>a. if arc_to a \<in> S then 0 else arc_capacity a" ?b]
    by (simp add: out_weight_def)
  then show ?thesis
    using cut_update [OF assms(1,2), of "(g ! n)[i := ?b]"] unfolding set_capacity_def by (auto split: if_splits)
qed

lemma push_flow_eq:
  "push_flow n i p g =
     (let a = g ! n ! i; g1 = set_capacity n i (arc_capacity a - p) g in
      set_capacity (arc_to a) (arc_reverse a) (arc_capacity (g1 ! arc_to a ! arc_reverse a) + p) g1)"
  by (simp add: push_flow_def set_capacity_def Let_def)

lemma push_flow_correct:
  assumes wf: "graph_wf g" and n: "n < length g" and i: "i < length (g ! n)"
    and m: "m = arc_to (g ! n ! i)" "m \<noteq> n" and p: "p \<le> arc_capacity (g ! n ! i)" and S: "finite S"
  shows "graph_wf (push_flow n i p g)" "length (push_flow n i p g) = length g"
    "length (push_flow n i p g ! k) = length (g ! k)" "k \<noteq> n \<Longrightarrow> k \<noteq> m \<Longrightarrow> push_flow n i p g ! k = g ! k"
    "cut_capacity S (push_flow n i p g) + (if n \<in> S then p else 0) = cut_capacity S g + (if m \<in> S then p else 0)"
proof -
  let ?j = "arc_reverse (g ! n ! i)" and ?g1 = "set_capacity n i (arc_capacity (g ! n ! i) - p) g"
  have m': "m < length g" and j: "?j < length (g ! m)" "arc_to (g ! m ! ?j) = n"
    using graph_wfD [OF wf n i] m by auto
  have eq: "push_flow n i p g = set_capacity m ?j (arc_capacity (?g1 ! m ! ?j) + p) ?g1"
    by (simp add: push_flow_eq Let_def m(1))
  show "graph_wf (push_flow n i p g)"
    unfolding eq by (intro graph_wf_set_capacity) (use wf i j in simp_all)
  show "length (push_flow n i p g) = length g" "length (push_flow n i p g ! k) = length (g ! k)"
    "k \<noteq> n \<Longrightarrow> k \<noteq> m \<Longrightarrow> push_flow n i p g ! k = g ! k" by (simp_all add: eq)
  have rev_arc: "?g1 ! m ! ?j = g ! m ! ?j" using m(2) by simp
  have one: "cut_capacity S ?g1 + (if n \<in> S \<and> m \<notin> S then p else 0) = cut_capacity S g"
    using cut_set_capacity [OF S n i, of "arc_capacity (g ! n ! i) - p"] p m(1) by (auto split: if_splits)
  have two: "cut_capacity S (push_flow n i p g) = cut_capacity S ?g1 + (if m \<in> S \<and> n \<notin> S then p else 0)"
    using cut_set_capacity [OF S, of m ?g1 ?j "arc_capacity (g ! m ! ?j) + p"] m' j rev_arc
    unfolding eq rev_arc by (auto split: if_splits)
  show "cut_capacity S (push_flow n i p g) + (if n \<in> S then p else 0) = cut_capacity S g + (if m \<in> S then p else 0)"
    using one two by (auto split: if_splits)
qed

section \<open>Augmenting\<close>

text \<open>
  What one call may do: it keeps the network well formed, touches no node above its own level,
  and lowers every cut around its node by what it pushes.
\<close>

definition augments ::
  "nat option list \<Rightarrow> nat \<Rightarrow> nat \<Rightarrow> nat \<Rightarrow> flow_graph \<times> nat list \<Rightarrow> nat \<times> flow_graph \<times> nat list \<Rightarrow> bool" where
  "augments level sink n limit s r \<longleftrightarrow>
     (case (s, r) of ((g, c), (p, g', c')) \<Rightarrow>
        p \<le> limit \<and> graph_wf g' \<and> length g' = length g \<and> length c' = length c \<and>
        (\<forall>k. length (g' ! k) = length (g ! k)) \<and> (p = 0 \<longrightarrow> g' = g) \<and>
        (\<forall>k d d'. level ! n = Some d \<longrightarrow> level ! k = Some d' \<longrightarrow> d' < d \<longrightarrow> g' ! k = g ! k \<and> c' ! k = c ! k) \<and>
        (\<forall>S. finite S \<longrightarrow> sink \<notin> S \<longrightarrow> cut_capacity S g' + (if n \<in> S then p else 0) = cut_capacity S g))"

lemma augments_none: "graph_wf g \<Longrightarrow> length c' = length c \<Longrightarrow>
    (\<forall>k d d'. level ! n = Some d \<longrightarrow> level ! k = Some d' \<longrightarrow> d' < d \<longrightarrow> c' ! k = c ! k) \<Longrightarrow>
    augments level sink n limit (g, c) (0, g, c')"
  by (simp add: augments_def)

lemma augments_pass:
  assumes "augments level sink n limit (g, c1) r" "length c1 = length c"
    "\<forall>k d d'. level ! n = Some d \<longrightarrow> level ! k = Some d' \<longrightarrow> d' < d \<longrightarrow> c1 ! k = c ! k"
  shows "augments level sink n limit (g, c) r"
  using assms by (cases r) (simp add: augments_def)

lemma augments_push:
  assumes rec: "augments level sink m (min limit (arc_capacity (g ! n ! i))) (g, c) (p, g1, c1)"
    and wf: "graph_wf g" and n: "n < length g" "level ! n = Some d" and i: "i < length (g ! n)"
    and m: "m = arc_to (g ! n ! i)" "level ! m = Some (Suc d)" and p: "0 < p"
  shows "augments level sink n limit (g, c) (p, push_flow n i p g1, c1)"
proof -
  note r = rec [unfolded augments_def prod.case]
  have same: "g1 ! n = g ! n" using r n(2) m(2) by (metis lessI)
  have ne: "m \<noteq> n" using n(2) m(2) by auto
  have push: "graph_wf g1" "n < length g1" "i < length (g1 ! n)" "m = arc_to (g1 ! n ! i)"
    "p \<le> arc_capacity (g1 ! n ! i)" using r same n(1) i m(1) by auto
  note q = push_flow_correct [OF push(1-4) ne push(5)]
  have above: "push_flow n i p g1 ! k = g ! k \<and> c1 ! k = c ! k" if "level ! k = Some d'" "d' < d" for k d'
  proof -
    have "k \<noteq> n" "k \<noteq> m" using that n(2) m(2) by auto
    moreover have "g1 ! k = g ! k \<and> c1 ! k = c ! k" using r that m(2) by (metis less_Suc_eq)
    ultimately show ?thesis using q(4) [OF finite.emptyI] by simp
  qed
  have cut: "cut_capacity S (push_flow n i p g1) + (if n \<in> S then p else 0) = cut_capacity S g"
    if "finite S" "sink \<notin> S" for S
    using q(5) [OF that(1)] r that by simp
  show ?thesis
    unfolding augments_def prod.case
    using r q(1-3) [OF finite.emptyI] p above cut n(2) by auto
qed

lemma augment_correct:
  "graph_wf g \<Longrightarrow> n < length g \<Longrightarrow> level ! n = Some d \<Longrightarrow>
     augments level sink n limit (g, c) (augment fuel level sink n limit (g, c))"
  "graph_wf g \<Longrightarrow> n < length g \<Longrightarrow> level ! n = Some d \<Longrightarrow> (\<forall>i\<in>set is. i < length (g ! n)) \<Longrightarrow>
     augments level sink n limit (g, c) (augment_arcs fuel level sink n limit is (g, c))"
proof (induction fuel level sink n limit "(g, c)" and fuel level sink n limit "is" "(g, c)"
    arbitrary: g c d and g c d rule: augment_augment_arcs.induct)
  case (1 level sink n limit)
  then show ?case by (simp add: augments_none)
next
  case (2 fuel level sink n limit)
  show ?case
  proof (cases "n = sink")
    case True
    then show ?thesis using 2 by (auto simp: augments_def)
  next
    case False
    with 2 show ?thesis by simp
  qed
next
  case (3 fuel level sink n limit)
  have "\<forall>k d d'. level ! n = Some d \<longrightarrow> level ! k = Some d' \<longrightarrow> d' < d \<longrightarrow> c[n := length (g ! n)] ! k = c ! k"
    by (metis nth_list_update_neq option.inject less_irrefl)
  with 3 show ?case by (simp add: augments_none)
next
  case (4 fuel level sink n limit i "is")
  let ?a = "g ! n ! i" and ?c = "c[n := i]"
  have i: "i < length (g ! n)" using 4 by simp
  have pass: "length ?c = length c"
    "\<forall>k d d'. level ! n = Some d \<longrightarrow> level ! k = Some d' \<longrightarrow> d' < d \<longrightarrow> ?c ! k = c ! k"
    by (simp, metis nth_list_update_neq option.inject less_irrefl)
  show ?case
  proof (cases "arc_capacity ?a = 0 \<or> level ! arc_to ?a \<noteq> map_option Suc (level ! n)")
    case True
    then have "augments level sink n limit (g, ?c) (augment_arcs fuel level sink n limit is (g, ?c))"
      using 4 by simp
    with True show ?thesis by (simp add: augments_pass [OF _ pass])
  next
    case False
    obtain p g1 c1 where run: "augment fuel level sink (arc_to ?a) (min limit (arc_capacity ?a)) (g, ?c) = (p, g1, c1)"
      by (metis prod_cases3)
    have m: "arc_to ?a < length g" "level ! arc_to ?a = Some (Suc d)"
      using graph_wfD(1) [OF 4(4,5) i] False 4(6) by auto
    have rec: "augments level sink (arc_to ?a) (min limit (arc_capacity ?a)) (g, ?c) (p, g1, c1)"
      using 4(2) [OF refl refl refl refl False 4(4) m] unfolding run .
    show ?thesis
    proof (cases "0 < p")
      case True
      have "augments level sink n limit (g, ?c) (p, push_flow n i p g1, c1)"
        by (rule augments_push [OF rec 4(4-6) i refl m(2) True])
      with False run True show ?thesis by (simp add: augments_pass [OF _ pass])
    next
      case none: False
      then have g1: "g1 = g" and c1: "length c1 = length ?c"
        "\<forall>k d d'. level ! n = Some d \<longrightarrow> level ! k = Some d' \<longrightarrow> d' < d \<longrightarrow> c1 ! k = ?c ! k"
        using rec m(2) 4(6) by (auto simp: augments_def)
      have "augments level sink n limit (g, c1) (augment_arcs fuel level sink n limit is (g, c1))"
        using 4(3) False run none g1 4(4-7) by simp
      then have "augments level sink n limit (g, ?c) (augment_arcs fuel level sink n limit is (g, c1))"
        by (rule augments_pass) (use c1 in simp_all)
      then have "augments level sink n limit (g, c) (augment_arcs fuel level sink n limit is (g, c1))"
        by (rule augments_pass) (use pass in simp_all)
      with False run none g1 show ?thesis by simp
    qed
  qed
qed

section \<open>A phase makes progress\<close>

text \<open>An arc that cannot carry flow in this phase, given which nodes are used up.\<close>

definition useless :: "nat option list \<Rightarrow> nat \<Rightarrow> flow_graph \<Rightarrow> nat list \<Rightarrow> nat \<Rightarrow> nat \<Rightarrow> bool" where
  "useless level sink g c n i \<longleftrightarrow>
     (let a = g ! n ! i in
      arc_capacity a = 0 \<or> level ! arc_to a \<noteq> map_option Suc (level ! n) \<or>
      arc_to a \<noteq> sink \<and> length (g ! arc_to a) \<le> c ! arc_to a)"

text \<open>All arcs before a cursor are useless.\<close>

definition cursors_ok :: "nat option list \<Rightarrow> nat \<Rightarrow> flow_graph \<Rightarrow> nat list \<Rightarrow> bool" where
  "cursors_ok level sink g c \<longleftrightarrow>
     length c = length g \<and> (\<forall>n<length g. c ! n \<le> length (g ! n) \<and>
       (\<forall>i<length (g ! n). i < c ! n \<longrightarrow> useless level sink g c n i))"

definition exhausts :: "nat option list \<Rightarrow> nat \<Rightarrow> flow_graph \<Rightarrow> nat \<Rightarrow> nat list \<Rightarrow> nat list \<Rightarrow> bool" where
  "exhausts level sink g n c c' \<longleftrightarrow>
     cursors_ok level sink g c' \<and> (\<forall>k<length g. c ! k \<le> c' ! k) \<and> length (g ! n) \<le> c' ! n"

lemma useless_mono:
  "useless level sink g c n i \<Longrightarrow> \<forall>k<length g. c ! k \<le> c' ! k \<Longrightarrow> arc_to (g ! n ! i) < length g \<Longrightarrow>
   useless level sink g c' n i"
  by (auto simp: useless_def Let_def intro: order_trans)

lemma cursors_ok_advance:
  assumes wf: "graph_wf g" and ok: "cursors_ok level sink g c" and n: "n < length g" and k: "c ! n \<le> k" "k \<le> length (g ! n)"
    and arcs: "\<forall>i<length (g ! n). i < k \<longrightarrow> useless level sink g c n i"
  shows "cursors_ok level sink g (c[n := k])" "\<forall>j<length g. c ! j \<le> c[n := k] ! j"
proof -
  have len: "length c = length g" using ok by (simp add: cursors_ok_def)
  show mono: "\<forall>j<length g. c ! j \<le> c[n := k] ! j" using k len n by (simp add: nth_list_update)
  have "useless level sink g (c[n := k]) j i" if "j < length g" "i < length (g ! j)" "i < c[n := k] ! j" for j i
  proof (rule useless_mono [OF _ mono graph_wfD(1) [OF wf that(1,2)]])
    show "useless level sink g c j i"
      using that arcs ok n len by (cases "j = n") (auto simp: cursors_ok_def)
  qed
  moreover have "c[n := k] ! j \<le> length (g ! j)" if "j < length g" for j
    using that ok k len by (cases "j = n") (auto simp: cursors_ok_def)
  ultimately show "cursors_ok level sink g (c[n := k])" using len by (simp add: cursors_ok_def)
qed

lemma exhausts_trans:
  "\<forall>k<length g. c ! k \<le> c1 ! k \<Longrightarrow> exhausts level sink g n c1 c' \<Longrightarrow> exhausts level sink g n c c'"
  by (auto simp: exhausts_def intro: order_trans)

lemma augment_exhausts:
  "augment fuel level sink n limit (g, c) = (0, g', c') \<Longrightarrow> graph_wf g \<Longrightarrow> n < length g \<Longrightarrow> level ! n = Some d \<Longrightarrow>
     0 < limit \<Longrightarrow> (\<forall>k<length g. \<forall>e. level ! k = Some e \<longrightarrow> e \<le> h) \<Longrightarrow> h < d + fuel \<Longrightarrow> cursors_ok level sink g c \<Longrightarrow>
     exhausts level sink g n c c'"
  "augment_arcs fuel level sink n limit is (g, c) = (0, g', c') \<Longrightarrow> graph_wf g \<Longrightarrow> n < length g \<Longrightarrow> level ! n = Some d \<Longrightarrow>
     0 < limit \<Longrightarrow> (\<forall>k<length g. \<forall>e. level ! k = Some e \<longrightarrow> e \<le> h) \<Longrightarrow> h \<le> d + fuel \<Longrightarrow> cursors_ok level sink g c \<Longrightarrow>
     k \<le> length (g ! n) \<Longrightarrow> is = [k..<length (g ! n)] \<Longrightarrow> c ! n \<le> k \<Longrightarrow>
     (\<forall>i<length (g ! n). i < k \<longrightarrow> useless level sink g c n i) \<Longrightarrow> exhausts level sink g n c c'"
proof (induction fuel level sink n limit "(g, c)" and fuel level sink n limit "is" "(g, c)"
    arbitrary: c d g' c' and c d k g' c' rule: augment_augment_arcs.induct)
  case (1 level sink n limit)
  then show ?case by force
next
  case (2 fuel level sink n limit)
  have ne: "n \<noteq> sink" using 2(2,6) by (auto split: if_splits)
  have le: "c ! n \<le> length (g ! n)" using 2(4,9) by (simp add: cursors_ok_def)
  show ?case
    by (rule 2(1) [OF ne _ 2(3-7), of g' c' "c ! n"])
      (use 2(2,4,8,9) ne le in \<open>simp_all add: cursors_ok_def\<close>)
next
  case (3 fuel level sink n limit)
  have c': "c' = c[n := length (g ! n)]" using 3(1) by auto
  have len: "length c = length g" using 3(8) by (simp add: cursors_ok_def)
  have "\<forall>i<length (g ! n). i < length (g ! n) \<longrightarrow> useless level sink g c n i" "c ! n \<le> length (g ! n)"
    using 3(9-12) by (auto simp: eq_commute [of "[]"])
  from cursors_ok_advance [OF 3(2,8,3) this(2) order_refl this(1)] show ?case
    using 3(3) len by (simp add: exhausts_def c')
next
  case (4 fuel level sink n limit i "is")
  let ?a = "g ! n ! i" and ?c = "c[n := i]"
  have len: "length c = length g" using 4(11) by (simp add: cursors_ok_def)
  have ik: "i = k" "is = [Suc k..<length (g ! n)]" "k < length (g ! n)"
    using upt_eq_Cons_conv [THEN iffD1, OF 4(13) [symmetric]] by auto
  note here = cursors_ok_advance [OF 4(5,11,6) 4(14) 4(12) 4(15), folded ik(1)]
  have at: "?c ! n = i" using 4(6) len by simp
  have before: "\<forall>j<length (g ! n). j < i \<longrightarrow> useless level sink g ?c n j"
    using here(1) 4(6) at by (simp add: cursors_ok_def)
  show ?case
  proof (cases "arc_capacity ?a = 0 \<or> level ! arc_to ?a \<noteq> map_option Suc (level ! n)")
    case True
    then have u: "useless level sink g ?c n i" by (auto simp: useless_def Let_def)
    have "exhausts level sink g n ?c c'"
      by (rule 4(1) [OF refl refl refl refl True _ 4(5-10) here(1), of g' c' "Suc k"])
        (use 4(4) True ik at before u in \<open>auto simp: less_Suc_eq\<close>)
    then show ?thesis by (rule exhausts_trans [OF here(2)])
  next
    case False
    obtain p g1 c1 where run: "augment fuel level sink (arc_to ?a) (min limit (arc_capacity ?a)) (g, ?c) = (p, g1, c1)"
      by (metis prod_cases3)
    have m: "arc_to ?a < length g" "level ! arc_to ?a = Some (Suc d)"
      using graph_wfD(1) [OF 4(5,6)] ik False 4(7) by auto
    have p: "p = 0" using 4(4) False run by (auto split: if_splits)
    have aug: "augments level sink (arc_to ?a) (min limit (arc_capacity ?a)) (g, ?c) (p, g1, c1)"
      using augment_correct(1) [OF 4(5) m(1,2), of sink "min limit (arc_capacity ?a)" ?c fuel] run by simp
    have g1: "g1 = g" and c1n: "c1 ! n = i"
      using aug p m(2) 4(7) at by (auto simp: augments_def)
    have pos: "0 < min limit (arc_capacity ?a)" "h < Suc d + fuel" using False 4(8,10) by auto
    have ex: "exhausts level sink g (arc_to ?a) ?c c1"
      by (rule 4(2) [OF refl refl refl refl False _ 4(5) m pos(1) 4(9) pos(2) here(1)]) (use run p g1 in simp)
    have sink: "arc_to ?a \<noteq> sink"
    proof
      assume "arc_to ?a = sink"
      moreover obtain f where "fuel = Suc f" using 4(9,10) m by (cases fuel) force+
      ultimately show False using run p pos(1) by simp
    qed
    have c1: "cursors_ok level sink g c1" "\<forall>j<length g. ?c ! j \<le> c1 ! j" using ex by (simp_all add: exhausts_def)
    have u: "useless level sink g c1 n i" using ex sink by (simp add: useless_def exhausts_def Let_def)
    have us: "\<forall>j<length (g ! n). j < Suc k \<longrightarrow> useless level sink g c1 n j"
      using before u useless_mono [OF _ c1(2) graph_wfD(1) [OF 4(5,6)]] ik by (auto simp: less_Suc_eq)
    have "exhausts level sink g n c1 c'"
      by (rule 4(3) [OF refl refl refl refl False run [symmetric, unfolded g1 p] refl refl _ _ 4(5-10) c1(1), of g' c' "Suc k"])
        (use 4(4) False run p g1 ik us c1n in simp_all)
    then have "exhausts level sink g n ?c c'" by (rule exhausts_trans [OF c1(2)])
    then show ?thesis by (rule exhausts_trans [OF here(2)])
  qed
qed

section \<open>Levels\<close>

text \<open>
  The levels under construction: the source is at level 0, every other levelled node is one level
  below a node with a positive arc to it, and the nodes outside the queue have been scanned.
\<close>

definition level_edge :: "flow_graph \<Rightarrow> nat \<Rightarrow> nat \<Rightarrow> bool" where
  "level_edge g n m \<longleftrightarrow> n < length g \<and> (\<exists>i<length (g ! n). arc_to (g ! n ! i) = m \<and> 0 < arc_capacity (g ! n ! i))"

definition levels_ok :: "flow_graph \<Rightarrow> nat \<Rightarrow> nat option list \<Rightarrow> bool" where
  "levels_ok g source level \<longleftrightarrow>
     length level = length g \<and> level ! source = Some 0 \<and>
     (\<forall>m<length g. \<forall>d. level ! m = Some d \<longrightarrow>
        m = source \<or> (\<exists>n e. d = Suc e \<and> level ! n = Some e \<and> level_edge g n m))"

definition scanned :: "flow_graph \<Rightarrow> nat option list \<Rightarrow> nat \<Rightarrow> bool" where
  "scanned g level n \<longleftrightarrow> (\<forall>m<length g. level_edge g n m \<longrightarrow> level ! m \<noteq> None)"

definition levels_inv :: "flow_graph \<Rightarrow> nat \<Rightarrow> nat option list \<Rightarrow> nat set \<Rightarrow> bool" where
  "levels_inv g source level open_nodes \<longleftrightarrow>
     levels_ok g source level \<and> (\<forall>n\<in>open_nodes. n < length g \<and> level ! n \<noteq> None) \<and>
     (\<forall>n<length g. level ! n \<noteq> None \<longrightarrow> n \<in> open_nodes \<or> scanned g level n)"

lemma levels_ok_set:
  assumes ok: "levels_ok g source level" and m: "level ! m = None" "m < length g"
    and n: "level ! n = Some d" "level_edge g n m"
  shows "levels_ok g source (level[m := Some (Suc d)])"
proof -
  let ?l = "level[m := Some (Suc d)]"
  have len: "length level = length g" using ok by (simp add: levels_ok_def)
  have keep: "?l ! k = Some e" if "level ! k = Some e" for k e using that m by (metis nth_list_update_neq option.distinct(1))
  have "k = source \<or> (\<exists>n e'. e = Suc e' \<and> ?l ! n = Some e' \<and> level_edge g n k)"
    if "k < length g" "?l ! k = Some e" for k e
  proof (cases "k = m")
    case True
    then show ?thesis using that n keep m len by auto
  next
    case False
    then have "level ! k = Some e" using that by simp
    with ok that(1) show ?thesis using keep unfolding levels_ok_def by blast
  qed
  then show ?thesis using ok keep len by (simp add: levels_ok_def)
qed

lemma level_arcs_inv:
  assumes "level_arcs d as level queue = (level', queue')" "set as \<subseteq> set (g ! n)" "n < length g"
    and "levels_inv g source level (insert n (set queue))" "level ! n = Some d"
  shows "levels_inv g source level' (insert n (set queue')) \<and> level' ! n = Some d \<and>
    (\<forall>m. level ! m \<noteq> None \<longrightarrow> level' ! m \<noteq> None) \<and>
    (\<forall>a\<in>set as. 0 < arc_capacity a \<longrightarrow> arc_to a < length g \<longrightarrow> level' ! arc_to a \<noteq> None)"
  using assms
proof (induction as arbitrary: level queue)
  case (Cons a as)
  have len: "length level = length g" using Cons.prems(4) by (simp add: levels_inv_def levels_ok_def)
  show ?case
  proof (cases "0 < arc_capacity a \<and> unlevelled level (arc_to a)")
    case True
    let ?m = "arc_to a" let ?l = "level[arc_to a := Some (d + 1)]"
    have m: "level ! ?m = None" "?m < length g" using True len by (simp_all add: unlevelled_def)
    have e: "level_edge g n ?m"
      using Cons.prems(2,3) True by (auto simp: level_edge_def in_set_conv_nth)
    have ok: "levels_ok g source ?l"
      using levels_ok_set [OF _ m Cons.prems(5) e] Cons.prems(4) by (simp add: levels_inv_def)
    have keep: "?l ! k \<noteq> None" if "level ! k \<noteq> None" for k using that m by (metis nth_list_update_neq)
    have at: "?l ! ?m = Some (d + 1)" using m len by simp
    have other: "?l ! k = level ! k" if "k \<noteq> ?m" for k using that by simp
    have inv: "levels_inv g source ?l (insert n (set (queue @ [?m])))"
      using Cons.prems(4) ok keep at m(2) other unfolding levels_inv_def scanned_def by (auto 0 4)
    have n: "?l ! n = Some d" using Cons.prems(5) m by (metis nth_list_update_neq option.distinct(1))
    have run: "level_arcs d as ?l (queue @ [?m]) = (level', queue')" using Cons.prems(1) True by simp
    have "set as \<subseteq> set (g ! n)" using Cons.prems(2) by simp
    from Cons.IH [OF run this Cons.prems(3) inv n] keep at show ?thesis by auto
  next
    case False
    then have run: "level_arcs d as level queue = (level', queue')"
      and a: "0 < arc_capacity a \<longrightarrow> arc_to a < length g \<longrightarrow> level ! arc_to a \<noteq> None"
      using Cons.prems(1) len by (auto simp: unlevelled_def)
    have "set as \<subseteq> set (g ! n)" using Cons.prems(2) by simp
    from Cons.IH [OF run this Cons.prems(3-5)] a show ?thesis by auto
  qed
qed simp

lemma level_loop_inv:
  "levels_inv g source level (set queue) \<Longrightarrow> levels_inv g source (level_loop g level queue) {}"
proof (induction g level queue rule: level_loop.induct)
  case (2 g level n queue)
  obtain level' queue' where run: "level_arcs (the (level ! n)) (g ! n) level queue = (level', queue')" by fastforce
  have n: "n < length g" "level ! n = Some (the (level ! n))" using 2(2) by (auto simp: levels_inv_def)
  note r = level_arcs_inv [OF run order_refl n(1) _ n(2), of source]
  then have inv: "levels_inv g source level' (insert n (set queue'))" using 2(2) by simp
  have "scanned g level' n" using r 2(2) by (auto simp: scanned_def level_edge_def)
  with inv have "levels_inv g source level' (set queue')" by (auto simp: levels_inv_def)
  with 2(1) [OF run [symmetric]] run show ?case by simp
qed simp

lemma levels_correct:
  assumes "source < length g"
  shows "levels_ok g source (levels g source)" "n < length g \<Longrightarrow> levels g source ! n \<noteq> None \<Longrightarrow> scanned g (levels g source) n"
proof -
  let ?l = "(replicate (length g) None)[source := Some 0]"
  have "?l ! n = (if n = source then Some 0 else None)" if "n < length g" for n using that assms by simp
  then have "n = source" if "n < length g" "?l ! n = Some d" for n d
    using that by (metis option.distinct(1))
  then have "levels_inv g source ?l (set [source])" using assms by (auto simp: levels_inv_def levels_ok_def)
  from level_loop_inv [OF this] show "levels_ok g source (levels g source)"
    "n < length g \<Longrightarrow> levels g source ! n \<noteq> None \<Longrightarrow> scanned g (levels g source) n"
    by (auto simp: levels_inv_def levels_def)
qed

text \<open>A node from which the sink is reached along the levels is not used up.\<close>

lemma levels_alive:
  assumes ok: "levels_ok g source level" and cur: "cursors_ok level sink g c" and ne: "source \<noteq> sink"
  shows "level ! m = Some d \<Longrightarrow> m < length g \<Longrightarrow> m = sink \<or> c ! m < length (g ! m) \<Longrightarrow> c ! source < length (g ! source)"
proof (induction d arbitrary: m rule: less_induct)
  case (less d)
  show ?case
  proof (cases "m = source")
    case True
    with less.prems(3) ne show ?thesis by simp
  next
    case False
    then obtain n e where n: "d = Suc e" "level ! n = Some e" "level_edge g n m"
      using ok less.prems(1,2) unfolding levels_ok_def by blast
    then obtain i where i: "n < length g" "i < length (g ! n)" "arc_to (g ! n ! i) = m" "0 < arc_capacity (g ! n ! i)"
      by (auto simp: level_edge_def)
    have "\<not> useless level sink g c n i" using i n less.prems by (auto simp: useless_def Let_def)
    then have "\<not> i < c ! n" using cur i by (auto simp: cursors_ok_def)
    then have "c ! n < length (g ! n)" using i(2) by simp
    with less.IH [of e n] n i show ?thesis by simp
  qed
qed

section \<open>The flow and the smallest cut\<close>

lemma level_height_bound:
  assumes "level ! k = Some d" "k < length level"
  shows "d \<le> level_height level"
proof -
  have "Some d \<in> set xs \<or> d \<le> n \<Longrightarrow> d \<le> fold (\<lambda>x n. case x of None \<Rightarrow> n | Some d \<Rightarrow> max d n) xs n" for xs n
  proof (induction xs arbitrary: n)
    case (Cons x xs)
    from Cons.IH [of "case x of None \<Rightarrow> n | Some d \<Rightarrow> max d n"] Cons.prems show ?case
      by (cases x) (auto simp: le_max_iff_disj)
  qed simp
  moreover have "Some d \<in> set level" using assms by (metis nth_mem)
  ultimately show ?thesis by (simp add: level_height_def)
qed

text \<open>What a run of augmentations does to the network and the flow.\<close>

definition flows :: "nat \<Rightarrow> nat \<Rightarrow> nat \<Rightarrow> flow_graph \<times> nat \<Rightarrow> flow_graph \<times> nat \<Rightarrow> bool" where
  "flows source sink limit s s' \<longleftrightarrow>
     (case (s, s') of ((g, f), (g', f')) \<Rightarrow>
        graph_wf g' \<and> length g' = length g \<and> f \<le> f' \<and> (f \<le> limit \<longrightarrow> f' \<le> limit) \<and>
        (\<forall>S. finite S \<longrightarrow> source \<in> S \<longrightarrow> sink \<notin> S \<longrightarrow> cut_capacity S g' + f' = cut_capacity S g + f))"

lemma flows_trans: "flows source sink limit a b \<Longrightarrow> flows source sink limit b c \<Longrightarrow> flows source sink limit a c"
  by (cases a; cases b; cases c) (auto simp: flows_def)

lemma flow_phase_flows:
  "graph_wf (fst s) \<Longrightarrow> source < length (fst s) \<Longrightarrow> level ! source = Some d \<Longrightarrow>
   flow_phase level source sink limit s f = (f', g') \<Longrightarrow> flows source sink limit (fst s, f) (g', f')"
proof (induction level source sink limit s f rule: flow_phase.induct)
  case (1 level source sink limit s f)
  show ?case
  proof (cases "f < limit")
    case True
    obtain g c where s: "s = (g, c)" by fastforce
    obtain p g1 c1 where run: "augment (level_height level + 1) level sink source (limit - f) (g, c) = (p, g1, c1)"
      by (metis prod_cases3)
    have aug: "augments level sink source (limit - f) (g, c) (p, g1, c1)"
      using augment_correct(1) [of g source level d sink "limit - f" c "level_height level + 1"] 1(2-4) run s by simp
    then have step: "flows source sink limit (g, f) (g1, f + p)" and wf: "graph_wf g1" "source < length g1"
      using True 1(3) s by (auto simp: augments_def flows_def)
    show ?thesis
    proof (cases "p = 0")
      case True
      with 1(5) \<open>f < limit\<close> run s step show ?thesis by (simp add: flow_phase.simps)
    next
      case False
      have "flow_phase level source sink limit (g1, c1) (f + p) = (f', g')"
        using 1(5) \<open>f < limit\<close> run s False by (subst (asm) flow_phase.simps) simp
      from 1(1) [OF True run [folded s, symmetric] refl False] this wf 1(4)
      have "flows source sink limit (g1, f + p) (g', f')" by simp
      with step s show ?thesis by (auto intro: flows_trans)
    qed
  next
    case False
    then show ?thesis using 1(2,5) by (simp add: flow_phase.simps [of level source sink limit s f] flows_def)
  qed
qed

text \<open>A phase whose levels reach the sink pushes at least one unit, so \<open>limit\<close> phases are enough.\<close>

lemma flow_phase_progress:
  assumes wf: "graph_wf g" and s: "source < length g" "source \<noteq> sink" "sink < length g" and f: "f < limit"
    and level: "level = levels g source" "level ! sink \<noteq> None"
    and run: "flow_phase level source sink limit (g, replicate (length g) 0) f = (f', g')"
  shows "f < f'"
proof -
  note ok = levels_correct(1) [OF s(1), folded level(1)]
  have len: "length level = length g" "level ! source = Some 0" using ok by (simp_all add: levels_ok_def)
  let ?h = "level_height level"
  have h: "\<forall>k<length g. \<forall>e. level ! k = Some e \<longrightarrow> e \<le> ?h" using level_height_bound len(1) by simp
  obtain p g1 c1 where aug: "augment (?h + 1) level sink source (limit - f) (g, replicate (length g) 0) = (p, g1, c1)"
    by (metis prod_cases3)
  have zero: "cursors_ok level sink g (replicate (length g) 0)" by (simp add: cursors_ok_def)
  have "p \<noteq> 0"
  proof
    assume "p = 0"
    then have ex: "exhausts level sink g source (replicate (length g) 0) c1"
      using augment_exhausts(1) [OF aug [unfolded \<open>p = 0\<close>] wf s(1) len(2) _ h _ zero] f by simp
    obtain d where "level ! sink = Some d" using level(2) by auto
    from levels_alive [OF ok _ s(2) this s(3), of c1] ex show False by (simp add: exhausts_def)
  qed
  moreover have "augments level sink source (limit - f) (g, replicate (length g) 0) (p, g1, c1)"
    using augment_correct(1) [OF wf s(1) len(2), of sink "limit - f" "replicate (length g) 0" "?h + 1"] aug by simp
  moreover have "flow_phase level source sink limit (g1, c1) (f + p) = (f', g')"
    using run f aug \<open>p \<noteq> 0\<close> by (subst (asm) flow_phase.simps) simp
  ultimately show ?thesis
    using flow_phase_flows [of "(g1, c1)" source level 0 sink limit "f + p" f' g'] s(1) len(2)
    by (auto simp: augments_def flows_def)
qed

lemma run_phases_correct:
  "graph_wf g \<Longrightarrow> source < length g \<Longrightarrow> source \<noteq> sink \<Longrightarrow> sink < length g \<Longrightarrow>
   run_phases fuel source sink limit g f = (f', g') \<Longrightarrow>
   flows source sink limit (g, f) (g', f') \<and>
   (limit < f + fuel \<longrightarrow> f' < limit \<longrightarrow> levels g' source ! sink = None)"
proof (induction fuel source sink limit g f rule: run_phases.induct)
  case (2 fuel source sink limit g f)
  let ?l = "levels g source"
  show ?case
  proof (cases "f < limit \<and> ?l ! sink \<noteq> None")
    case True
    obtain f1 g1 where ph: "flow_phase ?l source sink limit (g, replicate (length g) 0) f = (f1, g1)" by fastforce
    have s: "?l ! source = Some 0" using levels_correct(1) [OF 2(3)] by (simp add: levels_ok_def)
    have fl: "flows source sink limit (g, f) (g1, f1)" using flow_phase_flows [OF _ _ s ph] 2(2,3) by simp
    have lt: "f < f1" using flow_phase_progress [OF 2(2-5) _ refl _ ph] True by simp
    have "run_phases fuel source sink limit g1 f1 = (f', g')" using 2(6) True ph by simp
    with 2(1) [OF _ refl _ ph [symmetric] refl] True fl 2(2-5)
    have r: "flows source sink limit (g1, f1) (g', f') \<and> (limit < f1 + fuel \<longrightarrow> f' < limit \<longrightarrow> levels g' source ! sink = None)"
      by (simp add: flows_def)
    with lt flows_trans [OF fl] show ?thesis by auto
  next
    case False
    then have "f' = f" "g' = g" using 2(6) by (auto split: if_splits)
    with False 2(2) show ?thesis by (auto simp: flows_def)
  qed
qed (simp add: flows_def)

lemma run_flow_cut:
  assumes "graph_wf g" "source < length g" "source \<noteq> sink" "sink < length g"
    and "run_flow source sink limit g < limit"
  shows "\<exists>S \<subseteq> {..<length g}. source \<in> S \<and> sink \<notin> S \<and> cut_capacity S g = run_flow source sink limit g"
proof -
  obtain f g' where run: "run_phases (limit + 1) source sink limit g 0 = (f, g')" by fastforce
  note r = run_phases_correct [OF assms(1-4) run]
  have f: "run_flow source sink limit g = f" unfolding run_flow_def run by simp
  let ?l = "levels g' source" let ?S = "{n. n < length g' \<and> levels g' source ! n \<noteq> None}"
  have g': "length g' = length g" "graph_wf g'" using r by (simp_all add: flows_def)
  have none: "?l ! sink = None" using r assms(5) f by simp
  have s: "source < length g'" using g' assms(2) by simp
  have src: "?l ! source = Some 0" using levels_correct(1) [OF s] by (simp add: levels_ok_def)
  have "out_weight ?S (g' ! n) = 0" if "n \<in> ?S" for n
  proof -
    have "(if arc_to a \<in> ?S then 0 else arc_capacity a) = 0" if a: "a \<in> set (g' ! n)" for a
    proof -
      obtain i where i: "i < length (g' ! n)" "a = g' ! n ! i" using a by (auto simp: in_set_conv_nth)
      have "arc_to a < length g'" using graph_wfD(1) [OF g'(2) _ i(1)] \<open>n \<in> ?S\<close> i(2) by simp
      moreover have "scanned g' ?l n" using levels_correct(2) [OF s] \<open>n \<in> ?S\<close> by blast
      ultimately show ?thesis using i \<open>n \<in> ?S\<close> by (auto simp: scanned_def level_edge_def)
    qed
    then show ?thesis by (simp add: out_weight_def sum_list_eq_0_iff)
  qed
  then have "cut_capacity ?S g' = 0" by (simp add: cut_capacity_def)
  moreover have "cut_capacity ?S g' + f = cut_capacity ?S g" using r none src s by (simp add: flows_def)
  ultimately show ?thesis using none src s g' f by (intro exI [of _ ?S]) auto
qed

section \<open>The network of a logical edge\<close>

lemma out_weight_append: "out_weight S (as @ bs) = out_weight S as + out_weight S bs"
  by (simp add: out_weight_def)

lemma add_arc_correct:
  assumes wf: "graph_wf g" and t: "t < length g" and h: "h < length g"
  shows "length (add_arc t h c g) = length g" "graph_wf (add_arc t h c g)"
    "finite S \<Longrightarrow> cut_capacity S (add_arc t h c g) = cut_capacity S g + (if t \<in> S \<and> h \<notin> S then c else 0)"
proof -
  define f where "f = \<lparr>arc_to = h, arc_capacity = c, arc_reverse = length (g ! h)\<rparr>"
  define g1 where "g1 = g[t := g ! t @ [f]]"
  define r where "r = \<lparr>arc_to = t, arc_capacity = 0, arc_reverse = length (g ! t)\<rparr>"
  have eq: "add_arc t h c g = g1[h := g1 ! h @ [r]]" using t by (simp add: add_arc_def Let_def f_def g1_def r_def)
  have len: "length g1 = length g" by (simp add: g1_def)
  show total: "length (add_arc t h c g) = length g" by (simp add: eq len)
  have new: "add_arc t h c g ! k = g ! k @ (if k = t then [f] else []) @ (if k = h then [r] else [])"
    if "k < length g" for k
    unfolding eq using that t h by (cases "k = t"; cases "k = h") (simp_all add: g1_def)
  show "graph_wf (add_arc t h c g)"
    unfolding graph_wf_def
  proof (intro allI impI ballI)
    fix k a assume k: "k < length (add_arc t h c g)" and a: "a \<in> set (add_arc t h c g ! k)"
    have k': "k < length g" using k by (simp add: eq len)
    consider (old) "a \<in> set (g ! k)" | (forward) "a = f" "k = t" | (backward) "a = r" "k = h"
      using a k' by (auto simp: new split: if_splits)
    then show "arc_to a < length (add_arc t h c g) \<and> (arc_to a \<noteq> k \<longrightarrow>
        arc_reverse a < length (add_arc t h c g ! arc_to a) \<and> arc_to (add_arc t h c g ! arc_to a ! arc_reverse a) = k)"
    proof cases
      case old
      then have "arc_to a < length g" "arc_to a \<noteq> k \<longrightarrow> arc_reverse a < length (g ! arc_to a) \<and>
          arc_to (g ! arc_to a ! arc_reverse a) = k"
        using wf k' unfolding graph_wf_def by blast+
      then show ?thesis by (auto simp: new total nth_append)
    next
      case forward
      then show ?thesis using h t by (auto simp: new f_def r_def total)
    next
      case backward
      then show ?thesis using h t by (auto simp: new f_def r_def total)
    qed
  qed
  show "cut_capacity S (add_arc t h c g) = cut_capacity S g + (if t \<in> S \<and> h \<notin> S then c else 0)" if S: "finite S"
  proof -
    have "cut_capacity S g1 = cut_capacity S g + (if t \<in> S \<and> h \<notin> S then c else 0)"
      using cut_update [OF S t, of "g ! t @ [f]"]
      by (auto simp: g1_def f_def out_weight_append out_weight_def split: if_splits)
    moreover have "cut_capacity S (add_arc t h c g) = cut_capacity S g1"
      using cut_update [OF S, of h g1 "g1 ! h @ [r]"] h
      by (auto simp: eq len r_def out_weight_append out_weight_def split: if_splits)
    ultimately show ?thesis by simp
  qed
qed

lemma network_correct:
  assumes "\<forall>(a, b, c)\<in>set arcs. a < N \<and> b < N"
  shows "length (network N arcs) = N" "graph_wf (network N arcs)"
    "S \<subseteq> {..<N} \<Longrightarrow> cut_capacity S (network N arcs) =
       (\<Sum>(a, b, c)\<leftarrow>arcs. if a \<in> S \<and> b \<notin> S then c else 0)"
proof -
  have ind: "length (fold (\<lambda>(a, b, c). add_arc a b c) xs g) = length g \<and>
      graph_wf (fold (\<lambda>(a, b, c). add_arc a b c) xs g) \<and>
      (finite S \<longrightarrow> cut_capacity S (fold (\<lambda>(a, b, c). add_arc a b c) xs g) =
         cut_capacity S g + (\<Sum>(a, b, c)\<leftarrow>xs. if a \<in> S \<and> b \<notin> S then c else 0))"
    if "\<forall>(a, b, c)\<in>set xs. a < length g \<and> b < length g" "graph_wf g" for xs g
    using that
  proof (induction xs arbitrary: g)
    case (Cons x xs)
    obtain a b c where x: "x = (a, b, c)" by (metis prod_cases3)
    have ab: "a < length g" "b < length g" using Cons.prems x by auto
    note one = add_arc_correct [OF Cons.prems(2) ab]
    from Cons.IH [of "add_arc a b c g"] Cons.prems x one show ?case by simp
  qed simp
  have wf: "graph_wf (replicate N [])" by (simp add: graph_wf_def)
  note all = ind [of arcs "replicate N []", unfolded length_replicate, OF assms wf]
  then show "length (network N arcs) = N" "graph_wf (network N arcs)" by (simp_all add: network_def)
  assume S: "S \<subseteq> {..<N}"
  then have "cut_capacity S (replicate N []) = 0"
    unfolding cut_capacity_def by (intro sum.neutral) (auto simp: out_weight_def)
  with all finite_subset [OF S] show "cut_capacity S (network N arcs) =
      (\<Sum>(a, b, c)\<leftarrow>arcs. if a \<in> S \<and> b \<notin> S then c else 0)" by (simp add: network_def)
qed

section \<open>The certificate\<close>

lemma node_index_iff:
  "fabric_wf g \<Longrightarrow> node_index g k = Some n \<longleftrightarrow> n < length (nodes g) \<and> n_id (nodes g ! n) = k"
  using node_rows.index_iff [OF fabric_wfD(3)] by (simp add: node_index_def)

lemma disjoint_family_card:
  fixes k :: nat
  assumes "finite U" "\<And>i. i < k \<Longrightarrow> X i \<noteq> {} \<and> X i \<subseteq> U"
    and "\<And>i j. i < k \<Longrightarrow> j < k \<Longrightarrow> i \<noteq> j \<Longrightarrow> X i \<inter> X j = {}"
  shows "k \<le> card U"
proof -
  have "\<forall>i\<in>{..<k}. \<exists>x. x \<in> X i" using assms(2) by auto
  from bchoice [OF this] obtain f where f: "\<And>i. i < k \<Longrightarrow> f i \<in> X i" by auto
  have "inj_on f {..<k}" by (rule inj_onI) (use f assms(3) in \<open>metis disjoint_iff lessThan_iff\<close>)
  moreover have "f ` {..<k} \<subseteq> U" using f assms(2) by fastforce
  ultimately have "card {..<k} \<le> card U" using card_inj_on_le assms(1) by blast
  then show ?thesis by simp
qed

lemma card_positive_le_sum:
  fixes f :: "'a \<Rightarrow> nat"
  assumes "finite A"
  shows "card {i\<in>A. 0 < f i} \<le> sum f A"
proof -
  have "card {i\<in>A. 0 < f i} = (\<Sum>i\<in>{i\<in>A. 0 < f i}. 1)" by simp
  also have "\<dots> \<le> (\<Sum>i\<in>{i\<in>A. 0 < f i}. f i)" by (rule sum_mono) auto
  also have "\<dots> \<le> sum f A" by (rule sum_mono2) (use assms in auto)
  finally show ?thesis .
qed

lemma sum_list_concat_map:
  "sum_list (map w (concat (map f xs))) = sum_list (map (\<lambda>x. sum_list (map w (f x))) xs)"
  by (induction xs) simp_all

text \<open>The capacity with which an edge, or a node, of the fabric crosses a cut.\<close>

definition crossing :: "nat set \<Rightarrow> nat \<times> nat \<times> nat \<Rightarrow> nat" where
  "crossing S arc = (case arc of (a, b, c) \<Rightarrow> if a \<in> S \<and> b \<notin> S then c else 0)"

definition crossing_edges ::
  "planner_state \<Rightarrow> bool \<Rightarrow> endpoint_binding \<Rightarrow> endpoint_binding \<Rightarrow> nat set \<Rightarrow> nat set" where
  "crossing_edges st nd sb tb S =
     {e\<in>{..<length (edges (s_fabric st))}. 0 < sum_list (map (crossing S) (edge_arc st nd sb tb e))}"

definition crossing_nodes :: "planner_state \<Rightarrow> bool \<Rightarrow> nat set \<Rightarrow> nat set" where
  "crossing_nodes st nd S =
     {n\<in>{n. n < node_total st \<and> s_node_allowed st ! n}. nd \<and> in_index n \<in> S \<and> out_index n \<notin> S}"

lemma crossing_bound:
  assumes limit: "0 < limit"
  shows "card (crossing_edges st nd sb tb S <+> crossing_nodes st nd S) \<le>
    (\<Sum>(a, b, c)\<leftarrow>network_arcs st s t nd sb tb limit. if a \<in> S \<and> b \<notin> S then c else 0)"
proof -
  let ?E = "{..<length (edges (s_fabric st))}" and ?N = "{n. n < node_total st \<and> s_node_allowed st ! n}"
  let ?arc = "\<lambda>n. (in_index n, out_index n, if n = s \<or> n = t then limit else 1)"
  have fin: "finite ?N" by simp
  have edges: "card (crossing_edges st nd sb tb S) \<le>
      sum_list (map (crossing S) (concat (map (edge_arc st nd sb tb) [0..<length (edges (s_fabric st))])))"
    using card_positive_le_sum [of ?E "\<lambda>e. sum_list (map (crossing S) (edge_arc st nd sb tb e))"]
    unfolding crossing_edges_def sum_list_concat_map interv_sum_list_conv_sum_set_nat
    by (simp add: atLeast0LessThan)
  have nodes: "card (crossing_nodes st nd S) \<le> sum_list (map (crossing S) (if nd then node_arcs st s t limit else []))"
  proof (cases nd)
    case True
    have "sum_list (map (crossing S) (node_arcs st s t limit)) = (\<Sum>n\<in>?N. crossing S (?arc n))"
      by (simp add: node_arcs_def comp_def sum_list_distinct_conv_sum_set)
    moreover have "crossing_nodes st nd S \<subseteq> {n\<in>?N. 0 < crossing S (?arc n)}"
      using limit by (auto simp: crossing_nodes_def crossing_def)
    ultimately show ?thesis
      using card_positive_le_sum [OF fin, of "\<lambda>n. crossing S (?arc n)"] True
        card_mono [of "{n\<in>?N. 0 < crossing S (?arc n)}" "crossing_nodes st nd S"] by simp
  qed (simp add: crossing_nodes_def)
  have "card (crossing_edges st nd sb tb S <+> crossing_nodes st nd S) =
      card (crossing_edges st nd sb tb S) + card (crossing_nodes st nd S)"
    by (rule card_Plus) (simp_all add: crossing_edges_def crossing_nodes_def)
  with edges nodes show ?thesis
    unfolding network_arcs_def crossing_def by simp
qed

lemma usable_edge_arc:
  assumes wf: "fabric_wf (s_fabric st)" and u: "u < node_total st" "s_node_allowed st ! u"
    and e: "e \<in> set (out_edges (s_fabric st) u)" "edge_target st e = Some v" "hop_usable st e sb tb v"
  shows "e < length (edges (s_fabric st))" "edge_arc st nd sb tb e = [(if nd then out_index u else u, if nd then in_index v else v, 1)]"
proof -
  have edge: "e < length (edges (s_fabric st))" "e_from (edges (s_fabric st) ! e) = n_id (nodes (s_fabric st) ! u)"
    using e(1) out_edges_exact [OF wf] u(1) by auto
  then show "e < length (edges (s_fabric st))" by blast
  have "node_index (s_fabric st) (e_from (edges (s_fabric st) ! e)) = Some u"
    using edge(2) u(1) by (simp add: node_index_iff [OF wf])
  moreover have "edge_statically_usable st e" "edge_carries_demand st e" "s_node_allowed st ! v"
    "binding_allows_edge (s_fabric st) sb (edges (s_fabric st) ! e)"
    "binding_allows_edge (s_fabric st) tb (edges (s_fabric st) ! e)"
    using e(3) by (simp_all add: hop_usable_def Let_def split: if_splits)
  ultimately show "edge_arc st nd sb tb e = [(if nd then out_index u else u, if nd then in_index v else v, 1)]"
    using e(2) u by (simp add: edge_arc_def edge_target_def Let_def)
qed

text \<open>A path out of a cut crosses it along one of its edges or at one of its inner nodes.\<close>

lemma path_crosses:
  assumes wf: "fabric_wf (s_fabric st)"
  shows "connected st sb tb a p b \<Longrightarrow> a < node_total st \<Longrightarrow> s_node_allowed st ! a \<Longrightarrow>
    (if nd then out_index a else a) \<in> S \<Longrightarrow> (if nd then in_index b else b) \<notin> S \<Longrightarrow> a \<noteq> b \<Longrightarrow>
    set p \<inter> crossing_edges st nd sb tb S \<noteq> {} \<or>
    set (butlast (path_nodes st p)) \<inter> crossing_nodes st nd S \<noteq> {}"
proof (induction p arbitrary: a)
  case (Cons e p)
  then obtain v where e: "e \<in> set (out_edges (s_fabric st) a)" "edge_target st e = Some v" "hop_usable st e sb tb v"
    and rest: "connected st sb tb v p b" by auto
  note arc = usable_edge_arc [OF wf Cons.prems(2,3) e]
  have v: "v < node_total st" "s_node_allowed st ! v" 
    using edge_target_bound [OF wf e(2)] e(3) by (simp_all add: hop_usable_def Let_def split: if_splits)
  have nodes: "path_nodes st (e # p) = v # path_nodes st p" using e(2) by (simp add: path_nodes_def)
  show ?case
  proof (cases "(if nd then in_index v else v) \<in> S")
    case False
    then have "e \<in> crossing_edges st nd sb tb S" using arc Cons.prems(4) by (simp add: crossing_edges_def crossing_def)
    then show ?thesis by simp
  next
    case True
    then have vb: "v \<noteq> b" using Cons.prems(5) by auto
    then have "p \<noteq> []" using rest by auto
    then have inner: "v \<in> set (butlast (path_nodes st (e # p)))" "set (butlast (path_nodes st p)) \<subseteq> set (butlast (path_nodes st (e # p)))"
      by (auto simp: nodes) (simp_all add: path_nodes_def)
    show ?thesis
    proof (cases "(if nd then out_index v else v) \<in> S")
      case True
      from Cons.IH [OF rest v True Cons.prems(5) vb] inner(2) show ?thesis by auto
    next
      case False
      then have "v \<in> crossing_nodes st nd S" using True v by (cases nd) (auto simp: crossing_nodes_def)
      then show ?thesis using inner(1) by blast
    qed
  qed
qed simp

lemma network_arcs_bounds:
  assumes wf: "fabric_wf (s_fabric st)"
  shows "\<forall>(a, b, c)\<in>set (network_arcs st s t nd sb tb limit).
    a < node_total st * (if nd then 2 else 1) \<and> b < node_total st * (if nd then 2 else 1)"
proof -
  have "\<forall>(a, b, c)\<in>set (edge_arc st nd sb tb e). a < node_total st * (if nd then 2 else 1) \<and>
      b < node_total st * (if nd then 2 else 1)" for e
  proof -
    have "n < node_total st" if "Some n = node_index (s_fabric st) k" for n k
      using node_index_iff [OF wf, of k n] that by simp
    note bound = this this [OF sym]
    show ?thesis
      by (auto simp: edge_arc_def Let_def in_index_def out_index_def dest: bound split: option.splits)
  qed
  then show ?thesis
    by (fastforce simp: network_arcs_def node_arcs_def in_index_def out_index_def)
qed

lemma disjoint_paths_bound:
  assumes wf: "fabric_wf (s_fabric st)" and "s < node_total st" "t < node_total st" "s \<noteq> t" "s_node_allowed st ! s"
    and "\<forall>p\<in>set ps. connected st sb tb s p t"
    and "sorted_wrt (\<lambda>p q. set p \<inter> set q = {}) ps"
    and "nd \<Longrightarrow> sorted_wrt (\<lambda>p q. set (butlast (path_nodes st p)) \<inter> set (butlast (path_nodes st q)) = {}) ps"
  shows "min (length ps) limit \<le> max_disjoint_paths st s t nd sb tb limit"
proof (rule ccontr)
  let ?N = "node_total st * (if nd then 2 else 1)" and ?arcs = "network_arcs st s t nd sb tb limit"
  let ?s = "if nd then out_index s else s" and ?t = "if nd then in_index t else t" and ?g = "network ?N ?arcs"
  let ?flow = "run_flow ?s ?t limit ?g"
  assume "\<not> ?thesis"
  then have less: "?flow < limit" "?flow < length ps" by (simp_all add: max_disjoint_paths_def)
  note net = network_correct [OF network_arcs_bounds [OF wf, of s t nd sb tb limit]]
  have "?s < length ?g" "?t < length ?g" "?s \<noteq> ?t"
    using assms(2-4) by (auto simp: net(1) in_index_def out_index_def)
  then obtain S where S: "S \<subseteq> {..<?N}" "?s \<in> S" "?t \<notin> S" "cut_capacity S ?g = ?flow"
    using run_flow_cut [OF net(2) _ _ _ less(1)] net(1) by auto
  let ?U = "crossing_edges st nd sb tb S <+> crossing_nodes st nd S"
  let ?X = "\<lambda>i. (set (ps ! i) \<inter> crossing_edges st nd sb tb S) <+>
    (set (butlast (path_nodes st (ps ! i))) \<inter> crossing_nodes st nd S)"
  have "card ?U \<le> ?flow" using crossing_bound [of limit st nd sb tb S s t] net(3) [OF S(1)] S(4) less(1) by simp
  moreover have "length ps \<le> card ?U"
  proof (rule disjoint_family_card [where X = ?X])
    show "finite ?U" by (simp add: crossing_edges_def crossing_nodes_def)
    show "?X i \<noteq> {} \<and> ?X i \<subseteq> ?U" if "i < length ps" for i
      using path_crosses [OF wf _ assms(2,5) S(2,3) assms(4), of sb tb "ps ! i"] assms(6) that by fastforce
    have lt: "?X i \<inter> ?X j = {}" if "i < j" "j < length ps" for i j
      using sorted_wrt_nth_less [OF assms(7) that] sorted_wrt_nth_less [OF assms(8) that]
      by (auto simp: crossing_nodes_def)
    show "?X i \<inter> ?X j = {}" if "i < length ps" "j < length ps" "i \<noteq> j" for i j
      using lt [of i j] lt [of j i] that by (metis inf_commute nat_neq_iff)
  qed
  ultimately show False using less(2) by simp
qed

section \<open>Properties\<close>

text \<open>
  C8: the max-flow certificate is sound. Whatever number of paths exists between two nodes that share
  no edge (and no inner node, for node disjointness), the computed flow is at least that number, up to
  the limit asked for. So a flow below the wanted number of paths proves that this number cannot be
  met, which is what the planner reports as proven infeasible.
\<close>

theorem max_disjoint_paths_certifies:
  assumes "fabric_build spec = Inr (s_fabric st)" "s < node_total st" "t < node_total st" "s \<noteq> t" "s_node_allowed st ! s"
    and "\<forall>p\<in>set ps. connected st sb tb s p t"
    and "sorted_wrt (\<lambda>p q. set p \<inter> set q = {}) ps"
    and "nd \<Longrightarrow> sorted_wrt (\<lambda>p q. set (butlast (path_nodes st p)) \<inter> set (butlast (path_nodes st q)) = {}) ps"
  shows "min (length ps) limit \<le> max_disjoint_paths st s t nd sb tb limit"
  by (rule disjoint_paths_bound [OF fabric_build_wf [OF assms(1)] assms(2-7)]) (rule assms(8))

theorem max_disjoint_paths_certifies_witness:
  "1 \<le> max_disjoint_paths small_state 0 1 True (plain_binding ''p1'' ''a'') (plain_binding ''p2'' ''b'') 2"
proof -
  let ?a = "plain_binding ''p1'' ''a''" and ?b = "plain_binding ''p2'' ''b''"
  have facts: "node_total small_state = 2 \<and> s_node_allowed small_state ! 0 \<and>
      0 \<in> set (out_edges (s_fabric small_state) 0) \<and> edge_target small_state 0 = Some 1 \<and>
      hop_usable small_state 0 ?a ?b 1" by code_simp
  then have "connected small_state ?a ?b 0 [0] 1" by simp
  with max_disjoint_paths_certifies [OF small_state_fabric, of 0 1 "[[0]]" ?a ?b True 2] facts
  show ?thesis by simp
qed

end
