(* ===== verification/Analyse.thy ===== *)
theory Analyse
  imports Flow
begin

text \<open>
  The analysis of one logical edge (\<open>src/planner.cpp\<close>): the classification of what blocks an
  unreachable endpoint, the candidate pool, and \<open>analyse_logical_edge\<close>, which records either
  the alternative path sets of the edge or a categorised denial.

  The prose of the messages is not modelled, and neither is the count of enumerated candidates that
  \<open>build_pool\<close> returns, which nothing reads.
\<close>

section \<open>Denials and limits\<close>

datatype conflict_kind =
  cfNone | cfMissingBinding | cfUnknownNode | cfIneligibleEndpoint | cfEndpointConstraint | cfForbiddenNode
  | cfForbiddenTier | cfForbiddenFailureDomain | cfHopLimit | cfCostLimit | cfDisconnected
  | cfNoVerifiedCapacity | cfInsufficientCapacity | cfEvidenceInsufficient | cfDisjointness
  | cfDomainDiversity | cfSearchBudget | cfStructure

primrec to_string_conflict :: "conflict_kind \<Rightarrow> string" where
  "to_string_conflict cfNone = ''none''"
| "to_string_conflict cfMissingBinding = ''missing-binding''"
| "to_string_conflict cfUnknownNode = ''unknown-node''"
| "to_string_conflict cfIneligibleEndpoint = ''ineligible-endpoint''"
| "to_string_conflict cfEndpointConstraint = ''endpoint-constraint''"
| "to_string_conflict cfForbiddenNode = ''forbidden-node''"
| "to_string_conflict cfForbiddenTier = ''forbidden-tier''"
| "to_string_conflict cfForbiddenFailureDomain = ''forbidden-failure-domain''"
| "to_string_conflict cfHopLimit = ''hop-limit''"
| "to_string_conflict cfCostLimit = ''cost-limit''"
| "to_string_conflict cfDisconnected = ''disconnected''"
| "to_string_conflict cfNoVerifiedCapacity = ''no-verified-capacity''"
| "to_string_conflict cfInsufficientCapacity = ''insufficient-capacity''"
| "to_string_conflict cfEvidenceInsufficient = ''evidence-insufficient''"
| "to_string_conflict cfDisjointness = ''disjointness''"
| "to_string_conflict cfDomainDiversity = ''domain-diversity''"
| "to_string_conflict cfSearchBudget = ''search-budget''"
| "to_string_conflict cfStructure = ''structure''"

datatype denial_kind = dnInvalidRequest | dnStaleInput | dnProvenInfeasible | dnSearchLimitReached | dnUnsupportedConstraint

primrec to_string_denial :: "denial_kind \<Rightarrow> string" where
  "to_string_denial dnInvalidRequest = ''invalid-request''"
| "to_string_denial dnStaleInput = ''stale-input''"
| "to_string_denial dnProvenInfeasible = ''proven-infeasible''"
| "to_string_denial dnSearchLimitReached = ''search-limit-reached''"
| "to_string_denial dnUnsupportedConstraint = ''unsupported-constraint''"

definition kMaxDenialWitness :: nat where
  "kMaxDenialWitness = 8"

record planner_limits =
  max_candidate_paths :: nat
  max_exhaustive_paths :: nat
  max_enumeration_steps :: nat
  max_total_enumeration_steps :: nat
  max_combination_steps :: nat
  max_set_alternatives :: nat
  max_global_nodes :: nat
  limit_search_expansions :: nat
  collect_all_denials :: bool

definition default_limits :: planner_limits where
  "default_limits =
     \<lparr>max_candidate_paths = 8, max_exhaustive_paths = 64, max_enumeration_steps = 512,
      max_total_enumeration_steps = 2 ^ 21, max_combination_steps = 200000, max_set_alternatives = 8,
      max_global_nodes = 200000, limit_search_expansions = 2 ^ 18, collect_all_denials = True\<rparr>"

record edge_plan =
  ep_id :: u64
  ep_src :: participant_id
  ep_dst :: participant_id
  ep_stage :: u32
  ep_failed :: bool
  ep_code :: error_code
  ep_kind :: denial_kind
  ep_conflict :: conflict_kind
  ep_candidates :: nat
  ep_paths_enumerated :: nat
  ep_enumeration_exhaustive :: bool
  ep_alternatives :: "path_set list"
  ep_sets_exhaustive :: bool
  ep_witness_nodes :: "node_id list"
  ep_witness_edges :: "edge_id list"

definition new_edge_plan :: "collective \<Rightarrow> nat \<Rightarrow> edge_plan" where
  "new_edge_plan c i =
     \<lparr>ep_id = logical_edge_id i, ep_src = fst (logical_edges c ! i), ep_dst = snd (logical_edges c ! i),
      ep_stage = logical_edge_stage c ! i, ep_failed = False, ep_code = kNoPath, ep_kind = dnProvenInfeasible,
      ep_conflict = cfDisconnected, ep_candidates = 0, ep_paths_enumerated = 0,
      ep_enumeration_exhaustive = False, ep_alternatives = [], ep_sets_exhaustive = False,
      ep_witness_nodes = [], ep_witness_edges = []\<rparr>"

definition fail_edge :: "denial_kind \<Rightarrow> error_code \<Rightarrow> conflict_kind \<Rightarrow> edge_plan \<Rightarrow> edge_plan" where
  "fail_edge kind code conflict plan =
     plan\<lparr>ep_failed := True, ep_kind := kind, ep_code := code, ep_conflict := conflict\<rparr>"

section \<open>What blocks an unreachable endpoint\<close>

datatype obstacle = obNode | obTier | obDomain | obEvidence | obCapacity | obBinding

text \<open>The counter that an edge leaving the source endpoint adds to, if any.\<close>

definition edge_obstacle ::
  "planner_state \<Rightarrow> endpoint_binding \<Rightarrow> endpoint_binding \<Rightarrow> nat \<Rightarrow> obstacle option" where
  "edge_obstacle st sb tb i =
     (let g = s_fabric st; p = s_policy st; e = edges g ! i in
      if \<not> e_eligible e then Some obNode
      else if tier_forbidden p (e_tier e) \<or>
        (allowed_path_tiers p \<noteq> [] \<and>
         (\<not> id_valid (e_tier e) \<or> \<not> binary_search (allowed_path_tiers p) (e_tier e))) then Some obTier
      else if domain_forbidden g p (e_domain e) then Some obDomain
      else if \<not> evidence_satisfies (e_evidence e) (po_evidence p) then Some obEvidence
      else if (if e_capacity e = 0 then \<not> allow_unverified_capacity p \<or> e_reserved e \<noteq> 0
               else e_reserved e \<ge> e_capacity e) then Some obCapacity
      else if s_demand st > 0 \<and> e_capacity e > 0 \<and> edge_spare g i < s_demand st then Some obCapacity
      else if \<not> binding_allows_edge g sb e \<or> \<not> binding_allows_edge g tb e then Some obBinding
      else case node_index g (e_to e) of None \<Rightarrow> Some obNode
        | Some n \<Rightarrow> if \<not> s_node_allowed st ! n then Some obNode else None)"

definition diagnose_unreachable ::
  "planner_state \<Rightarrow> nat \<Rightarrow> endpoint_binding \<Rightarrow> endpoint_binding \<Rightarrow> edge_plan \<Rightarrow> edge_plan" where
  "diagnose_unreachable st source sb tb plan =
     (let g = s_fabric st;
          leaving = filter (\<lambda>i. e_from (edges g ! i) = n_id (nodes g ! source)) [0..<length (edges g)];
          total_count = length leaving;
          count = (\<lambda>ob. length (filter (\<lambda>i. edge_obstacle st sb tb i = Some ob) leaving));
          plan1 = plan\<lparr>ep_witness_edges := ep_witness_edges plan @
            take (kMaxDenialWitness - length (ep_witness_edges plan)) (map (\<lambda>i. e_id (edges g ! i)) leaving)\<rparr>;
          verdict = (\<lambda>code conflict. plan1\<lparr>ep_code := code, ep_conflict := conflict\<rparr>) in
      if total_count = 0 then verdict kNoPath cfDisconnected
      else if count obNode = total_count then verdict kNodeForbidden cfForbiddenNode
      else if count obTier + count obNode = total_count then verdict kTierForbidden cfForbiddenTier
      else if count obDomain + count obTier + count obNode = total_count
        then verdict kFailureDomainForbidden cfForbiddenFailureDomain
      else if count obEvidence + count obDomain + count obTier + count obNode = total_count
        then verdict kCapacityEvidenceInsufficient cfEvidenceInsufficient
      else if count obCapacity + count obEvidence + count obDomain + count obTier + count obNode = total_count
        then verdict kEdgeHasNoVerifiedCapacity cfNoVerifiedCapacity
      else if count obBinding + count obCapacity + count obEvidence + count obDomain + count obTier +
          count obNode = total_count
        then verdict kEndpointIneligible cfEndpointConstraint
      else verdict kNoPath cfDisconnected)"

section \<open>The candidate pool\<close>

definition already_present :: "candidate list \<Rightarrow> candidate \<Rightarrow> bool" where
  "already_present pool c \<longleftrightarrow> list_ex (\<lambda>entry. same_path entry c) pool"

definition reset_blocks :: "planner_state \<Rightarrow> planner_state" where
  "reset_blocks st = st\<lparr>s_blocks := bs_reset (s_blocks st)\<rparr>"

definition search_blocked ::
  "nat \<Rightarrow> nat \<Rightarrow> endpoint_binding \<Rightarrow> endpoint_binding \<Rightarrow> nat list \<Rightarrow> nat list \<Rightarrow> planner_state \<Rightarrow>
   planner_state \<times> search_outcome" where
  "search_blocked source target sb tb es ns st =
     shortest_path (st\<lparr>s_blocks := fold block_node ns (fold block_edge es (bs_reset (s_blocks st)))\<rparr>)
       source target sb tb"

definition consider_path :: "planner_state \<Rightarrow> nat \<Rightarrow> nat \<Rightarrow> search_outcome \<Rightarrow> candidate list \<Rightarrow> candidate list" where
  "consider_path st cap source found pool =
     (if \<not> so_found found \<or> length pool \<ge> cap then pool
      else case make_candidate st (so_edges found) source of None \<Rightarrow> pool
        | Some c \<Rightarrow> if already_present pool c then pool else pool @ [c])"

text \<open>The nodes strictly inside a path.\<close>

definition interior_nodes :: "planner_state \<Rightarrow> nat list \<Rightarrow> nat list" where
  "interior_nodes st es = map (\<lambda>e. the (edge_target st e)) (butlast es)"

text \<open>The greedy diversity chain; it also returns the nodes blocked so far.\<close>

fun pool_chain ::
  "nat \<Rightarrow> nat \<Rightarrow> nat \<Rightarrow> nat \<Rightarrow> endpoint_binding \<Rightarrow> endpoint_binding \<Rightarrow> nat list \<Rightarrow> nat list \<Rightarrow> candidate list \<Rightarrow>
   planner_state \<Rightarrow> planner_state \<times> nat list \<times> candidate list" where
  "pool_chain 0 cap source target sb tb blocked_edges blocked_nodes pool st = (st, blocked_nodes, pool)"
| "pool_chain (Suc n) cap source target sb tb blocked_edges blocked_nodes pool st =
     (if length pool \<ge> cap then (st, blocked_nodes, pool)
      else let (st1, found) = search_blocked source target sb tb blocked_edges blocked_nodes st in
        if \<not> so_found found then (st1, blocked_nodes, pool)
        else pool_chain n cap source target sb tb (blocked_edges @ so_edges found)
               (blocked_nodes @ (if po_disjointness (s_policy st) = djNode then interior_nodes st (so_edges found) else []))
               (consider_path st cap source found pool) st1)"

text \<open>The alternatives that avoid one edge or one node of the paths so far.\<close>

fun pool_extra ::
  "nat \<Rightarrow> nat \<Rightarrow> endpoint_binding \<Rightarrow> endpoint_binding \<Rightarrow> candidate list \<Rightarrow> (nat list \<times> nat list) list \<Rightarrow>
   candidate list \<Rightarrow> planner_state \<Rightarrow> planner_state \<times> candidate list" where
  "pool_extra source target sb tb pool [] extra st = (st, extra)"
| "pool_extra source target sb tb pool ((es, ns) # blocks) extra st =
     (let (st1, found) = search_blocked source target sb tb es ns st in
      if \<not> so_found found then pool_extra source target sb tb pool blocks extra st1
      else case make_candidate st (so_edges found) source of
        None \<Rightarrow> pool_extra source target sb tb pool blocks extra st1
      | Some c \<Rightarrow>
          if already_present pool c \<or> already_present extra c
            then pool_extra source target sb tb pool blocks extra st1
          else pool_extra source target sb tb pool blocks (extra @ [c]) st1)"

fun pool_fill :: "nat \<Rightarrow> candidate list \<Rightarrow> candidate list \<Rightarrow> candidate list" where
  "pool_fill cap [] pool = pool"
| "pool_fill cap (c # cs) pool =
     (if length pool \<ge> cap then pool
      else pool_fill cap cs (if already_present pool c then pool else pool @ [c]))"

definition enumerated_pool :: "planner_state \<Rightarrow> nat \<Rightarrow> nat list list \<Rightarrow> candidate list" where
  "enumerated_pool st source paths =
     unique_paths (sort_candidates (List.map_filter (\<lambda>path. make_candidate st path source) paths))"

definition sampled_pool ::
  "nat \<Rightarrow> nat \<Rightarrow> nat \<Rightarrow> endpoint_binding \<Rightarrow> endpoint_binding \<Rightarrow> candidate list \<Rightarrow> planner_state \<Rightarrow>
   planner_state \<times> candidate list" where
  "sampled_pool cap source target sb tb candidates st =
     (let (st1, best) = shortest_path (reset_blocks st) source target sb tb;
          pool0 = (case make_candidate st (so_edges best) source of
                     Some c \<Rightarrow> if so_found best then [c] else take 1 candidates
                   | None \<Rightarrow> take 1 candidates);
          node_disjoint = (po_disjointness (s_policy st) = djNode);
          (st4, pool3) =
            (if pool0 = [] then (st1, pool0)
             else let first = ca_edges (hd pool0);
                      (st2, blocked_nodes, pool1) =
                        pool_chain (paths_per_logical_edge (s_policy st) - 1) cap source target sb tb first
                          (if node_disjoint then interior_nodes st first else []) pool0 st1;
                      (st3, extra) =
                        pool_extra source target sb tb pool1
                          (map (\<lambda>e. ([e], [])) first @
                           (if node_disjoint then map (\<lambda>n. ([], [n])) blocked_nodes else [])) [] st2 in
                  (st3, pool1 @ take (cap - length pool1) (sort_candidates extra))) in
      (reset_blocks st4, sort_candidates (pool_fill cap candidates pool3)))"

definition build_pool ::
  "planner_state \<Rightarrow> nat \<Rightarrow> nat \<Rightarrow> endpoint_binding \<Rightarrow> endpoint_binding \<Rightarrow> enumeration \<Rightarrow> planner_limits \<Rightarrow>
   planner_state \<times> candidate list" where
  "build_pool st source target sb tb found limits =
     (let candidates = enumerated_pool st source (en_paths found) in
      if en_exhaustive found then (st, candidates)
      else sampled_pool (max_candidate_paths limits) source target sb tb candidates st)"

section \<open>One logical edge\<close>

text \<open>The verdict when no admissible set was found.\<close>

definition deny_sets ::
  "planner_state \<Rightarrow> nat \<Rightarrow> nat \<Rightarrow> endpoint_binding \<Rightarrow> endpoint_binding \<Rightarrow> nat \<Rightarrow> bool \<Rightarrow> set_enumeration \<Rightarrow>
   edge_plan \<Rightarrow> edge_plan" where
  "deny_sets st source target sb tb wanted sets_exhaustive sets plan =
     (if po_disjointness (s_policy st) \<noteq> djNone \<and> wanted > 1 \<and>
         max_disjoint_paths st source target (po_disjointness (s_policy st) = djNode) sb tb wanted < wanted
      then fail_edge dnProvenInfeasible kInsufficientDisjointPaths cfDisjointness plan
      else if sets_exhaustive then
        (if se_rejected_capacity sets \<ge> se_rejected_disjointness sets \<and> se_rejected_capacity sets > 0
           then fail_edge dnProvenInfeasible kInsufficientCapacity cfInsufficientCapacity plan
         else if se_rejected_domain sets > 0
           then fail_edge dnProvenInfeasible kDomainDiversityUnsatisfiable cfDomainDiversity plan
         else fail_edge dnProvenInfeasible kInsufficientDisjointPaths cfDisjointness plan)
      else fail_edge dnSearchLimitReached kSearchBudgetExceeded cfSearchBudget plan)"

definition analyse_routes ::
  "planner_state \<Rightarrow> nat \<Rightarrow> nat \<Rightarrow> endpoint_binding \<Rightarrow> endpoint_binding \<Rightarrow> planner_limits \<Rightarrow> edge_plan \<Rightarrow>
   planner_state \<times> edge_plan" where
  "analyse_routes st source target sb tb limits plan =
     (let wanted = max 1 (paths_per_logical_edge (s_policy st));
          (st1, run) = enumerate_paths (reset_blocks st) source target sb tb new_enumeration
                         (max_exhaustive_paths limits) (max_enumeration_steps limits);
          found = run\<lparr>en_exhaustive := en_exhaustive run \<and> \<not> en_step_limited run \<and>
                          length (en_paths run) \<le> max_exhaustive_paths limits,
                      en_paths := take (max_exhaustive_paths limits) (en_paths run)\<rparr>;
          (st2, pool) = build_pool st1 source target sb tb found limits;
          plan1 = plan\<lparr>ep_enumeration_exhaustive := en_exhaustive found,
                       ep_paths_enumerated := length (en_paths found), ep_candidates := length pool\<rparr> in
      if pool = [] then
        (st2, if \<not> en_exhaustive found
              then fail_edge dnSearchLimitReached kSearchBudgetExceeded cfSearchBudget plan1
              else diagnose_unreachable st2 source sb tb (plan1\<lparr>ep_failed := True, ep_kind := dnProvenInfeasible\<rparr>))
      else let sets = enumerate_sets st2 wanted (max_set_alternatives limits) (max_combination_steps limits)
                        pool [] new_set_enumeration;
               exhaustive = (en_exhaustive found \<and> \<not> se_step_limited sets);
               plan2 = plan1\<lparr>ep_sets_exhaustive := exhaustive, ep_alternatives := se_best sets\<rparr> in
        (st2, if se_best sets \<noteq> [] then plan2
              else deny_sets st2 source target sb tb wanted exhaustive sets plan2))"

definition analyse_logical_edge ::
  "planner_state \<Rightarrow> planning_request \<Rightarrow> nat \<Rightarrow> planner_limits \<Rightarrow> planner_state \<times> edge_plan" where
  "analyse_logical_edge st r i limits =
     (let g = r_fabric r; c = r_collective r; plan = new_edge_plan c i in
      case (find_binding r (ep_src plan), find_binding r (ep_dst plan)) of
        (Some sb, Some tb) \<Rightarrow>
          (case (node_index g (b_node sb), node_index g (b_node tb)) of
             (Some source, Some target) \<Rightarrow>
               if \<not> s_node_allowed st ! source \<or> \<not> s_node_allowed st ! target then
                 (st, (fail_edge dnProvenInfeasible kEndpointIneligible cfIneligibleEndpoint plan)
                        \<lparr>ep_witness_nodes := [n_id (nodes g ! (if \<not> s_node_allowed st ! source then source else target))]\<rparr>)
               else (case bfs_min_hops st source target sb tb of
                   None \<Rightarrow> (st, diagnose_unreachable st source sb tb
                                  (plan\<lparr>ep_failed := True, ep_kind := dnProvenInfeasible\<rparr>))
                 | Some hops \<Rightarrow>
                     if hops > max_hops (s_policy st)
                       then (st, fail_edge dnProvenInfeasible kHopLimitExceeded cfHopLimit plan)
                     else analyse_routes st source target sb tb limits plan)
           | _ \<Rightarrow> (st, fail_edge dnInvalidRequest kUnknownEndpointNode cfUnknownNode plan))
      | _ \<Rightarrow> (st, fail_edge dnInvalidRequest kUnboundParticipant cfMissingBinding plan))"

end
