(* ===== verification/Global.thy ===== *)
theory Global
  imports Analyse
begin

text \<open>
  The global capacity-coherent assignment (\<open>solve_global\<close> of \<open>src/planner.cpp\<close>): one
  alternative per logical edge such that the request never commits more than the spare capacity of a
  physical edge.
\<close>

section \<open>The search\<close>

record global_candidate =
  gc_choice :: "nat list"
  gc_total_cost :: u64
  gc_conflicts :: nat
  gc_max_path_cost :: u64
  gc_min_headroom :: u64

definition global_better :: "global_candidate \<Rightarrow> global_candidate \<Rightarrow> bool" where
  "global_better lhs rhs =
     (if gc_total_cost lhs \<noteq> gc_total_cost rhs then gc_total_cost lhs < gc_total_cost rhs
      else if gc_conflicts lhs \<noteq> gc_conflicts rhs then gc_conflicts lhs < gc_conflicts rhs
      else if gc_max_path_cost lhs \<noteq> gc_max_path_cost rhs then gc_max_path_cost lhs < gc_max_path_cost rhs
      else if gc_min_headroom lhs \<noteq> gc_min_headroom rhs then gc_min_headroom lhs > gc_min_headroom rhs
      else False)"

record global_result =
  gs_found :: bool
  gs_exhaustive :: bool
  gs_nodes :: nat
  gs_best :: global_candidate

definition empty_candidate :: global_candidate where
  "empty_candidate = \<lparr>gc_choice = [], gc_total_cost = 0, gc_conflicts = 0, gc_max_path_cost = 0, gc_min_headroom = kCostCeiling\<rparr>"

text \<open>Capacity bookkeeping; \<open>remaining\<close> of the code is \<open>left\<close> here.\<close>

definition commit :: "path_set \<Rightarrow> u64 list \<Rightarrow> u64 list" where
  "commit s left = fold (\<lambda>(e, amount) l. l[e := l ! e - amount]) (ss_usage s) left"

definition uncommit :: "path_set \<Rightarrow> u64 list \<Rightarrow> u64 list" where
  "uncommit s left = fold (\<lambda>(e, amount) l. l[e := l ! e + amount]) (ss_usage s) left"

definition fits_left :: "path_set \<Rightarrow> u64 list \<Rightarrow> bool" where
  "fits_left s left \<longleftrightarrow> list_all (\<lambda>(e, amount). \<not> amount > left ! e) (ss_usage s)"

text \<open>The set an assignment chooses for a logical edge, and the value of the whole assignment.\<close>

definition chosen_set :: "edge_plan list \<Rightarrow> nat list \<Rightarrow> nat \<Rightarrow> path_set" where
  "chosen_set plans choice i = ep_alternatives (plans ! i) ! (choice ! i)"

definition assess_choice :: "edge_plan list \<Rightarrow> u64 list \<Rightarrow> nat list \<Rightarrow> global_candidate" where
  "assess_choice plans left choice =
     (let sets = map (chosen_set plans choice) [0..<length plans] in
      \<lparr>gc_choice = choice,
       gc_total_cost = fold (\<lambda>s total. saturating_add total (ss_total_cost s) kCostCeiling) sets 0,
       gc_conflicts = fold (\<lambda>s n. n + ss_domain_conflicts s) sets 0,
       gc_max_path_cost = fold (\<lambda>s highest. max highest (ss_max_path_cost s)) sets 0,
       gc_min_headroom = fold (\<lambda>s room. fold (\<lambda>(e, amount) r. min r (left ! e)) (ss_usage s) room) sets kCostCeiling\<rparr>)"

text \<open>The fast path: every logical edge takes its best alternative, if the union fits.\<close>

fun commit_usage :: "(nat \<times> u64) list \<Rightarrow> u64 list \<Rightarrow> u64 list option" where
  "commit_usage [] trial = Some trial"
| "commit_usage ((e, amount) # rest) trial =
     (if amount > trial ! e then None else commit_usage rest (trial[e := trial ! e - amount]))"

fun try_first :: "edge_plan list \<Rightarrow> u64 list \<Rightarrow> u64 list option" where
  "try_first [] trial = Some trial"
| "try_first (plan # plans) trial =
     (case ep_alternatives plan of [] \<Rightarrow> None
      | s # _ \<Rightarrow> (case commit_usage (ss_usage s) trial of None \<Rightarrow> None
          | Some trial' \<Rightarrow> try_first plans trial'))"

text \<open>
  The state of the depth-first exploration. \<open>ex_level\<close> is \<open>level + 1\<close>, so that the loop
  ends at 0; \<open>ex_choice ! i\<close> is \<open>None\<close> when \<open>started[i]\<close> is 0.
\<close>

record exploration =
  ex_level :: nat
  ex_choice :: "nat option list"
  ex_left :: "u64 list"
  ex_nodes :: nat
  ex_best :: "global_candidate option"

text \<open>The loop over the alternatives of a level: the first that fits, and the nodes spent.\<close>

fun next_fitting ::
  "nat \<Rightarrow> path_set list \<Rightarrow> u64 list \<Rightarrow> nat \<Rightarrow> nat \<Rightarrow> nat \<times> (nat option) option" where
  "next_fitting budget [] left i spent = (spent, Some None)"
| "next_fitting budget (s # sets) left i spent =
     (if spent \<ge> budget then (spent, None)
      else if fits_left s left then (spent + 1, Some (Some i))
      else next_fitting budget sets left (i + 1) (spent + 1))"

definition step_back :: "edge_plan list \<Rightarrow> exploration \<Rightarrow> exploration" where
  "step_back plans x =
     (let level = ex_level x - 1 in
      if level = 0 then x\<lparr>ex_level := level\<rparr>
      else x\<lparr>ex_level := level,
             ex_left := uncommit (ep_alternatives (plans ! (level - 1)) ! the (ex_choice x ! (level - 1))) (ex_left x)\<rparr>)"

definition record_choice :: "edge_plan list \<Rightarrow> exploration \<Rightarrow> exploration" where
  "record_choice plans x =
     (let c = assess_choice plans (ex_left x) (map the (ex_choice x)) in
      x\<lparr>ex_best := (case ex_best x of None \<Rightarrow> Some c | Some best \<Rightarrow> Some (if global_better c best then c else best))\<rparr>)"

lemma next_fitting_spent:
  "next_fitting budget sets left i spent = (spent', r) \<Longrightarrow>
   spent \<le> spent' \<and> (\<forall>j. r = Some (Some j) \<longrightarrow> spent < spent' \<and> spent' \<le> budget)"
  by (induction budget sets left i spent rule: next_fitting.induct) (auto split: if_splits)

function explore :: "edge_plan list \<Rightarrow> nat \<Rightarrow> exploration \<Rightarrow> bool \<times> exploration" where
  "explore plans budget x =
     (if ex_level x = 0 then (False, x)
      else if ex_level x = length plans + 1 then explore plans budget (step_back plans (record_choice plans x))
      else let i = ex_level x - 1;
               start = (case ex_choice x ! i of None \<Rightarrow> 0 | Some j \<Rightarrow> j + 1);
               sets = ep_alternatives (plans ! i) in
        case next_fitting budget (drop start sets) (ex_left x) start (ex_nodes x) of
          (spent, None) \<Rightarrow> (True, x\<lparr>ex_nodes := spent\<rparr>)
        | (spent, Some (Some j)) \<Rightarrow>
            explore plans budget
              (x\<lparr>ex_nodes := spent, ex_left := commit (sets ! j) (ex_left x),
                 ex_choice := (ex_choice x)[i := Some j], ex_level := ex_level x + 1\<rparr>)
        | (spent, Some None) \<Rightarrow>
            explore plans budget
              (step_back plans (x\<lparr>ex_nodes := spent, ex_choice := (ex_choice x)[i := None]\<rparr>)))"
  by pat_completeness auto
termination
proof (relation "measures [\<lambda>(plans, budget, x). budget - ex_nodes x, \<lambda>(plans, budget, x). ex_level x]", goal_cases)
  case (2 plans budget x)
  then show ?case by (simp add: step_back_def record_choice_def Let_def)
next
  case (3 plans budget x i start sets spent r)
  have "ex_nodes x \<le> spent" using next_fitting_spent [OF 3(6) [symmetric]] by blast
  with 3(1) show ?case by (auto simp: step_back_def Let_def)
next
  case (4 plans budget x i start sets spent r r' j)
  have "ex_nodes x < spent \<and> spent \<le> budget" using next_fitting_spent [OF 4(6) [symmetric]] 4(7,8) by blast
  then show ?case by auto
qed simp

declare explore.simps [simp del]

definition all_sets_exhaustive :: "edge_plan list \<Rightarrow> bool" where
  "all_sets_exhaustive plans \<longleftrightarrow> list_all ep_sets_exhaustive plans"

definition solve_global :: "edge_plan list \<Rightarrow> u64 list \<Rightarrow> nat \<Rightarrow> global_result" where
  "solve_global plans left budget =
     (if plans = [] then \<lparr>gs_found = True, gs_exhaustive = True, gs_nodes = 0, gs_best = empty_candidate\<rparr>
      else case try_first plans left of
        Some trial \<Rightarrow>
          \<lparr>gs_found = True, gs_exhaustive = all_sets_exhaustive plans, gs_nodes = 0,
           gs_best = assess_choice plans trial (replicate (length plans) 0)\<rparr>
      | None \<Rightarrow>
          let (limited, x) = explore plans budget
                \<lparr>ex_level = 1, ex_choice = replicate (length plans) None, ex_left = left, ex_nodes = 0, ex_best = None\<rparr> in
          (case ex_best x of
             None \<Rightarrow> \<lparr>gs_found = False, gs_exhaustive = \<not> limited, gs_nodes = ex_nodes x, gs_best = empty_candidate\<rparr>
           | Some best \<Rightarrow>
               \<lparr>gs_found = True, gs_exhaustive = (\<not> limited \<and> all_sets_exhaustive plans),
                gs_nodes = ex_nodes x, gs_best = best\<rparr>))"

end
