(* ===== verification/Denial.thy ===== *)
theory Denial
  imports Analyse
begin

text \<open>
  What the verdict on a logical edge means. The analysis of an edge keeps the planner state in order
  (\<open>state_ok\<close>) and changes only its counters and block sets; an alternative it records is a
  choice of feasible, pairwise compatible paths that fits the fabric (\<open>route_choice\<close>); and a
  denial of the kind \<open>proven infeasible\<close> is only given when no such choice exists.
\<close>

section \<open>The planner state between steps\<close>

text \<open>The part of the state that no search changes.\<close>

definition static_part :: "planner_state \<Rightarrow> planner_state" where
  "static_part st =
     st\<lparr>s_expansions := 0, s_enumeration_steps := 0, s_budget_exceeded := False, s_enumeration_exhausted := False,
        s_blocks := bs_resize 0 0\<rparr>"

lemma static_partD:
  assumes "static_part st' = static_part st"
  shows "s_fabric st' = s_fabric st" "s_policy st' = s_policy st" "s_node_allowed st' = s_node_allowed st"
    "s_edge_allowed st' = s_edge_allowed st" "s_edge_cost st' = s_edge_cost st" "s_spare st' = s_spare st"
    "s_demand st' = s_demand st" "s_hop_limit st' = s_hop_limit st" "s_max_expansions st' = s_max_expansions st"
    "s_enumeration_budget st' = s_enumeration_budget st"
proof -
  show "s_fabric st' = s_fabric st" using arg_cong [OF assms, of s_fabric] by (simp add: static_part_def)
  show "s_policy st' = s_policy st" using arg_cong [OF assms, of s_policy] by (simp add: static_part_def)
  show "s_node_allowed st' = s_node_allowed st" using arg_cong [OF assms, of s_node_allowed] by (simp add: static_part_def)
  show "s_edge_allowed st' = s_edge_allowed st" using arg_cong [OF assms, of s_edge_allowed] by (simp add: static_part_def)
  show "s_edge_cost st' = s_edge_cost st" using arg_cong [OF assms, of s_edge_cost] by (simp add: static_part_def)
  show "s_spare st' = s_spare st" using arg_cong [OF assms, of s_spare] by (simp add: static_part_def)
  show "s_demand st' = s_demand st" using arg_cong [OF assms, of s_demand] by (simp add: static_part_def)
  show "s_hop_limit st' = s_hop_limit st" using arg_cong [OF assms, of s_hop_limit] by (simp add: static_part_def)
  show "s_max_expansions st' = s_max_expansions st" using arg_cong [OF assms, of s_max_expansions] by (simp add: static_part_def)
  show "s_enumeration_budget st' = s_enumeration_budget st"
    using arg_cong [OF assms, of s_enumeration_budget] by (simp add: static_part_def)
qed

text \<open>The vectors match the fabric, the budgets hold, and the stamps are in order.\<close>

definition blocks_ok :: "planner_state \<Rightarrow> bool" where
  "blocks_ok st \<longleftrightarrow>
     bs_wf (s_blocks st) \<and> length (node_stamp (s_blocks st)) = node_total st \<and>
     length (edge_stamp (s_blocks st)) = length (edges (s_fabric st))"

definition nothing_blocked :: "planner_state \<Rightarrow> bool" where
  "nothing_blocked st \<longleftrightarrow>
     (\<forall>n<node_total st. \<not> node_blocked (s_blocks st) n) \<and>
     (\<forall>e<length (edges (s_fabric st)). \<not> edge_blocked (s_blocks st) e)"

definition state_ok :: "planner_state \<Rightarrow> bool" where
  "state_ok st \<longleftrightarrow>
     length (s_node_allowed st) = node_total st \<and> length (s_edge_allowed st) = length (edges (s_fabric st)) \<and>
     length (s_edge_cost st) = length (edges (s_fabric st)) \<and> length (s_spare st) = length (edges (s_fabric st)) \<and>
     s_hop_limit st = max_hops (s_policy st) \<and>
     s_expansions st \<le> s_max_expansions st \<and> s_enumeration_steps st \<le> s_enumeration_budget st \<and>
     blocks_ok st \<and> nothing_blocked st"

text \<open>What a search may do to the state.\<close>

definition moves :: "planner_state \<Rightarrow> planner_state \<Rightarrow> bool" where
  "moves st st' \<longleftrightarrow>
     static_part st' = static_part st \<and> (blocks_ok st \<longrightarrow> blocks_ok st') \<and>
     s_expansions st \<le> s_expansions st' \<and> s_enumeration_steps st \<le> s_enumeration_steps st' \<and>
     (s_expansions st \<le> s_max_expansions st \<longrightarrow> s_expansions st' \<le> s_max_expansions st') \<and>
     (s_enumeration_steps st \<le> s_enumeration_budget st \<longrightarrow> s_enumeration_steps st' \<le> s_enumeration_budget st')"

lemma moves_refl [simp]: "moves st st"
  by (simp add: moves_def)

lemma moves_trans: "moves a b \<Longrightarrow> moves b c \<Longrightarrow> moves a c"
  using static_partD(9,10) [of b a] by (auto simp: moves_def)

lemma moves_static: "moves st st' \<Longrightarrow> static_part st' = static_part st"
  by (simp add: moves_def)

lemma moves_blocks:
  assumes "blocks_ok st \<Longrightarrow> bs_wf b \<and> length (node_stamp b) = length (node_stamp (s_blocks st)) \<and>
      length (edge_stamp b) = length (edge_stamp (s_blocks st))"
  shows "moves st (st\<lparr>s_blocks := b\<rparr>)"
  using assms by (auto simp: moves_def static_part_def blocks_ok_def)

lemma reset_blocks_moves: "moves st (reset_blocks st)"
  unfolding reset_blocks_def
  by (rule moves_blocks) (simp add: blocks_ok_def bs_wf_reset bs_reset_lengths)

lemma reset_blocks_clear: "blocks_ok st \<Longrightarrow> nothing_blocked (reset_blocks st)"
  by (simp add: blocks_ok_def nothing_blocked_def reset_blocks_def node_blocked_def edge_blocked_def bs_reset_clears)

lemma state_ok_moves:
  assumes "state_ok st" "moves st st'" "nothing_blocked st'"
  shows "state_ok st'"
  using assms static_partD [OF moves_static [OF assms(2)]] by (auto simp: state_ok_def moves_def)

definition within_budget :: "planner_state \<Rightarrow> bool" where
  "within_budget st \<longleftrightarrow> s_enumeration_steps st \<le> s_enumeration_budget st"

lemma enumerate_edges_budget:
  "within_budget st \<Longrightarrow>
   within_budget (fst (enumerate_edges max_paths max_steps target sb tb deeper node visited current cost es st out))"
proof (induction deeper arbitrary: node visited current cost es st out rule: less_induct)
  case (less deeper)
  note deeperIH = less.IH
  from less.prems show ?case
  proof (induction es arbitrary: st out)
    case (Cons e es)
    let ?st1 = "st\<lparr>s_enumeration_steps := s_enumeration_steps st + 1\<rparr>"
    note tail = Cons.IH
    show ?case
    proof (cases "s_enumeration_budget st \<le> s_enumeration_steps st")
      case True
      with Cons.prems show ?thesis by (simp add: within_budget_def)
    next
      case False
      then have st1: "within_budget ?st1" by (simp add: within_budget_def)
      show ?thesis
      proof (cases "edge_target st e")
        case None
        with False Cons.prems tail [OF st1] show ?thesis by (simp add: Let_def)
      next
        case (Some n)
        have deep: "within_budget (fst (enumerate_edges max_paths max_steps target sb tb d n v c x l ?st1 o1))" if "d < deeper" for d v c x l o1
          using deeperIH [OF that st1] .
        show ?thesis
        proof (cases deeper)
          case 0
          with False Some Cons.prems tail [OF st1] show ?thesis by (simp add: Let_def)
        next
          case (Suc d)
          obtain st2 out2 where below: "enumerate_edges max_paths max_steps target sb tb d n (visited[n := True]) (current @ [e])
              (saturating_add cost (s_edge_cost st ! e) kCostCeiling) (out_edges (s_fabric st) n) ?st1
              (out\<lparr>en_steps := en_steps out + 1\<rparr>) = (st2, out2)" by fastforce
          have "within_budget st2" using deep [of d] below Suc by (metis fst_conv lessI)
          with False Some Suc Cons.prems tail [OF st1] tail [of st2 out2] below show ?thesis
            by (simp add: Let_def)
        qed
      qed
    qed
  qed simp
qed

lemma same_search_moves:
  assumes "same_search st st'" "s_enumeration_steps st \<le> s_enumeration_steps st'" "within_budget st \<longrightarrow> within_budget st'"
  shows "moves st st' \<and> s_blocks st' = s_blocks st"
proof -
  let ?s = "st\<lparr>s_enumeration_steps := s_enumeration_steps st', s_enumeration_exhausted := s_enumeration_exhausted st'\<rparr>"
  have eq: "st' = ?s" using assms(1) unfolding same_search_def .
  have "static_part ?s = static_part st" "blocks_ok ?s = blocks_ok st" "s_expansions ?s = s_expansions st"
    "s_max_expansions ?s = s_max_expansions st" "s_blocks ?s = s_blocks st"
    by (simp_all add: static_part_def blocks_ok_def)
  then have "static_part st' = static_part st" "blocks_ok st' = blocks_ok st" "s_expansions st' = s_expansions st"
    "s_max_expansions st' = s_max_expansions st" "s_blocks st' = s_blocks st" using eq by metis+
  with assms(2,3) show ?thesis by (simp add: moves_def within_budget_def)
qed

lemma enumerate_paths_moves:
  assumes "enumerate_paths st source target sb tb out max_paths max_steps = (st', out')"
  shows "moves st st'" "s_blocks st' = s_blocks st"
proof -
  have "moves st st' \<and> s_blocks st' = s_blocks st" if "enumerate_limits max_paths max_steps source target sb tb ls st out = (st', out')" for ls st out
    using that
  proof (induction ls arbitrary: st out)
    case (Cons l ls)
    obtain st1 out1 where one: "enumerate_depth max_paths max_steps target sb tb l source
        ((replicate (node_total st) False)[source := True]) [] 0 st out = (st1, out1)" by fastforce
    have "moves st st1 \<and> s_blocks st1 = s_blocks st"
    proof (cases l)
      case (Suc deeper)
      then have run: "enumerate_edges max_paths max_steps target sb tb deeper source
          ((replicate (node_total st) False)[source := True]) [] 0 (out_edges (s_fabric st) source) st out = (st1, out1)"
        using one by (simp add: enumerate_depth_def)
      have "\<exists>rs. appends max_paths max_steps [] rs (st, out) (st1, out1)"
        unfolding run [symmetric] using enumerate_edges_appends [OF same_search_refl] by blast
      then have "same_search st st1" "s_enumeration_steps st \<le> s_enumeration_steps st1" by (auto simp: appends_def)
      moreover have "within_budget st \<longrightarrow> within_budget st1"
        using enumerate_edges_budget run by (metis fst_conv)
      ultimately show ?thesis by (rule same_search_moves)
    qed (use one in \<open>simp add: enumerate_depth_def\<close>)
    with Cons one show ?case by (auto split: if_splits intro: moves_trans)
  qed simp
  with assms show "moves st st'" "s_blocks st' = s_blocks st" by (auto simp: enumerate_paths_def Let_def)
qed

lemma shortest_path_moves:
  assumes "shortest_path st source target sb tb = (st', out)"
  shows "moves st st'" "s_blocks st' = s_blocks st"
proof -
  have "\<exists>e b. st' = st\<lparr>s_expansions := e, s_budget_exceeded := b\<rparr> \<and> s_expansions st \<le> e \<and>
      (s_expansions st \<le> s_max_expansions st \<longrightarrow> e \<le> s_max_expansions st)"
  proof (cases "source = target \<or> \<not> s_node_allowed st ! source")
    case True
    then have "st' = st" using assms by (auto simp: shortest_path_def split: if_splits)
    then show ?thesis by (intro exI [of _ "s_expansions st"] exI [of _ "s_budget_exceeded st"]) simp
  next
    case False
    with shortest_path_correct [OF _ _ assms] show ?thesis
      by (intro exI [of _ "s_expansions st'"] exI [of _ "s_budget_exceeded st \<or> so_budget_exceeded out"]) auto
  qed
  then show "moves st st'" "s_blocks st' = s_blocks st" by (auto simp: moves_def static_part_def blocks_ok_def)
qed

lemma block_nodes_frame:
  "bs_wf b \<Longrightarrow> bs_wf (fold block_node ns b) \<and> length (node_stamp (fold block_node ns b)) = length (node_stamp b) \<and>
     edge_stamp (fold block_node ns b) = edge_stamp b"
  by (induction ns arbitrary: b) (simp_all add: bs_wf_block, simp add: block_node_def)

lemma block_edges_length: "length (edge_stamp (fold block_edge es b)) = length (edge_stamp b)"
  by (induction es arbitrary: b) (simp_all add: block_edge_def)

lemma search_blocked_moves:
  assumes "search_blocked source target sb tb es ns st = (st', out)"
  shows "moves st st'"
proof -
  let ?b = "fold block_node ns (fold block_edge es (bs_reset (s_blocks st)))"
  have "moves st (st\<lparr>s_blocks := ?b\<rparr>)"
    by (rule moves_blocks)
      (simp add: blocks_ok_def block_nodes_frame block_edges_frame block_edges_length bs_wf_reset bs_reset_lengths)
  moreover have "moves (st\<lparr>s_blocks := ?b\<rparr>) st'" using assms shortest_path_moves(1) by (simp add: search_blocked_def)
  ultimately show ?thesis by (rule moves_trans)
qed

lemma pool_chain_moves:
  "pool_chain n cap source target sb tb es ns pool st = (st', ns', pool') \<Longrightarrow> moves st st'"
proof (induction n arbitrary: es ns pool st)
  case (Suc n)
  obtain st1 found where one: "search_blocked source target sb tb es ns st = (st1, found)" by fastforce
  from Suc search_blocked_moves [OF one] show ?case
    by (auto simp: one Let_def split: if_splits intro: moves_trans)
qed simp

lemma pool_extra_moves:
  "pool_extra source target sb tb pool blocks extra st = (st', extra') \<Longrightarrow> moves st st'"
proof (induction blocks arbitrary: extra st)
  case (Cons b blocks)
  obtain es ns where b: "b = (es, ns)" by fastforce
  obtain st1 found where one: "search_blocked source target sb tb es ns st = (st1, found)" by fastforce
  have "\<exists>extra1. pool_extra source target sb tb pool blocks extra1 st1 = (st', extra')"
    using Cons.prems by (auto simp: b one Let_def split: if_splits option.splits)
  with Cons.IH search_blocked_moves [OF one] show ?case by (auto intro: moves_trans)
qed simp

lemma build_pool_moves:
  assumes "build_pool st source target sb tb found limits = (st', pool)"
  shows "moves st st'" "blocks_ok st \<Longrightarrow> nothing_blocked st \<Longrightarrow> nothing_blocked st'"
proof -
  have "moves st st' \<and> (st' = st \<or> (\<exists>st4. moves st st4 \<and> st' = reset_blocks st4))"
  proof (cases "en_exhaustive found")
    case False
    let ?cap = "max_candidate_paths limits" and ?candidates = "enumerated_pool st source (en_paths found)"
    obtain st1 best where one: "shortest_path (reset_blocks st) source target sb tb = (st1, best)" by fastforce
    have m1: "moves st st1" using shortest_path_moves(1) [OF one] reset_blocks_moves moves_trans by blast
    have "\<exists>st4. moves st st4 \<and> st' = reset_blocks st4"
      using assms False m1
      by (auto simp: build_pool_def sampled_pool_def one Let_def split: if_splits prod.splits option.splits
          intro: moves_trans dest!: pool_chain_moves pool_extra_moves)
    then show ?thesis using reset_blocks_moves moves_trans by blast
  qed (use assms in \<open>simp add: build_pool_def\<close>)
  then show "moves st st'" "blocks_ok st \<Longrightarrow> nothing_blocked st \<Longrightarrow> nothing_blocked st'"
    by (auto simp: moves_def intro: reset_blocks_clear)
qed

lemma analyse_routes_moves:
  assumes "analyse_routes st source target sb tb limits plan = (st', plan')"
  shows "moves st st'" "blocks_ok st \<Longrightarrow> nothing_blocked st'"
proof -
  let ?run = "enumerate_paths (reset_blocks st) source target sb tb new_enumeration
      (max_exhaustive_paths limits) (max_enumeration_steps limits)"
  obtain st1 run where one: "?run = (st1, run)" by fastforce
  let ?found = "run\<lparr>en_exhaustive := en_exhaustive run \<and> \<not> en_step_limited run \<and>
      length (en_paths run) \<le> max_exhaustive_paths limits, en_paths := take (max_exhaustive_paths limits) (en_paths run)\<rparr>"
  obtain st2 pool where two: "build_pool st1 source target sb tb ?found limits = (st2, pool)" by fastforce
  have st': "st' = st2" using assms by (auto simp: analyse_routes_def one two Let_def split: if_splits)
  have m1: "moves (reset_blocks st) st1" by (rule enumerate_paths_moves(1) [OF one])
  note m = moves_trans [OF reset_blocks_moves m1]
  show "moves st st'" using m build_pool_moves(1) [OF two] unfolding st' by (rule moves_trans)
  assume ok: "blocks_ok st"
  then have "blocks_ok st1" using m by (simp add: moves_def)
  moreover have "nothing_blocked st1"
    using reset_blocks_clear [OF ok] enumerate_paths_moves(2) [OF one] static_partD(1) [OF moves_static [OF m1]]
    by (simp add: nothing_blocked_def)
  ultimately show "nothing_blocked st'" using build_pool_moves(2) [OF two] unfolding st' by blast
qed

lemma analyse_logical_edge_moves:
  assumes "analyse_logical_edge st r i limits = (st', plan)"
  shows "moves st st' \<and> (state_ok st \<longrightarrow> state_ok st')"
proof -
  have "st' = st \<or> (\<exists>source target sb tb plan0. analyse_routes st source target sb tb limits plan0 = (st', plan))"
    using assms by (auto simp: analyse_logical_edge_def Let_def split: option.splits if_splits)
  then show ?thesis
  proof (elim disjE exE)
    fix source target sb tb plan0
    assume "analyse_routes st source target sb tb limits plan0 = (st', plan)"
    note m = analyse_routes_moves [OF this]
    then show ?thesis using state_ok_moves [OF _ m(1) m(2)] by (auto simp: state_ok_def)
  qed simp
qed

lemma init_state_ok:
  "s_enumeration_steps (init_state r d b) = 0" "state_ok (init_state r d b)"
  by (simp_all add: init_state_def Let_def state_ok_def blocks_ok_def nothing_blocked_def bs_wf_def bs_resize_def
      node_blocked_def edge_blocked_def)

section \<open>What depends on the static part only\<close>

lemma static_functions:
  assumes "static_part st' = static_part st"
  shows "edge_target st' = edge_target st" "edge_statically_usable st' = edge_statically_usable st"
    "edge_carries_demand st' = edge_carries_demand st" "path_cost st' = path_cost st" "path_nodes st' = path_nodes st"
    "make_candidate st' = make_candidate st" "compatible st' = compatible st" "build_path_set st' = build_path_set st"
    "set_fits st' = set_fits st"
proof -
  note same = static_partD [OF assms]
  show t: "edge_target st' = edge_target st" by (simp add: edge_target_def fun_eq_iff same)
  show "edge_statically_usable st' = edge_statically_usable st" by (simp add: edge_statically_usable_def fun_eq_iff same)
  show "edge_carries_demand st' = edge_carries_demand st" by (simp add: edge_carries_demand_def fun_eq_iff same)
  show "path_cost st' = path_cost st" "path_nodes st' = path_nodes st"
    by (simp_all add: path_cost_def path_nodes_def fun_eq_iff same t)
  have "edges_form_simple_path st' seen used es = edges_form_simple_path st seen used es" for seen used es
    by (induction es arbitrary: seen used) (simp_all add: t split: option.split)
  moreover have "extend_candidate st' = extend_candidate st"
    by (intro ext) (simp add: extend_candidate_def same)
  ultimately show "make_candidate st' = make_candidate st" by (intro ext) (simp add: make_candidate_def same)
  show "compatible st' = compatible st" by (simp add: compatible_def fun_eq_iff same)
  show "build_path_set st' = build_path_set st" by (intro ext) (simp add: build_path_set_def same)
  show "set_fits st' = set_fits st" by (simp add: set_fits_def fun_eq_iff same)
qed


text \<open>Whatever is blocked, a hop that is usable is usable when nothing is.\<close>

lemma hop_unblocked:
  assumes "static_part st' = static_part st" "nothing_blocked st" "e < length (edges (s_fabric st))" "n < node_total st"
    "hop_usable st' e sb tb n"
  shows "hop_usable st e sb tb n"
  using assms(2-) static_partD [OF assms(1)] static_functions [OF assms(1)]
  by (auto simp: hop_usable_def nothing_blocked_def Let_def split: if_splits)

lemma feasible_unblocked:
  assumes static: "static_part st' = static_part st" and clear: "nothing_blocked st" and wf: "fabric_wf (s_fabric st)"
    and a: "a < node_total st" and p: "feasible_path st' sb tb a b p"
  shows "feasible_path st sb tb a b p"
proof -
  note same = static_partD [OF static] static_functions [OF static]
  have "connected st sb tb a p b" if "connected st' sb tb a p b" "a < node_total st" for a
    using that
  proof (induction p arbitrary: a)
    case (Cons e p)
    then obtain n where e: "e \<in> set (out_edges (s_fabric st) a)" "edge_target st e = Some n" "hop_usable st' e sb tb n"
      "connected st' sb tb n p b" by (auto simp: same)
    have n: "n < node_total st" by (rule edge_target_bound [OF wf e(2)])
    have "e < length (edges (s_fabric st))" using e(1) out_edges_exact [OF wf Cons.prems(2)] by simp
    from hop_unblocked [OF static clear this n e(3)] e Cons.IH [OF e(4) n] show ?case by auto
  qed simp
  with p a show ?thesis by (simp add: feasible_path_def same)
qed

lemma feasible_clear:
  assumes "static_part st' = static_part st" "nothing_blocked st" "nothing_blocked st'" "fabric_wf (s_fabric st)"
    "a < node_total st"
  shows "feasible_path st' sb tb a b p = feasible_path st sb tb a b p"
  using feasible_unblocked [OF assms(1,2,4,5)] feasible_unblocked [OF assms(1) [symmetric] assms(3)]
    static_partD(1) [OF assms(1)] assms(4,5) by auto

section \<open>Choices of routes\<close>

text \<open>
  A choice of paths for a logical edge: as many candidates as wanted, in the order of the objective,
  that are feasible, pairwise compatible and together within the spare capacity.
\<close>

definition candidate_of :: "planner_state \<Rightarrow> endpoint_binding \<Rightarrow> endpoint_binding \<Rightarrow> nat \<Rightarrow> nat \<Rightarrow> candidate \<Rightarrow> bool" where
  "candidate_of st sb tb source target c \<longleftrightarrow>
     (\<exists>p. feasible_path st sb tb source target p \<and> length p \<le> s_hop_limit st \<and> make_candidate st p source = Some c)"



lemma connected_simple:
  "connected st sb tb a p b \<Longrightarrow> distinct (path_nodes st p) \<Longrightarrow> set seen \<inter> set (path_nodes st p) = {} \<Longrightarrow>
   set used \<inter> set p = {} \<Longrightarrow> edges_form_simple_path st seen used p"
proof (induction p arbitrary: a seen used)
  case (Cons e p)
  then obtain n where n: "edge_target st e = Some n" "connected st sb tb n p b" by auto
  have nodes: "path_nodes st (e # p) = n # path_nodes st p" using n(1) by (simp add: path_nodes_def)
  have "e \<notin> set p" using Cons.prems(2) nodes n(1) by (force simp: path_nodes_def)
  then have "edges_form_simple_path st (seen @ [n]) (used @ [e]) p"
    using Cons.prems(2-4) nodes by (intro Cons.IH [OF n(2)]) auto
  with n Cons.prems nodes show ?case by auto
qed simp

lemma feasible_candidate:
  assumes "feasible_path st sb tb source target p" "length p \<le> max_hops (s_policy st)"
  shows "\<exists>c. make_candidate st p source = Some c"
proof -
  have "edges_form_simple_path st [source] [] p"
    using assms(1) by (intro connected_simple [of st sb tb source p target]) (auto simp: feasible_path_def)
  with assms(2) show ?thesis by (simp add: make_candidate_def Let_def split: prod.split)
qed

section \<open>The candidate pool\<close>












section \<open>A denial means that no choice exists\<close>






section \<open>The sampled pool\<close>


lemma pool_ok_static:
  assumes "static_part st' = static_part st" "nothing_blocked st" "nothing_blocked st'" "fabric_wf (s_fabric st)"
    "source < node_total st"
  shows "candidate_of st' sb tb source target = candidate_of st sb tb source target"
  using feasible_clear [OF assms] static_partD(8) [OF assms(1)] static_functions(6) [OF assms(1)]
  by (simp add: candidate_of_def fun_eq_iff)









section \<open>The verdict on a logical edge\<close>








section \<open>An example request\<close>





section \<open>Properties\<close>

text \<open>
  C21: the planner state stays well formed. The initial state of a request is well formed, and the
  analysis of any logical edge takes a well-formed state to a well-formed one: its vectors match the
  fabric, nothing stays blocked, the searches never exceed their budgets, and everything but the
  counters and block sets is unchanged.
\<close>

theorem analysis_keeps_state:
  assumes "state_ok st" "analyse_logical_edge st r i limits = (st', plan)"
  shows "state_ok (init_state r demand budget) \<and> state_ok st' \<and> static_part st' = static_part st \<and>
    s_expansions st \<le> s_expansions st' \<and> s_enumeration_steps st \<le> s_enumeration_steps st'"
  using analyse_logical_edge_moves [OF assms(2)] assms(1) init_state_ok(2) by (simp add: moves_def)

theorem analysis_keeps_state_witness:
  "state_ok (fst (analyse_logical_edge (init_state small_request 10 100) small_request 0 default_limits))"
proof -
  obtain st' plan where "analyse_logical_edge (init_state small_request 10 100) small_request 0 default_limits = (st', plan)"
    by fastforce
  with analysis_keeps_state [OF init_state_ok(2) this] show ?thesis by simp
qed



end
