(* ===== verification/Planner.thy ===== *)
theory Planner
  imports Global Denial
begin

text \<open>
  The entry points of the planner (\<open>plan_collective\<close> and \<open>find_path\<close> of
  \<open>src/planner.cpp\<close>) with their outcome type. Messages are not modelled; the witness vectors
  \<open>failure_domains\<close> and \<open>tiers\<close> of a denial are never filled by the code.
\<close>

section \<open>Outcomes\<close>

record denial_detail =
  dd_code :: error_code
  dd_kind :: denial_kind
  dd_conflict :: conflict_kind
  dd_logical_edge :: u64
  dd_participant :: participant_id
  dd_candidates :: nat
  dd_paths_enumerated :: nat
  dd_enumeration_exhaustive :: bool
  dd_nodes :: "node_id list"
  dd_edges :: "edge_id list"



record planning_outcome =
  oc_plan :: "plan option"
  oc_denials :: "denial_detail list"
  oc_search_expansions :: nat
  oc_enumeration_steps :: nat
  oc_paths_enumerated :: nat
  oc_combination_steps :: nat
  oc_global_search_nodes :: nat
  oc_optimal :: bool



definition outcome_ok :: "planning_outcome \<Rightarrow> bool" where
  "outcome_ok out \<longleftrightarrow> oc_plan out \<noteq> None"

definition primary_code :: "planning_outcome \<Rightarrow> error_code" where
  "primary_code out =
     (if oc_plan out \<noteq> None then kOk
      else if oc_denials out \<noteq> [] then dd_code (hd (oc_denials out)) else kInternalError)"

definition primary_kind :: "planning_outcome \<Rightarrow> denial_kind" where
  "primary_kind out = (if oc_denials out = [] then dnProvenInfeasible else dd_kind (hd (oc_denials out)))"

definition proven_infeasible :: "planning_outcome \<Rightarrow> bool" where
  "proven_infeasible out =
     (if outcome_ok out \<or> oc_denials out = [] then False
      else list_all (\<lambda>d. dd_kind d = dnProvenInfeasible \<or> dd_kind d = dnInvalidRequest \<or>
             dd_kind d = dnStaleInput \<or> dd_kind d = dnUnsupportedConstraint) (oc_denials out))"

definition indeterminate :: "planning_outcome \<Rightarrow> bool" where
  "indeterminate out =
     (if outcome_ok out then False else list_ex (\<lambda>d. dd_kind d = dnSearchLimitReached) (oc_denials out))"

section \<open>plan_collective\<close>





definition hop_of :: "fabric \<Rightarrow> nat \<Rightarrow> hop" where
  "hop_of g i = \<lparr>h_edge = e_id (edges g ! i), h_from = e_from (edges g ! i), h_to = e_to (edges g ! i)\<rparr>"









section \<open>find_path\<close>

definition unconstrained :: endpoint_binding where
  "unconstrained = \<lparr>b_participant = [], b_node = [], allowed_failure_domains = [], allowed_tiers = []\<rparr>"

definition find_path :: "planning_request \<Rightarrow> node_id \<Rightarrow> node_id \<Rightarrow> hop list result" where
  "find_path r source destination =
     (if \<not> is_ok (request_validate r) then Inl (request_validate r)
      else case node_index (r_fabric r) source of None \<Rightarrow> Inl kUnknownEndpointNode
      | Some source_index \<Rightarrow> (case node_index (r_fabric r) destination of None \<Rightarrow> Inl kUnknownEndpointNode
        | Some target_index \<Rightarrow>
            let (st, found) = shortest_path (init_state r 0 0) source_index target_index unconstrained unconstrained in
            if \<not> so_found found then Inl (if s_budget_exceeded st then kSearchBudgetExceeded else kNoPath)
            else let hops = map (hop_of (r_fabric r)) (so_edges found) in
              if \<not> hops_are_simple hops then Inl kInternalError else Inr hops))"

section \<open>Contracts of the entry points\<close>

lemma build_request_valid:
  assumes "build_request spec = Inr r"
  shows "is_ok (request_validate r)"
  using assms by (auto simp: build_request_def Let_def split: sum.splits if_splits)

text \<open>A connected sequence of edges is a walk in the fabric.\<close>

lemma connected_walk:
  assumes wf: "fabric_wf (s_fabric st)"
  shows "a < node_total st \<Longrightarrow> connected st sb tb a p b \<Longrightarrow>
    fabric_walk (s_fabric st) (n_id (nodes (s_fabric st) ! a)) (map (hop_of (s_fabric st)) p)
      (n_id (nodes (s_fabric st) ! b)) \<and>
    map h_to (map (hop_of (s_fabric st)) p) = map (\<lambda>n. n_id (nodes (s_fabric st) ! n)) (path_nodes st p)"
proof (induction p arbitrary: a)
  case (Cons e p)
  let ?g = "s_fabric st"
  from Cons.prems obtain n where e: "e \<in> set (out_edges ?g a)" "edge_target st e = Some n" "connected st sb tb n p b"
    by auto
  have edge: "e < length (edges ?g)" "e_from (edges ?g ! e) = n_id (nodes ?g ! a)"
    using e(1) out_edges_exact [OF wf] Cons.prems(1) by auto
  have n: "n < node_total st" "n_id (nodes ?g ! n) = e_to (edges ?g ! e)"
    using e(2) node_index_iff [OF wf] by (auto simp: edge_target_def)
  from Cons.IH [OF n(1) e(3)] edge n e(2) show ?case
    by (auto simp: hop_of_def path_nodes_def intro!: bexI [of _ "edges ?g ! e"])
qed (simp add: path_nodes_def)

lemma feasible_walk:
  assumes wf: "fabric_wf (s_fabric st)" and s: "s < node_total st"
    and p: "feasible_path st sb tb s t p"
  shows "fabric_walk (s_fabric st) (n_id (nodes (s_fabric st) ! s)) (map (hop_of (s_fabric st)) p)
      (n_id (nodes (s_fabric st) ! t))"
    "hops_are_simple (map (hop_of (s_fabric st)) p)"
proof -
  let ?g = "s_fabric st" and ?name = "\<lambda>n. n_id (nodes (s_fabric st) ! n)"
  from p have c: "connected st sb tb s p t" and d: "distinct (s # path_nodes st p)" by (auto simp: feasible_path_def)
  note walk = connected_walk [OF wf s c]
  then show w: "fabric_walk ?g (?name s) (map (hop_of ?g) p) (?name t)" by blast
  have bound: "set (path_nodes st q) \<subseteq> {..<node_total st}" if "connected st sb tb a q t" for a q
    using that
  proof (induction q arbitrary: a)
    case (Cons e q)
    then show ?case using edge_target_bound [OF wf, of e] by (auto simp: path_nodes_def)
  qed (simp add: path_nodes_def)
  have inj: "inj_on ?name {..<node_total st}"
    by (rule inj_onI) (use node_index_iff [OF wf] in \<open>metis lessThan_iff option.inject\<close>)
  have "set (s # path_nodes st p) \<subseteq> {..<node_total st}" using bound [OF c] s by simp
  then have "distinct (map ?name (s # path_nodes st p))"
    unfolding distinct_map using d inj_on_subset [OF inj] by blast
  then have "distinct (?name s # map h_to (map (hop_of ?g) p))" using walk by simp
  with w show "hops_are_simple (map (hop_of ?g) p)" using simple_walk_iff [OF wf] by blast
qed

lemma init_state_fields:
  "s_fabric (init_state r d b) = r_fabric r" "s_policy (init_state r d b) = r_policy r"
  "s_hop_limit (init_state r d b) = max_hops (r_policy r)" "s_expansions (init_state r d b) = 0"
  "s_max_expansions (init_state r d b) = max 1 (max_search_expansions (r_policy r))"
  "\<not> s_budget_exceeded (init_state r d b)" "s_demand (init_state r d b) = d"
  by (simp_all add: init_state_def Let_def)




lemma small_find_path_state:
  "init_state small_request 0 0 = small_state\<lparr>s_demand := 0, s_enumeration_budget := 0\<rparr>"
  by (simp add: init_state_def small_request_def small_state_def bare_request_def Let_def)

section \<open>Properties\<close>



text \<open>
  C9: \<open>find_path\<close> always decides within a budget of one expansion per node and hop count.
  Between distinct known nodes, with an eligible source, it returns a cheapest feasible path within
  the hop limit, as a simple walk in the fabric, or reports that no such path exists, or that its
  budget was spent, and the last only if the budget was smaller than that. It never reports an
  internal error.
\<close>

theorem find_path_decides:
  assumes "build_request spec = Inr r" "a \<noteq> b"
    and "node_index (r_fabric r) a = Some s" "node_index (r_fabric r) b = Some t"
    and "st = init_state r 0 0" "s_node_allowed st ! s"
    and "feasible = {p. feasible_path st unconstrained unconstrained s t p \<and> length p \<le> max_hops (r_policy r)}"
  shows "case find_path r a b of
      Inr hops \<Rightarrow> fabric_walk (r_fabric r) a hops b \<and> hops_are_simple hops \<and>
        (\<exists>p\<in>feasible. hops = map (hop_of (r_fabric r)) p \<and> (\<forall>q\<in>feasible. path_cost st 0 p \<le> path_cost st 0 q))
    | Inl e \<Rightarrow> e = kNoPath \<and> feasible = {} \<or>
        e = kSearchBudgetExceeded \<and>
        max_search_expansions (r_policy r) < length (nodes (r_fabric r)) * (max_hops (r_policy r) + 1)"
proof -
  let ?g = "r_fabric r"
  have wf: "fabric_wf (s_fabric st)" and g: "s_fabric st = ?g"
    using request_wfD(2) [OF build_request_wf [OF assms(1)]] by (simp_all add: assms(5) init_state_fields)
  have s: "s < node_total st" "n_id (nodes ?g ! s) = a" and t: "n_id (nodes ?g ! t) = b"
    using assms(3,4) node_index_iff [OF wf] g by auto
  have ne: "s \<noteq> t" using s t assms(2) by auto
  obtain st' out where run: "shortest_path st s t unconstrained unconstrained = (st', out)" by fastforce
  note c = shortest_path_correct [OF ne assms(6) run]
  have hop: "s_hop_limit st = max_hops (r_policy r)" by (simp add: assms(5) init_state_fields)
  have exceeded: "s_budget_exceeded st' = so_budget_exceeded out"
    using arg_cong [OF c(2), of s_budget_exceeded] by (simp add: assms(5) init_state_fields)
  have eq: "find_path r a b = (if \<not> so_found out then Inl (if so_budget_exceeded out then kSearchBudgetExceeded else kNoPath)
      else if \<not> hops_are_simple (map (hop_of ?g) (so_edges out)) then Inl kInternalError
      else Inr (map (hop_of ?g) (so_edges out)))"
    using build_request_valid [OF assms(1)] assms(3-5) run exceeded by (simp add: find_path_def)
  show ?thesis
  proof (cases "so_found out")
    case True
    with c(1) have p: "so_edges out \<in> feasible" "\<forall>q\<in>feasible. path_cost st 0 (so_edges out) \<le> path_cost st 0 q"
      by (auto simp: search_result_def assms(7) hop intro: less_imp_le)
    with feasible_walk [OF wf s(1)] True eq s(2) t g show ?thesis by (auto simp: assms(7))
  next
    case False
    show ?thesis
    proof (cases "so_budget_exceeded out")
      case True
      have "\<not> node_total st * (s_hop_limit st + 1) \<le> s_max_expansions st"
        using shortest_path_decides [OF wf s(1) ne _ run] True by (auto simp: assms(5) init_state_fields)
      with True False eq g hop show ?thesis by (simp add: assms(5) init_state_fields)
    next
      case notlimited: False
      with False c(1) have "feasible = {}" by (force simp: search_result_def assms(7) hop)
      with notlimited False eq show ?thesis by simp
    qed
  qed
qed

theorem find_path_decides_witness:
  "\<exists>hops. find_path small_request ''a'' ''b'' = Inr hops \<and> fabric_walk pair_fabric ''a'' hops ''b''"
proof -
  let ?st = "small_state\<lparr>s_demand := 0, s_enumeration_budget := 0\<rparr>"
  have facts: "node_index pair_fabric ''a'' = Some 0 \<and> node_index pair_fabric ''b'' = Some 1 \<and>
      s_node_allowed ?st ! 0 \<and> length (nodes pair_fabric) = 2" by code_simp
  have "0 \<in> set (out_edges (s_fabric ?st) 0) \<and> edge_target ?st 0 = Some 1 \<and>
      hop_usable ?st 0 unconstrained unconstrained 1 \<and> path_nodes ?st [0] = [1] \<and>
      path_cost ?st 0 [0] \<le> max_path_cost (s_policy ?st)" by code_simp
  then have feasible: "feasible_path ?st unconstrained unconstrained 0 1 [0]"
    by (simp add: feasible_path_def)
  have "max_hops (r_policy small_request) = 8" "r_fabric small_request = pair_fabric"
    "max_search_expansions (r_policy small_request) = 262144"
    by (simp_all add: small_request_def default_policy_def)
  with find_path_decides [OF small_request_built _ _ _ refl _ refl, of "''a''" "''b''" 0 1] facts feasible
  show ?thesis
    by (auto simp: small_find_path_state split: sum.splits)
qed

end
