(* ===== verification/Parser.thy ===== *)
theory Parser
  imports Buffer
begin

text \<open>
  Decoders that return at the first error. Most decoders of \<open>wire.cpp\<close> and
  \<open>persistence.cpp\<close> are written as a sequence of
  \<open>if (Status status = reader.u32(x); !status.is_ok()) { return status; }\<close>. Such a decoder is
  a function from a reader to an error or a value and the reader behind it; the reader an error
  leaves behind is dropped by every caller and is not modelled. \<open>field\<close> is one such line,
  \<open>then_read\<close> their sequence, \<open>checked\<close> a line followed by a test of the value that was read.

  The locale \<open>strict_parser\<close> is the contract of such a decoder: it succeeds exactly on the
  encodings of acceptable values and stops right behind them.
\<close>

section \<open>Operations\<close>

type_synonym 'a parser = "byte_reader \<Rightarrow> ('a \<times> byte_reader) result"

definition field :: "(byte_reader \<Rightarrow> 'a \<times> byte_reader) \<Rightarrow> 'a parser" where
  "field rd r =
     (let (x, r1) = rd r in
      if \<not> is_ok (rd_status r1) then Inl (rd_status r1) else Inr (x, r1))"

definition then_read :: "'a parser \<Rightarrow> ('a \<Rightarrow> byte_reader \<Rightarrow> 'b result) \<Rightarrow> byte_reader \<Rightarrow> 'b result" where
  "then_read p k r = (case p r of Inl e \<Rightarrow> Inl e | Inr (x, r1) \<Rightarrow> k x r1)"

definition checked :: "('a \<Rightarrow> bool) \<Rightarrow> error_code \<Rightarrow> 'a parser \<Rightarrow> 'a parser" where
  "checked accept e p = then_read p (\<lambda>x r. if accept x then Inr (x, r) else Inl e)"

fun read_items :: "'a parser \<Rightarrow> nat \<Rightarrow> 'a list parser" where
  "read_items item 0 r = Inr ([], r)"
| "read_items item (Suc n) r =
     then_read item (\<lambda>x. then_read (read_items item n) (\<lambda>xs r2. Inr (x # xs, r2))) r"

text \<open>\<open>reader.count(total, max_count)\<close> followed by the loop over the items.\<close>

definition read_counted :: "nat \<Rightarrow> 'a parser \<Rightarrow> 'a list parser" where
  "read_counted max_count item =
     then_read (field (get_count 0 max_count)) (\<lambda>total. read_items item (unat total))"

text \<open>\<open>reader.require_end()\<close>, then the decoded value is handed out.\<close>

definition finish :: "'a \<Rightarrow> byte_reader \<Rightarrow> 'a result" where
  "finish value r =
     (let r1 = require_end r in
      if \<not> is_ok (rd_status r1) then Inl (rd_status r1) else Inr value)"

section \<open>The contract\<close>

locale strict_parser =
  fixes enc :: "'a \<Rightarrow> bytes"
    and parse :: "byte_reader \<Rightarrow> (error_code + 'a \<times> byte_reader)"
    and ok :: "'a \<Rightarrow> bool"
  assumes parse_iff: "parse (reader_at pre bs) = Inr (x, r) \<longleftrightarrow>
    (\<exists>rest. bs = enc x @ rest \<and> ok x \<and> r = reader_at (pre @ enc x) rest)"
begin

lemma parses: "ok x \<Longrightarrow> parse (reader_at pre (enc x @ rest)) = Inr (x, reader_at (pre @ enc x) rest)"
  by (simp add: parse_iff)

lemma then_read_iff:
  "then_read parse k (reader_at pre bs) = Inr y \<longleftrightarrow>
   (\<exists>x rest. bs = enc x @ rest \<and> ok x \<and> k x (reader_at (pre @ enc x) rest) = Inr y)"
proof (cases "parse (reader_at pre bs)")
  case (Inl e)
  then have "\<not> (bs = enc x @ rest \<and> ok x)" for x rest using parses [of x pre rest] by auto
  with Inl show ?thesis by (auto simp: then_read_def)
next
  case (Inr p)
  obtain x r where p: "p = (x, r)" by (cases p)
  from Inr p have "\<exists>rest. bs = enc x @ rest \<and> ok x \<and> r = reader_at (pre @ enc x) rest"
    by (simp add: parse_iff)
  then obtain rest where rest: "bs = enc x @ rest" "ok x" "r = reader_at (pre @ enc x) rest" by blast
  have "x' = x \<and> rest' = rest" if "bs = enc x' @ rest'" "ok x'" for x' rest'
  proof -
    from parses [OF that(2), of pre rest'] that(1) Inr p have "x' = x" by simp
    with that(1) rest(1) show ?thesis by simp
  qed
  then have unique: "x' = x" "rest' = rest" if "bs = enc x' @ rest'" "ok x'" for x' rest'
    using that by blast+
  have run: "then_read parse k (reader_at pre bs) = k x (reader_at (pre @ enc x) rest)"
    by (simp add: then_read_def Inr p rest(3))
  show ?thesis
  proof
    assume "then_read parse k (reader_at pre bs) = Inr y"
    with run rest(1,2) show "\<exists>x rest. bs = enc x @ rest \<and> ok x \<and> k x (reader_at (pre @ enc x) rest) = Inr y"
      by (intro exI [of _ x] exI [of _ rest]) simp
  next
    assume "\<exists>x rest. bs = enc x @ rest \<and> ok x \<and> k x (reader_at (pre @ enc x) rest) = Inr y"
    then obtain x' rest' where "bs = enc x' @ rest'" "ok x'" "k x' (reader_at (pre @ enc x') rest') = Inr y"
      by blast
    with unique [of x' rest'] run show "then_read parse k (reader_at pre bs) = Inr y" by simp
  qed
qed

text \<open>The same steps forwards, on an input that is known to start with an encoding.\<close>

lemma then_read_at:
  "ok x \<Longrightarrow> then_read parse k (reader_at pre (enc x @ rest)) = k x (reader_at (pre @ enc x) rest)"
  by (simp add: then_read_def parses)

lemma then_read_last:
  "ok x \<Longrightarrow> then_read parse k (reader_at pre (enc x)) = k x (reader_at (pre @ enc x) [])"
  using then_read_at [of x k pre "[]"] by simp

lemmas steps = then_read_iff then_read_at then_read_last

lemma read_items_iff:
  "read_items parse n (reader_at pre bs) = Inr (xs, r) \<longleftrightarrow>
   (\<exists>rest. bs = concat (map enc xs) @ rest \<and> list_all ok xs \<and> length xs = n \<and>
      r = reader_at (pre @ concat (map enc xs)) rest)"
proof (induction n arbitrary: pre bs xs)
  case 0
  then show ?case by auto
next
  case (Suc n)
  have rest: "then_read (read_items parse n) (\<lambda>ys r2. Inr (x # ys, r2)) (reader_at pre' bs') = Inr (xs, r) \<longleftrightarrow>
      (\<exists>ys. xs = x # ys \<and> read_items parse n (reader_at pre' bs') = Inr (ys, r))" for x pre' bs'
    by (auto simp: then_read_def split: sum.splits)
  have "read_items parse (Suc n) (reader_at pre bs) = Inr (xs, r) \<longleftrightarrow>
      (\<exists>x rs ys rest'. bs = enc x @ rs \<and> ok x \<and> xs = x # ys \<and> rs = concat (map enc ys) @ rest' \<and>
         list_all ok ys \<and> length ys = n \<and> r = reader_at ((pre @ enc x) @ concat (map enc ys)) rest')"
    by (auto simp: then_read_iff rest Suc simp del: append_assoc)
  then show ?case by (cases xs) auto
qed

lemma strict_parser_checked:
  "strict_parser enc (checked accept e parse) (\<lambda>x. ok x \<and> accept x)"
  by standard (auto simp: checked_def then_read_iff)

end

lemma field_parser:
  assumes "strict_codec enc dec ok"
  shows "strict_parser enc (field dec) ok"
proof
  fix pre bs x r
  show "field dec (reader_at pre bs) = Inr (x, r) \<longleftrightarrow>
      (\<exists>rest. bs = enc x @ rest \<and> ok x \<and> r = reader_at (pre @ enc x) rest)"
  proof
    assume "field dec (reader_at pre bs) = Inr (x, r)"
    then have "dec (reader_at pre bs) = (x, r)" "is_ok (rd_status r)"
      by (auto simp: field_def Let_def split: prod.splits if_splits)
    then show "\<exists>rest. bs = enc x @ rest \<and> ok x \<and> r = reader_at (pre @ enc x) rest"
      by (rule strict_codec.accepts [OF assms])
  next
    assume "\<exists>rest. bs = enc x @ rest \<and> ok x \<and> r = reader_at (pre @ enc x) rest"
    then show "field dec (reader_at pre bs) = Inr (x, r)"
      using codec.decodes [OF strict_codec.axioms(1) [OF assms]] by (auto simp: field_def)
  qed
qed

lemma count_word_codec: "strict_codec put_u32 (get_count 0 n) (\<lambda>w. unat w \<le> n)"
proof
  show "get_count 0 n (reader_at pre (put_u32 w @ rest)) = (w, reader_at (pre @ put_u32 w) rest)"
    if "unat w \<le> n" for w pre rest
    using that by (simp add: get_count_def u32.decodes)
  show "snd (get_count 0 n r) = r" if "\<not> is_ok (rd_status r)" for r
    using that u32.sticky [OF that] by (simp add: get_count_def split_beta)
  fix pre bs w r
  assume *: "get_count 0 n (reader_at pre bs) = (w, r)" and ok: "is_ok (rd_status r)"
  obtain v r1 where v: "get_u32 0 (reader_at pre bs) = (v, r1)" by fastforce
  from * ok v have "v = w" "r1 = r" "unat w \<le> n"
    by (auto simp: get_count_def split: if_splits)
  with u32.accepts [OF v] ok
  show "\<exists>rest. bs = put_u32 w @ rest \<and> unat w \<le> n \<and> r = reader_at (pre @ put_u32 w) rest"
    by auto
qed

lemma counted_parser:
  fixes enc :: "'a \<Rightarrow> bytes"
  assumes item: "strict_parser enc parse ok" and small: "n < 2 ^ 32"
  shows "strict_parser (put_list enc) (read_counted n parse) (\<lambda>xs. length xs \<le> n \<and> list_all ok xs)"
proof
  fix pre bs r and xs :: "'a list"
  have len: "unat w = length xs \<longleftrightarrow> w = of_nat (length xs)" if "length xs \<le> n" for w :: u32
    using that small by (metis of_nat_unat_u32 order_le_less_trans unat_of_nat_u32)
  show "read_counted n parse (reader_at pre bs) = Inr (xs, r) \<longleftrightarrow>
      (\<exists>rest. bs = put_list enc xs @ rest \<and> (length xs \<le> n \<and> list_all ok xs) \<and>
         r = reader_at (pre @ put_list enc xs) rest)"
    unfolding read_counted_def strict_parser.then_read_iff [OF field_parser [OF count_word_codec]]
      strict_parser.read_items_iff [OF item] put_list_def
    using len small by (auto simp: unat_of_nat_u32 intro: exI [of _ "of_nat (length xs)"])
qed

lemma finish_iff [simp]: "finish value (reader_at pre bs) = Inr y \<longleftrightarrow> bs = [] \<and> y = value"
  by (auto simp: finish_def require_end_def Let_def)

text \<open>Reads that are tested once, after \<open>require_end\<close>.\<close>

lemma read_to_end_iff:
  assumes "strict_codec enc dec ok"
  shows "(\<exists>r. dec (new_reader bs) = (x, r) \<and> is_ok (rd_status (require_end r))) \<longleftrightarrow> bs = enc x \<and> ok x"
proof -
  have "(\<exists>r. dec (new_reader bs) = (x, r) \<and> is_ok (rd_status (require_end r))) \<longleftrightarrow>
      then_read (field dec) finish (new_reader bs) = Inr x"
    by (auto simp: then_read_def field_def finish_def require_end_def Let_def split: prod.splits if_splits)
  also have "\<dots> \<longleftrightarrow> bs = enc x \<and> ok x"
    by (auto simp: new_reader_at strict_parser.then_read_iff [OF field_parser [OF assms]])
  finally show ?thesis .
qed

section \<open>Fields\<close>

text \<open>One interpretation for every kind of field the decoders read.\<close>

interpretation u8_field: strict_parser put_u8 "field (get_u8 0)" "\<lambda>_. True"
  by (rule field_parser [OF u8.strict_codec_axioms])

interpretation u16_field: strict_parser put_u16 "field (get_u16 0)" "\<lambda>_. True"
  by (rule field_parser [OF u16.strict_codec_axioms])

interpretation u32_field: strict_parser put_u32 "field (get_u32 0)" "\<lambda>_. True"
  by (rule field_parser [OF u32.strict_codec_axioms])

interpretation u64_field: strict_parser put_u64 "field (get_u64 0)" "\<lambda>_. True"
  by (rule field_parser [OF u64.strict_codec_axioms])

interpretation boolean_field: strict_parser put_boolean "field (get_boolean False)" "\<lambda>_. True"
  by (rule field_parser [OF boolean.strict_codec_axioms])

interpretation digest_parser: strict_parser put_digest "field (get_digest [])" "\<lambda>d. length d = kDigestBytes"
  by (rule field_parser [OF digest.strict_codec_axioms])

lemma raw_codec: "strict_codec put_raw (get_raw [] n) (\<lambda>v. length v = n)"
proof
  show "get_raw [] n (reader_at pre (put_raw x @ rest)) = (x, reader_at (pre @ put_raw x) rest)"
    if "length x = n" for x pre rest
    using get_raw_at [of "[]" x pre rest] that by (simp add: put_raw_def)
qed (simp_all add: get_raw_sticky get_raw_accepts put_raw_def)

lemma raw_parser: "strict_parser put_raw (field (get_raw [] n)) (\<lambda>v. length v = n)"
  by (rule field_parser [OF raw_codec])

lemma string_parser:
  "n < 2 ^ 32 \<Longrightarrow> strict_parser put_string (field (get_string [] n)) (\<lambda>s. length s \<le> n)"
  by (rule field_parser [OF string_codec])

lemmas field_steps = u8_field.steps u16_field.steps u32_field.steps u64_field.steps
  boolean_field.steps digest_parser.steps

end
