(* ===== verification/Wire.thy ===== *)
theory Wire
  imports Parser Analyse
begin

text \<open>
  The transport format (\<open>include/cpath/wire.hpp\<close>, \<open>src/wire.cpp\<close>): frames with a checksummed
  header and a digest trailer, and the codecs of the typed payloads.

  A payload encoder appends to a \<open>ByteWriter\<close> and is modelled by the bytes it appends. A payload
  decoder returns a \<open>Status\<close> and, on success only, stores a value: it is modelled as a function
  from the reader to an error or that value. The \<open>catch (...)\<close> branches report failed
  allocations, which the model does not have, and the prose of the messages is not modelled.
\<close>

section \<open>Frame types\<close>

datatype frame_type =
    ftHello | ftHelloAck | ftPlanRequest | ftPlanResponse | ftGetPlanRequest | ftGetPlanResponse
  | ftStorePutRequest | ftStorePutResponse | ftListPlansRequest | ftListPlansResponse
  | ftRevalidateRequest | ftRevalidateResponse | ftPing | ftPong | ftError | ftShutdownRequest
  | ftShutdownAck | ftBye

primrec frame_type_value :: "frame_type \<Rightarrow> u16" where
  "frame_type_value ftHello = 1"
| "frame_type_value ftHelloAck = 2"
| "frame_type_value ftPlanRequest = 3"
| "frame_type_value ftPlanResponse = 4"
| "frame_type_value ftGetPlanRequest = 5"
| "frame_type_value ftGetPlanResponse = 6"
| "frame_type_value ftStorePutRequest = 7"
| "frame_type_value ftStorePutResponse = 8"
| "frame_type_value ftListPlansRequest = 9"
| "frame_type_value ftListPlansResponse = 10"
| "frame_type_value ftRevalidateRequest = 11"
| "frame_type_value ftRevalidateResponse = 12"
| "frame_type_value ftPing = 13"
| "frame_type_value ftPong = 14"
| "frame_type_value ftError = 15"
| "frame_type_value ftShutdownRequest = 16"
| "frame_type_value ftShutdownAck = 17"
| "frame_type_value ftBye = 18"

primrec to_string_frame :: "frame_type \<Rightarrow> string" where
  "to_string_frame ftHello = ''hello''"
| "to_string_frame ftHelloAck = ''hello_ack''"
| "to_string_frame ftPlanRequest = ''plan_request''"
| "to_string_frame ftPlanResponse = ''plan_response''"
| "to_string_frame ftGetPlanRequest = ''get_plan_request''"
| "to_string_frame ftGetPlanResponse = ''get_plan_response''"
| "to_string_frame ftStorePutRequest = ''store_put_request''"
| "to_string_frame ftStorePutResponse = ''store_put_response''"
| "to_string_frame ftListPlansRequest = ''list_plans_request''"
| "to_string_frame ftListPlansResponse = ''list_plans_response''"
| "to_string_frame ftRevalidateRequest = ''revalidate_request''"
| "to_string_frame ftRevalidateResponse = ''revalidate_response''"
| "to_string_frame ftPing = ''ping''"
| "to_string_frame ftPong = ''pong''"
| "to_string_frame ftError = ''error''"
| "to_string_frame ftShutdownRequest = ''shutdown_request''"
| "to_string_frame ftShutdownAck = ''shutdown_ack''"
| "to_string_frame ftBye = ''bye''"

definition frame_types :: "frame_type list" where
  "frame_types =
     [ftHello, ftHelloAck, ftPlanRequest, ftPlanResponse, ftGetPlanRequest, ftGetPlanResponse,
      ftStorePutRequest, ftStorePutResponse, ftListPlansRequest, ftListPlansResponse,
      ftRevalidateRequest, ftRevalidateResponse, ftPing, ftPong, ftError, ftShutdownRequest,
      ftShutdownAck, ftBye]"

text \<open>\<open>static_cast<FrameType>(raw)\<close> when \<open>raw\<close> is one of the enumerators.\<close>

definition frame_type_of :: "u16 \<Rightarrow> frame_type option" where
  "frame_type_of raw = List.find (\<lambda>t. frame_type_value t = raw) frame_types"

definition is_known_frame_type :: "u16 \<Rightarrow> bool" where
  "is_known_frame_type raw \<longleftrightarrow> frame_type_of raw \<noteq> None"

section \<open>Payloads\<close>

record hello_payload =
  hl_protocol_version :: u16
  hl_client_label :: string
  hl_observed_epoch :: u64

record hello_ack_payload =
  ha_protocol_version :: u16
  ha_session_id :: u64
  ha_epoch :: u64
  ha_incarnation :: u64
  ha_server_label :: string
  ha_max_frame_payload :: u32
  ha_max_pending_requests :: u64

record error_payload =
  er_code :: u16
  er_request_id :: u32
  er_message :: string

record plan_request_payload =
  pq_request_id :: u32
  pq_include_explanation :: bool
  pq_request_text :: string

record denial_payload =
  dp_code :: u16
  dp_kind :: u8
  dp_conflict :: u8
  dp_logical_edge :: u64
  dp_participant :: string
  dp_message :: string

record plan_response_payload =
  pr_request_id :: u32
  pr_code :: u16
  pr_has_plan :: bool
  pr_plan_record :: bytes
  pr_denials :: "denial_payload list"
  pr_explanation :: string
  pr_search_expansions :: u64

record get_plan_request_payload =
  gq_request_id :: u32
  gq_plan_id :: digest

record get_plan_response_payload =
  gr_request_id :: u32
  gr_code :: u16
  gr_has_plan :: bool
  gr_plan_record :: bytes
  gr_freshness :: u8

record list_plans_request_payload =
  lq_request_id :: u32

record plan_summary_payload =
  sp_plan_id :: digest
  sp_generation :: u64
  sp_collective :: string
  sp_kind :: u32
  sp_stored_sequence :: u64
  sp_record_bytes :: u64
  sp_freshness :: u8

record list_plans_response_payload =
  lr_request_id :: u32
  lr_code :: u16
  lr_plans :: "plan_summary_payload list"

record revalidate_request_payload =
  vq_request_id :: u32
  vq_plan_id :: digest
  vq_request_text :: string

record revalidate_response_payload =
  vr_request_id :: u32
  vr_code :: u16
  vr_still_valid :: bool
  vr_freshness :: u8
  vr_current_input_digest :: digest
  vr_detail :: string

record shutdown_request_payload =
  sq_request_id :: u32
  sq_expected_epoch :: u64

section \<open>Bounds and shared fields\<close>

definition kMaxLabelBytes :: nat where "kMaxLabelBytes = 128"
definition kMaxDenials :: nat where "kMaxDenials = 64"

primrec freshness_value :: "plan_freshness \<Rightarrow> u8" where
  "freshness_value kCurrent = 0"
| "freshness_value kStaleTopology = 1"
| "freshness_value kStaleFailureDomains = 2"
| "freshness_value kStaleCapacityEvidence = 3"
| "freshness_value kStalePolicy = 4"
| "freshness_value kStalePlan = 5"
| "freshness_value kUnverified = 6"

primrec conflict_value :: "conflict_kind \<Rightarrow> u8" where
  "conflict_value cfNone = 0"
| "conflict_value cfMissingBinding = 1"
| "conflict_value cfUnknownNode = 2"
| "conflict_value cfIneligibleEndpoint = 3"
| "conflict_value cfEndpointConstraint = 4"
| "conflict_value cfForbiddenNode = 5"
| "conflict_value cfForbiddenTier = 6"
| "conflict_value cfForbiddenFailureDomain = 7"
| "conflict_value cfHopLimit = 8"
| "conflict_value cfCostLimit = 9"
| "conflict_value cfDisconnected = 10"
| "conflict_value cfNoVerifiedCapacity = 11"
| "conflict_value cfInsufficientCapacity = 12"
| "conflict_value cfEvidenceInsufficient = 13"
| "conflict_value cfDisjointness = 14"
| "conflict_value cfDomainDiversity = 15"
| "conflict_value cfSearchBudget = 16"
| "conflict_value cfStructure = 17"

primrec denial_kind_value :: "denial_kind \<Rightarrow> u8" where
  "denial_kind_value dnInvalidRequest = 0"
| "denial_kind_value dnStaleInput = 1"
| "denial_kind_value dnProvenInfeasible = 2"
| "denial_kind_value dnSearchLimitReached = 3"
| "denial_kind_value dnUnsupportedConstraint = 4"

definition kMaxFreshness :: u8 where "kMaxFreshness = freshness_value kUnverified"
definition kMaxConflict :: u8 where "kMaxConflict = conflict_value cfStructure"

definition is_known_error_code :: "u32 \<Rightarrow> bool" where
  "is_known_error_code raw = is_defined_error_code raw"

definition read_error_code :: "u16 parser" where
  "read_error_code = checked (\<lambda>value. is_known_error_code (ucast value)) kInvalidSyntax (field (get_u16 0))"

definition read_freshness :: "u8 parser" where
  "read_freshness = checked (\<lambda>value. \<not> value > kMaxFreshness) kInvalidSyntax (field (get_u8 0))"

definition read_conflict :: "u8 parser" where
  "read_conflict = checked (\<lambda>value. \<not> value > kMaxConflict) kInvalidSyntax (field (get_u8 0))"

definition write_bytes :: "bytes \<Rightarrow> bytes" where
  "write_bytes value = put_u32 (of_nat (length value)) @ put_raw value"

definition read_bytes :: "nat \<Rightarrow> bytes parser" where
  "read_bytes max_bytes =
     then_read (checked (\<lambda>len. \<not> unat len > max_bytes) kStringTooLong (field (get_u32 0)))
       (\<lambda>len. field (get_raw [] (unat len)))"

definition encode_denial :: "denial_payload \<Rightarrow> bytes" where
  "encode_denial v =
     put_u16 (dp_code v) @ put_u8 (dp_kind v) @ put_u8 (dp_conflict v) @ put_u64 (dp_logical_edge v)
     @ put_string (dp_participant v) @ put_string (dp_message v)"

definition read_denial_kind :: "u8 parser" where
  "read_denial_kind =
     checked (\<lambda>value. \<not> value > denial_kind_value dnUnsupportedConstraint) kInvalidSyntax (field (get_u8 0))"

definition decode_denial :: "denial_payload parser" where
  "decode_denial =
     then_read read_error_code (\<lambda>code.
     then_read read_denial_kind (\<lambda>kind.
     then_read read_conflict (\<lambda>conflict.
     then_read (field (get_u64 0)) (\<lambda>logical_edge.
     then_read (field (get_string [] kMaxLabelBytes)) (\<lambda>participant.
     then_read (field (get_string [] kMaxDetailBytes)) (\<lambda>message r.
       Inr (\<lparr>dp_code = code, dp_kind = kind, dp_conflict = conflict, dp_logical_edge = logical_edge,
             dp_participant = participant, dp_message = message\<rparr>, r)))))))"

definition encode_plan_summary :: "plan_summary_payload \<Rightarrow> bytes" where
  "encode_plan_summary v =
     put_digest (sp_plan_id v) @ put_u64 (sp_generation v) @ put_string (sp_collective v)
     @ put_u32 (sp_kind v) @ put_u64 (sp_stored_sequence v) @ put_u64 (sp_record_bytes v)
     @ put_u8 (sp_freshness v)"

definition decode_plan_summary :: "plan_summary_payload parser" where
  "decode_plan_summary =
     then_read (field (get_digest [])) (\<lambda>plan_id.
     then_read (field (get_u64 0)) (\<lambda>generation.
     then_read (field (get_string [] kMaxLabelBytes)) (\<lambda>collective.
     then_read (field (get_u32 0)) (\<lambda>kind.
     then_read (field (get_u64 0)) (\<lambda>stored_sequence.
     then_read (field (get_u64 0)) (\<lambda>record_bytes.
     then_read read_freshness (\<lambda>freshness r.
       Inr (\<lparr>sp_plan_id = plan_id, sp_generation = generation, sp_collective = collective,
             sp_kind = kind, sp_stored_sequence = stored_sequence, sp_record_bytes = record_bytes,
             sp_freshness = freshness\<rparr>, r))))))))"

section \<open>Payload codecs\<close>

definition encode_hello :: "hello_payload \<Rightarrow> bytes" where
  "encode_hello v =
     put_u16 (hl_protocol_version v) @ put_string (hl_client_label v) @ put_u64 (hl_observed_epoch v)"

definition decode_hello :: "byte_reader \<Rightarrow> hello_payload result" where
  "decode_hello =
     then_read (field (get_u16 0)) (\<lambda>protocol_version.
     then_read (field (get_string [] kMaxLabelBytes)) (\<lambda>client_label.
     then_read (field (get_u64 0)) (\<lambda>observed_epoch.
       finish \<lparr>hl_protocol_version = protocol_version, hl_client_label = client_label,
               hl_observed_epoch = observed_epoch\<rparr>)))"

definition encode_hello_ack :: "hello_ack_payload \<Rightarrow> bytes" where
  "encode_hello_ack v =
     put_u16 (ha_protocol_version v) @ put_u64 (ha_session_id v) @ put_u64 (ha_epoch v)
     @ put_u64 (ha_incarnation v) @ put_string (ha_server_label v) @ put_u32 (ha_max_frame_payload v)
     @ put_u64 (ha_max_pending_requests v)"

definition decode_hello_ack :: "byte_reader \<Rightarrow> hello_ack_payload result" where
  "decode_hello_ack =
     then_read (field (get_u16 0)) (\<lambda>protocol_version.
     then_read (field (get_u64 0)) (\<lambda>session_id.
     then_read (field (get_u64 0)) (\<lambda>epoch.
     then_read (field (get_u64 0)) (\<lambda>incarnation.
     then_read (field (get_string [] kMaxLabelBytes)) (\<lambda>server_label.
     then_read (field (get_u32 0)) (\<lambda>max_frame_payload.
     then_read (field (get_u64 0)) (\<lambda>max_pending_requests.
       finish \<lparr>ha_protocol_version = protocol_version, ha_session_id = session_id, ha_epoch = epoch,
               ha_incarnation = incarnation, ha_server_label = server_label,
               ha_max_frame_payload = max_frame_payload,
               ha_max_pending_requests = max_pending_requests\<rparr>)))))))"

definition encode_error :: "error_payload \<Rightarrow> bytes" where
  "encode_error v = put_u16 (er_code v) @ put_u32 (er_request_id v) @ put_string (er_message v)"

definition decode_error :: "byte_reader \<Rightarrow> error_payload result" where
  "decode_error =
     then_read read_error_code (\<lambda>code.
     then_read (field (get_u32 0)) (\<lambda>request_id.
     then_read (field (get_string [] kMaxDetailBytes)) (\<lambda>message.
       finish \<lparr>er_code = code, er_request_id = request_id, er_message = message\<rparr>)))"

definition encode_plan_request :: "plan_request_payload \<Rightarrow> bytes" where
  "encode_plan_request v =
     put_u32 (pq_request_id v) @ put_boolean (pq_include_explanation v) @ put_string (pq_request_text v)"

definition decode_plan_request :: "byte_reader \<Rightarrow> plan_request_payload result" where
  "decode_plan_request =
     then_read (field (get_u32 0)) (\<lambda>request_id.
     then_read (field (get_boolean False)) (\<lambda>include_explanation.
     then_read (field (get_string [] kMaxFramePayloadBytes)) (\<lambda>request_text.
       finish \<lparr>pq_request_id = request_id, pq_include_explanation = include_explanation,
               pq_request_text = request_text\<rparr>)))"

definition encode_plan_response :: "plan_response_payload \<Rightarrow> bytes" where
  "encode_plan_response v =
     put_u32 (pr_request_id v) @ put_u16 (pr_code v) @ put_boolean (pr_has_plan v)
     @ write_bytes (pr_plan_record v) @ put_list encode_denial (pr_denials v)
     @ put_string (pr_explanation v) @ put_u64 (pr_search_expansions v)"

definition decode_plan_response :: "byte_reader \<Rightarrow> plan_response_payload result" where
  "decode_plan_response =
     then_read (field (get_u32 0)) (\<lambda>request_id.
     then_read read_error_code (\<lambda>code.
     then_read (field (get_boolean False)) (\<lambda>has_plan.
     then_read (read_bytes kMaxPlanRecordBytes) (\<lambda>plan_record.
     then_read (read_counted kMaxDenials decode_denial) (\<lambda>denials.
     then_read (field (get_string [] kMaxFramePayloadBytes)) (\<lambda>explanation.
     then_read (field (get_u64 0)) (\<lambda>search_expansions.
       finish \<lparr>pr_request_id = request_id, pr_code = code, pr_has_plan = has_plan,
               pr_plan_record = plan_record, pr_denials = denials, pr_explanation = explanation,
               pr_search_expansions = search_expansions\<rparr>)))))))"

definition encode_get_plan_request :: "get_plan_request_payload \<Rightarrow> bytes" where
  "encode_get_plan_request v = put_u32 (gq_request_id v) @ put_digest (gq_plan_id v)"

definition decode_get_plan_request :: "byte_reader \<Rightarrow> get_plan_request_payload result" where
  "decode_get_plan_request =
     then_read (field (get_u32 0)) (\<lambda>request_id.
     then_read (field (get_digest [])) (\<lambda>plan_id.
       finish \<lparr>gq_request_id = request_id, gq_plan_id = plan_id\<rparr>))"

definition encode_get_plan_response :: "get_plan_response_payload \<Rightarrow> bytes" where
  "encode_get_plan_response v =
     put_u32 (gr_request_id v) @ put_u16 (gr_code v) @ put_boolean (gr_has_plan v)
     @ write_bytes (gr_plan_record v) @ put_u8 (gr_freshness v)"

definition decode_get_plan_response :: "byte_reader \<Rightarrow> get_plan_response_payload result" where
  "decode_get_plan_response =
     then_read (field (get_u32 0)) (\<lambda>request_id.
     then_read read_error_code (\<lambda>code.
     then_read (field (get_boolean False)) (\<lambda>has_plan.
     then_read (read_bytes kMaxPlanRecordBytes) (\<lambda>plan_record.
     then_read read_freshness (\<lambda>freshness.
       finish \<lparr>gr_request_id = request_id, gr_code = code, gr_has_plan = has_plan,
               gr_plan_record = plan_record, gr_freshness = freshness\<rparr>)))))"

definition encode_list_plans_request :: "list_plans_request_payload \<Rightarrow> bytes" where
  "encode_list_plans_request v = put_u32 (lq_request_id v)"

definition decode_list_plans_request :: "byte_reader \<Rightarrow> list_plans_request_payload result" where
  "decode_list_plans_request =
     then_read (field (get_u32 0)) (\<lambda>request_id. finish \<lparr>lq_request_id = request_id\<rparr>)"

definition encode_list_plans_response :: "list_plans_response_payload \<Rightarrow> bytes" where
  "encode_list_plans_response v =
     put_u32 (lr_request_id v) @ put_u16 (lr_code v) @ put_list encode_plan_summary (lr_plans v)"

definition decode_list_plans_response :: "byte_reader \<Rightarrow> list_plans_response_payload result" where
  "decode_list_plans_response =
     then_read (field (get_u32 0)) (\<lambda>request_id.
     then_read read_error_code (\<lambda>code.
     then_read (read_counted kMaxStoreRecords decode_plan_summary) (\<lambda>plans.
       finish \<lparr>lr_request_id = request_id, lr_code = code, lr_plans = plans\<rparr>)))"

definition encode_revalidate_request :: "revalidate_request_payload \<Rightarrow> bytes" where
  "encode_revalidate_request v =
     put_u32 (vq_request_id v) @ put_digest (vq_plan_id v) @ put_string (vq_request_text v)"

definition decode_revalidate_request :: "byte_reader \<Rightarrow> revalidate_request_payload result" where
  "decode_revalidate_request =
     then_read (field (get_u32 0)) (\<lambda>request_id.
     then_read (field (get_digest [])) (\<lambda>plan_id.
     then_read (field (get_string [] kMaxFramePayloadBytes)) (\<lambda>request_text.
       finish \<lparr>vq_request_id = request_id, vq_plan_id = plan_id, vq_request_text = request_text\<rparr>)))"

definition encode_revalidate_response :: "revalidate_response_payload \<Rightarrow> bytes" where
  "encode_revalidate_response v =
     put_u32 (vr_request_id v) @ put_u16 (vr_code v) @ put_boolean (vr_still_valid v)
     @ put_u8 (vr_freshness v) @ put_digest (vr_current_input_digest v) @ put_string (vr_detail v)"

definition decode_revalidate_response :: "byte_reader \<Rightarrow> revalidate_response_payload result" where
  "decode_revalidate_response =
     then_read (field (get_u32 0)) (\<lambda>request_id.
     then_read read_error_code (\<lambda>code.
     then_read (field (get_boolean False)) (\<lambda>still_valid.
     then_read read_freshness (\<lambda>freshness.
     then_read (field (get_digest [])) (\<lambda>current_input_digest.
     then_read (field (get_string [] kMaxDetailBytes)) (\<lambda>detail.
       finish \<lparr>vr_request_id = request_id, vr_code = code, vr_still_valid = still_valid,
               vr_freshness = freshness, vr_current_input_digest = current_input_digest,
               vr_detail = detail\<rparr>))))))"

definition encode_shutdown_request :: "shutdown_request_payload \<Rightarrow> bytes" where
  "encode_shutdown_request v = put_u32 (sq_request_id v) @ put_u64 (sq_expected_epoch v)"

definition decode_shutdown_request :: "byte_reader \<Rightarrow> shutdown_request_payload result" where
  "decode_shutdown_request =
     then_read (field (get_u32 0)) (\<lambda>request_id.
     then_read (field (get_u64 0)) (\<lambda>expected_epoch.
       finish \<lparr>sq_request_id = request_id, sq_expected_epoch = expected_epoch\<rparr>))"

section \<open>Frames\<close>

definition kFrameMagic :: u32 where "kFrameMagic = 0x31505043"
definition kFrameHeaderBytes :: nat where "kFrameHeaderBytes = 56"
definition kFrameTrailerBytes :: nat where "kFrameTrailerBytes = 32"
definition kHeaderCrcCoverageBytes :: nat where "kHeaderCrcCoverageBytes = 36"

record frame_header =
  fh_magic :: u32
  fh_version :: u16
  fh_type :: frame_type
  fh_flags :: u32
  fh_sequence :: u64
  fh_epoch :: u64
  fh_payload_length :: u32
  fh_header_crc :: u32
  fh_session_id :: u64
  fh_request_id :: u32
  fh_reserved :: u32

record frame =
  fr_header :: frame_header
  fr_payload :: bytes

text \<open>The header up to and including the alignment word \<open>w\<close>, and what follows the checksum.\<close>

definition header_prefix :: "u16 \<Rightarrow> u32 \<Rightarrow> frame_header \<Rightarrow> bytes" where
  "header_prefix raw_type w h =
     put_u32 (fh_magic h) @ put_u16 (fh_version h) @ put_u16 raw_type @ put_u32 (fh_flags h)
     @ put_u64 (fh_sequence h) @ put_u64 (fh_epoch h) @ put_u32 (fh_payload_length h) @ put_u32 w"

definition header_suffix :: "frame_header \<Rightarrow> bytes" where
  "header_suffix h =
     put_u32 (fh_header_crc h) @ put_u64 (fh_session_id h) @ put_u32 (fh_request_id h)
     @ put_u32 (fh_reserved h)"

text \<open>The header \<open>encode_frame\<close> writes instead of the caller's.\<close>

definition canonical_header :: "frame_header \<Rightarrow> bytes \<Rightarrow> frame_header" where
  "canonical_header header payload =
     (let canonical = header\<lparr>fh_magic := kFrameMagic, fh_version := kWireProtocolVersion,
            fh_payload_length := of_nat (length payload), fh_reserved := 0\<rparr> in
      canonical\<lparr>fh_header_crc :=
        crc32 (header_prefix (frame_type_value (fh_type canonical)) 0 canonical)\<rparr>)"

definition encode_frame :: "frame_header \<Rightarrow> bytes \<Rightarrow> bytes" where
  "encode_frame header payload =
     (if length payload > kMaxFramePayloadBytes then []
      else let canonical = canonical_header header payload;
               frame = header_prefix (frame_type_value (fh_type canonical)) 0 canonical
                 @ header_suffix canonical @ payload in
        frame @ sha256_hash frame)"

definition read_header :: "byte_reader \<Rightarrow> (frame_header \<times> u16) result" where
  "read_header =
     then_read (field (get_u32 0)) (\<lambda>magic.
     then_read (field (get_u16 0)) (\<lambda>version.
     then_read (field (get_u16 0)) (\<lambda>raw_type.
     then_read (field (get_u32 0)) (\<lambda>flags.
     then_read (field (get_u64 0)) (\<lambda>sequence.
     then_read (field (get_u64 0)) (\<lambda>epoch.
     then_read (field (get_u32 0)) (\<lambda>payload_length.
     then_read (field (get_u32 0)) (\<lambda>future_word.
     then_read (field (get_u32 0)) (\<lambda>header_crc.
     then_read (field (get_u64 0)) (\<lambda>session_id.
     then_read (field (get_u32 0)) (\<lambda>request_id.
     then_read (field (get_u32 0)) (\<lambda>reserved.
       finish (\<lparr>fh_magic = magic, fh_version = version, fh_type = ftPing, fh_flags = flags,
                fh_sequence = sequence, fh_epoch = epoch, fh_payload_length = payload_length,
                fh_header_crc = header_crc, fh_session_id = session_id, fh_request_id = request_id,
                fh_reserved = reserved\<rparr>, raw_type)))))))))))))"

text \<open>The result and the number of bytes consumed.\<close>

definition decode_frame_header :: "bytes \<Rightarrow> frame_header result \<times> nat" where
  "decode_frame_header bs =
     (if length bs < kFrameHeaderBytes then (Inl kTruncatedRecord, 0)
      else case read_header (new_reader (take kFrameHeaderBytes bs)) of
        Inl e \<Rightarrow> (Inl e, 0)
      | Inr (header, raw_type) \<Rightarrow>
          if fh_magic header \<noteq> kFrameMagic then (Inl kBadMagic, 0)
          else if fh_version header \<noteq> kWireProtocolVersion then (Inl kBadProtocolVersion, 0)
          else if \<not> is_known_frame_type raw_type then (Inl kUnexpectedFrameType, 0)
          else if fh_reserved header \<noteq> 0 then (Inl kInvalidSyntax, 0)
          else if crc32 (take kHeaderCrcCoverageBytes bs) \<noteq> fh_header_crc header
            then (Inl kBadHeaderChecksum, 0)
          else if unat (fh_payload_length header) > kMaxFramePayloadBytes then (Inl kFrameTooLarge, 0)
          else (Inr (header\<lparr>fh_type := the (frame_type_of raw_type)\<rparr>), kFrameHeaderBytes))"

definition decode_frame :: "bytes \<Rightarrow> frame result" where
  "decode_frame bs =
     (case fst (decode_frame_header bs) of
        Inl e \<Rightarrow> Inl e
      | Inr header \<Rightarrow>
          let payload_bytes = unat (fh_payload_length header);
              body_bytes = kFrameHeaderBytes + payload_bytes;
              total_bytes = body_bytes + kFrameTrailerBytes in
          if length bs < total_bytes then Inl kTruncatedRecord
          else if length bs > total_bytes then Inl kTrailingGarbage
          else if take kFrameTrailerBytes (drop body_bytes bs) \<noteq> sha256_hash (take body_bytes bs)
            then Inl kBadPayloadDigest
          else Inr \<lparr>fr_header = header, fr_payload = take payload_bytes (drop kFrameHeaderBytes bs)\<rparr>)"

section \<open>The contracts of the payload codecs\<close>

definition known_code :: "u16 \<Rightarrow> bool" where
  "known_code v \<longleftrightarrow> is_known_error_code (ucast v)"

interpretation code_field: strict_parser put_u16 read_error_code known_code
  using u16_field.strict_parser_checked [of "\<lambda>v. is_known_error_code (ucast v)" kInvalidSyntax]
  by (simp add: read_error_code_def known_code_def [abs_def])

interpretation freshness_field: strict_parser put_u8 read_freshness "\<lambda>v. v \<le> kMaxFreshness"
  using u8_field.strict_parser_checked [of "\<lambda>v. \<not> v > kMaxFreshness" kInvalidSyntax]
  by (simp add: read_freshness_def not_less)

interpretation conflict_field: strict_parser put_u8 read_conflict "\<lambda>v. v \<le> kMaxConflict"
  using u8_field.strict_parser_checked [of "\<lambda>v. \<not> v > kMaxConflict" kInvalidSyntax]
  by (simp add: read_conflict_def not_less)

interpretation denial_kind_field: strict_parser put_u8 read_denial_kind
    "\<lambda>v. v \<le> denial_kind_value dnUnsupportedConstraint"
  using u8_field.strict_parser_checked
    [of "\<lambda>k. \<not> k > denial_kind_value dnUnsupportedConstraint" kInvalidSyntax]
  by (simp add: read_denial_kind_def not_less)

interpretation label_field: strict_parser put_string "field (get_string [] kMaxLabelBytes)"
    "\<lambda>s. length s \<le> kMaxLabelBytes"
  by (rule string_parser) (simp add: kMaxLabelBytes_def)

interpretation detail_field: strict_parser put_string "field (get_string [] kMaxDetailBytes)"
    "\<lambda>s. length s \<le> kMaxDetailBytes"
  by (rule string_parser) (simp add: limit_defs)

interpretation text_field: strict_parser put_string "field (get_string [] kMaxFramePayloadBytes)"
    "\<lambda>s. length s \<le> kMaxFramePayloadBytes"
  by (rule string_parser) (simp add: limit_defs)

interpretation record_field: strict_parser write_bytes "read_bytes kMaxPlanRecordBytes"
    "\<lambda>v. length v \<le> kMaxPlanRecordBytes"
proof
  fix pre bs r and x :: bytes
  note len = u32_field.strict_parser_checked [of "\<lambda>len. \<not> unat len > kMaxPlanRecordBytes" kStringTooLong]
  have small: "unat (of_nat n :: u32) = n" if "n \<le> kMaxPlanRecordBytes" for n
    using that by (intro unat_of_nat_u32) (simp add: limit_defs)
  have word: "w = of_nat (length x) \<and> length x \<le> kMaxPlanRecordBytes"
    if "length x = unat w" "\<not> unat w > kMaxPlanRecordBytes" for w :: u32
    using that by simp
  show "read_bytes kMaxPlanRecordBytes (reader_at pre bs) = Inr (x, r) \<longleftrightarrow>
      (\<exists>rest. bs = write_bytes x @ rest \<and> length x \<le> kMaxPlanRecordBytes \<and>
         r = reader_at (pre @ write_bytes x) rest)"
    unfolding read_bytes_def strict_parser.then_read_iff [OF len]
      strict_parser.parse_iff [OF raw_parser] write_bytes_def
    using small [of "length x"] word by (auto simp: not_less intro: exI [of _ "of_nat (length x)"])
qed

lemmas wire_fields = field_steps code_field.steps freshness_field.steps
  conflict_field.steps denial_kind_field.steps label_field.steps
  detail_field.steps text_field.steps record_field.steps

definition denial_ok :: "denial_payload \<Rightarrow> bool" where
  "denial_ok v \<longleftrightarrow> known_code (dp_code v) \<and> dp_kind v \<le> denial_kind_value dnUnsupportedConstraint \<and>
     dp_conflict v \<le> kMaxConflict \<and> length (dp_participant v) \<le> kMaxLabelBytes \<and>
     length (dp_message v) \<le> kMaxDetailBytes"

interpretation denial_item: strict_parser encode_denial decode_denial denial_ok
proof
  fix pre bs x r
  show "decode_denial (reader_at pre bs) = Inr (x, r) \<longleftrightarrow>
      (\<exists>rest. bs = encode_denial x @ rest \<and> denial_ok x \<and> r = reader_at (pre @ encode_denial x) rest)"
    unfolding denial_ok_def
    by (cases x) (rule iffI; (elim exE conjE)?; auto simp: decode_denial_def wire_fields encode_denial_def)
qed

definition summary_ok :: "plan_summary_payload \<Rightarrow> bool" where
  "summary_ok v \<longleftrightarrow> length (sp_plan_id v) = kDigestBytes \<and>
     length (sp_collective v) \<le> kMaxLabelBytes \<and> sp_freshness v \<le> kMaxFreshness"

interpretation summary_item: strict_parser encode_plan_summary decode_plan_summary summary_ok
proof
  fix pre bs x r
  show "decode_plan_summary (reader_at pre bs) = Inr (x, r) \<longleftrightarrow>
      (\<exists>rest. bs = encode_plan_summary x @ rest \<and> summary_ok x \<and>
         r = reader_at (pre @ encode_plan_summary x) rest)"
    unfolding summary_ok_def
    by (cases x) (rule iffI; (elim exE conjE)?; auto simp: decode_plan_summary_def wire_fields encode_plan_summary_def)
qed

interpretation denial_vector: strict_parser "put_list encode_denial" "read_counted kMaxDenials decode_denial"
    "\<lambda>xs. length xs \<le> kMaxDenials \<and> list_all denial_ok xs"
  by (rule counted_parser [OF denial_item.strict_parser_axioms]) (simp add: kMaxDenials_def)

interpretation summary_vector: strict_parser "put_list encode_plan_summary"
    "read_counted kMaxStoreRecords decode_plan_summary"
    "\<lambda>xs. length xs \<le> kMaxStoreRecords \<and> list_all summary_ok xs"
  by (rule counted_parser [OF summary_item.strict_parser_axioms]) (simp add: limit_defs)

lemmas wire_vectors = denial_vector.steps summary_vector.steps

text \<open>The values a payload may have: the bounds its decoder enforces.\<close>

definition hello_ok :: "hello_payload \<Rightarrow> bool" where
  "hello_ok v \<longleftrightarrow> length (hl_client_label v) \<le> kMaxLabelBytes"

definition hello_ack_ok :: "hello_ack_payload \<Rightarrow> bool" where
  "hello_ack_ok v \<longleftrightarrow> length (ha_server_label v) \<le> kMaxLabelBytes"

definition error_ok :: "error_payload \<Rightarrow> bool" where
  "error_ok v \<longleftrightarrow> known_code (er_code v) \<and> length (er_message v) \<le> kMaxDetailBytes"

definition plan_request_ok :: "plan_request_payload \<Rightarrow> bool" where
  "plan_request_ok v \<longleftrightarrow> length (pq_request_text v) \<le> kMaxFramePayloadBytes"

definition plan_response_ok :: "plan_response_payload \<Rightarrow> bool" where
  "plan_response_ok v \<longleftrightarrow> known_code (pr_code v) \<and> length (pr_plan_record v) \<le> kMaxPlanRecordBytes \<and>
     length (pr_denials v) \<le> kMaxDenials \<and> list_all denial_ok (pr_denials v) \<and>
     length (pr_explanation v) \<le> kMaxFramePayloadBytes"

definition get_plan_response_ok :: "get_plan_response_payload \<Rightarrow> bool" where
  "get_plan_response_ok v \<longleftrightarrow> known_code (gr_code v) \<and>
     length (gr_plan_record v) \<le> kMaxPlanRecordBytes \<and> gr_freshness v \<le> kMaxFreshness"

definition list_plans_response_ok :: "list_plans_response_payload \<Rightarrow> bool" where
  "list_plans_response_ok v \<longleftrightarrow> known_code (lr_code v) \<and> length (lr_plans v) \<le> kMaxStoreRecords \<and>
     list_all summary_ok (lr_plans v)"

definition revalidate_request_ok :: "revalidate_request_payload \<Rightarrow> bool" where
  "revalidate_request_ok v \<longleftrightarrow> length (vq_plan_id v) = kDigestBytes \<and>
     length (vq_request_text v) \<le> kMaxFramePayloadBytes"

definition revalidate_response_ok :: "revalidate_response_payload \<Rightarrow> bool" where
  "revalidate_response_ok v \<longleftrightarrow> known_code (vr_code v) \<and> vr_freshness v \<le> kMaxFreshness \<and>
     length (vr_current_input_digest v) = kDigestBytes \<and> length (vr_detail v) \<le> kMaxDetailBytes"

section \<open>The contract of the frame codec\<close>

lemma frame_type_of_value [simp]: "frame_type_of (frame_type_value t) = Some t"
  by (cases t) (simp_all add: frame_type_of_def frame_types_def)

lemma frame_type_of_Some: "frame_type_of raw = Some t \<longleftrightarrow> raw = frame_type_value t"
proof
  show "raw = frame_type_value t" if "frame_type_of raw = Some t"
    using that by (auto simp: frame_type_of_def find_Some_iff)
qed simp

lemma known_frame_type_iff: "is_known_frame_type raw \<longleftrightarrow> (\<exists>t. raw = frame_type_value t)"
  by (auto simp: is_known_frame_type_def frame_type_of_Some)

lemma length_header [simp]:
  "length (header_prefix raw w h) = 36" "length (header_suffix h) = 20"
  by (simp_all add: header_prefix_def header_suffix_def)

lemma header_prefix_type [simp]: "header_prefix raw w (h\<lparr>fh_type := t\<rparr>) = header_prefix raw w h"
  by (simp add: header_prefix_def)

lemma header_suffix_type [simp]: "header_suffix (h\<lparr>fh_type := t\<rparr>) = header_suffix h"
  by (simp add: header_suffix_def)

lemma read_header_iff:
  "read_header (reader_at pre bs) = Inr (h, raw) \<longleftrightarrow>
   (\<exists>w. bs = header_prefix raw w h @ header_suffix h \<and> fh_type h = ftPing)"
  by (cases h) (rule iffI; (elim exE conjE)?; auto simp: read_header_def field_steps header_prefix_def header_suffix_def)

definition header_ok :: "u32 \<Rightarrow> frame_header \<Rightarrow> bool" where
  "header_ok w h \<longleftrightarrow> fh_magic h = kFrameMagic \<and> fh_version h = kWireProtocolVersion \<and>
     fh_reserved h = 0 \<and> unat (fh_payload_length h) \<le> kMaxFramePayloadBytes \<and>
     fh_header_crc h = crc32 (header_prefix (frame_type_value (fh_type h)) w h)"

lemma decode_frame_header_iff:
  "decode_frame_header bs = (Inr h, n) \<longleftrightarrow> n = kFrameHeaderBytes \<and>
   (\<exists>w rest. bs = header_prefix (frame_type_value (fh_type h)) w h @ header_suffix h @ rest \<and> header_ok w h)"
proof
  assume *: "decode_frame_header bs = (Inr h, n)"
  then obtain h0 raw where len: "kFrameHeaderBytes \<le> length bs"
    and read: "read_header (new_reader (take kFrameHeaderBytes bs)) = Inr (h0, raw)"
    by (auto simp: decode_frame_header_def not_less split: if_splits sum.splits)
  from read obtain w where w: "take kFrameHeaderBytes bs = header_prefix raw w h0 @ header_suffix h0"
    by (auto simp: new_reader_at read_header_iff)
  have "take kHeaderCrcCoverageBytes bs = take kHeaderCrcCoverageBytes (take kFrameHeaderBytes bs)"
    by (simp add: kHeaderCrcCoverageBytes_def kFrameHeaderBytes_def)
  also have "\<dots> = header_prefix raw w h0"
    unfolding w by (simp add: kHeaderCrcCoverageBytes_def)
  finally have crc: "take kHeaderCrcCoverageBytes bs = header_prefix raw w h0" .
  from * len read crc have ok: "fh_magic h0 = kFrameMagic" "fh_version h0 = kWireProtocolVersion"
      "fh_reserved h0 = 0" "unat (fh_payload_length h0) \<le> kMaxFramePayloadBytes"
      "fh_header_crc h0 = crc32 (header_prefix raw w h0)"
    and known: "is_known_frame_type raw"
    and h: "h = h0\<lparr>fh_type := the (frame_type_of raw)\<rparr>" and n: "n = kFrameHeaderBytes"
    by (auto simp: decode_frame_header_def split: if_splits)
  from known obtain t where t: "raw = frame_type_value t" by (auto simp: known_frame_type_iff)
  have bs: "bs = (header_prefix raw w h0 @ header_suffix h0) @ drop kFrameHeaderBytes bs"
    unfolding w [symmetric] by simp
  then have "bs = header_prefix (frame_type_value (fh_type h)) w h @ header_suffix h @ drop kFrameHeaderBytes bs"
    by (simp add: h t)
  moreover have "header_ok w h" using ok by (simp add: header_ok_def h t)
  ultimately show "n = kFrameHeaderBytes \<and> (\<exists>w rest.
      bs = header_prefix (frame_type_value (fh_type h)) w h @ header_suffix h @ rest \<and> header_ok w h)"
    using n by blast
next
  assume "n = kFrameHeaderBytes \<and> (\<exists>w rest.
      bs = header_prefix (frame_type_value (fh_type h)) w h @ header_suffix h @ rest \<and> header_ok w h)"
  then obtain w rest where n: "n = kFrameHeaderBytes" and ok: "header_ok w h"
    and bs: "bs = header_prefix (frame_type_value (fh_type h)) w h @ header_suffix h @ rest" by blast
  have "read_header (new_reader (take kFrameHeaderBytes bs))
      = Inr (h\<lparr>fh_type := ftPing\<rparr>, frame_type_value (fh_type h))"
    by (auto simp: new_reader_at read_header_iff bs kFrameHeaderBytes_def)
  moreover have "take kHeaderCrcCoverageBytes bs = header_prefix (frame_type_value (fh_type h)) w h"
    by (simp add: bs kHeaderCrcCoverageBytes_def)
  moreover have "kFrameHeaderBytes \<le> length bs" by (simp add: bs kFrameHeaderBytes_def)
  moreover have "is_known_frame_type (frame_type_value (fh_type h))"
    by (auto simp: known_frame_type_iff)
  ultimately show "decode_frame_header bs = (Inr h, n)"
    using ok n by (simp add: decode_frame_header_def header_ok_def)
qed

text \<open>The bytes of a frame whose alignment word is \<open>w\<close>.\<close>

definition frame_layout :: "u32 \<Rightarrow> frame \<Rightarrow> bytes" where
  "frame_layout w f =
     (let body = header_prefix (frame_type_value (fh_type (fr_header f))) w (fr_header f)
            @ header_suffix (fr_header f) @ fr_payload f in
      body @ sha256_hash body)"

definition frame_ok :: "u32 \<Rightarrow> frame \<Rightarrow> bool" where
  "frame_ok w f \<longleftrightarrow> header_ok w (fr_header f) \<and>
     length (fr_payload f) = unat (fh_payload_length (fr_header f))"

lemma decode_frame_iff:
  "decode_frame bs = Inr f \<longleftrightarrow> (\<exists>w. bs = frame_layout w f \<and> frame_ok w f)"
proof
  assume *: "decode_frame bs = Inr f"
  obtain res n where hd: "decode_frame_header bs = (res, n)" by fastforce
  with * obtain h where res: "res = Inr h" by (auto simp: decode_frame_def split: sum.splits)
  define m where "m = unat (fh_payload_length h)"
  from * hd res have len: "length bs = 88 + m"
    and dig: "take 32 (drop (56 + m) bs) = sha256_hash (take (56 + m) bs)"
    and f: "f = \<lparr>fr_header = h, fr_payload = take m (drop 56 bs)\<rparr>"
    by (auto simp: decode_frame_def Let_def m_def kFrameHeaderBytes_def kFrameTrailerBytes_def split: if_splits)
  from hd [unfolded res decode_frame_header_iff] obtain w rest where
    bs: "bs = header_prefix (frame_type_value (fh_type h)) w h @ header_suffix h @ rest"
    and ok: "header_ok w h" by blast
  have rest: "length rest = m + 32" using len by (simp add: bs)
  have body: "take (56 + m) bs = header_prefix (frame_type_value (fh_type h)) w h @ header_suffix h @ take m rest"
    and payload: "take m (drop 56 bs) = take m rest" by (simp_all add: bs)
  have "drop m rest = take 32 (drop (56 + m) bs)" using rest by (simp add: bs)
  then have "rest = take m rest @ sha256_hash (take (56 + m) bs)"
    using dig by (metis append_take_drop_id)
  then have "bs = frame_layout w f"
    unfolding frame_layout_def Let_def f frame.simps payload body [symmetric]
    using bs body by (metis append.assoc)
  moreover have "frame_ok w f" using ok rest using len by (simp add: frame_ok_def f m_def)
  ultimately show "\<exists>w. bs = frame_layout w f \<and> frame_ok w f" by blast
next
  assume "\<exists>w. bs = frame_layout w f \<and> frame_ok w f"
  then obtain w where bs: "bs = frame_layout w f" and ok: "frame_ok w f" by blast
  define h where "h = fr_header f"
  define body where "body = header_prefix (frame_type_value (fh_type h)) w h @ header_suffix h @ fr_payload f"
  have bs': "bs = body @ sha256_hash body" by (simp add: bs frame_layout_def body_def h_def)
  have len: "length body = 56 + unat (fh_payload_length h)"
    using ok by (simp add: body_def frame_ok_def h_def)
  have "decode_frame_header bs = (Inr h, kFrameHeaderBytes)"
    unfolding decode_frame_header_iff bs' body_def using ok by (auto simp: frame_ok_def h_def)
  moreover have "take (unat (fh_payload_length h)) (drop 56 bs) = fr_payload f"
    using ok by (simp add: bs' body_def frame_ok_def h_def)
  moreover have "length (fr_payload f) = unat (fh_payload_length h)"
    using ok by (simp add: frame_ok_def h_def)
  ultimately show "decode_frame bs = Inr f"
    using len by (simp add: decode_frame_def Let_def kFrameHeaderBytes_def kFrameTrailerBytes_def bs'
        length_sha256_hash kDigestBytes_def h_def)
qed

lemma canonical_header_ok:
  "length p \<le> kMaxFramePayloadBytes \<Longrightarrow> header_ok 0 (canonical_header h p)"
  by (simp add: header_ok_def canonical_header_def Let_def header_prefix_def limit_defs unat_of_nat_u32)

lemma encode_frame_layout:
  "length p \<le> kMaxFramePayloadBytes \<Longrightarrow>
   encode_frame h p = frame_layout 0 \<lparr>fr_header = canonical_header h p, fr_payload = p\<rparr>"
  by (simp add: encode_frame_def frame_layout_def Let_def)

lemma canonical_header_length:
  "length p \<le> kMaxFramePayloadBytes \<Longrightarrow> unat (fh_payload_length (canonical_header h p)) = length p"
  by (simp add: canonical_header_def Let_def limit_defs unat_of_nat_u32)

section \<open>Properties\<close>

text \<open>
  C17: every payload codec is exact: a decoder accepts a byte string precisely when it is the
  encoding of a value within the bounds of that payload, and returns that value. So round trips
  are byte-identical, and truncated or extended payloads, unknown enumerators and over-long
  fields are all rejected.
\<close>

theorem payload_codecs_exact:
  "(decode_hello (new_reader bs) = Inr a \<longleftrightarrow> hello_ok a \<and> bs = encode_hello a) \<and>
   (decode_hello_ack (new_reader bs) = Inr b \<longleftrightarrow> hello_ack_ok b \<and> bs = encode_hello_ack b) \<and>
   (decode_error (new_reader bs) = Inr c \<longleftrightarrow> error_ok c \<and> bs = encode_error c) \<and>
   (decode_plan_request (new_reader bs) = Inr d \<longleftrightarrow> plan_request_ok d \<and> bs = encode_plan_request d) \<and>
   (decode_plan_response (new_reader bs) = Inr e \<longleftrightarrow> plan_response_ok e \<and> bs = encode_plan_response e) \<and>
   (decode_get_plan_request (new_reader bs) = Inr f \<longleftrightarrow>
      length (gq_plan_id f) = kDigestBytes \<and> bs = encode_get_plan_request f) \<and>
   (decode_get_plan_response (new_reader bs) = Inr g \<longleftrightarrow>
      get_plan_response_ok g \<and> bs = encode_get_plan_response g) \<and>
   (decode_list_plans_request (new_reader bs) = Inr h \<longleftrightarrow> bs = encode_list_plans_request h) \<and>
   (decode_list_plans_response (new_reader bs) = Inr i \<longleftrightarrow>
      list_plans_response_ok i \<and> bs = encode_list_plans_response i) \<and>
   (decode_revalidate_request (new_reader bs) = Inr j \<longleftrightarrow>
      revalidate_request_ok j \<and> bs = encode_revalidate_request j) \<and>
   (decode_revalidate_response (new_reader bs) = Inr k \<longleftrightarrow>
      revalidate_response_ok k \<and> bs = encode_revalidate_response k) \<and>
   (decode_shutdown_request (new_reader bs) = Inr l \<longleftrightarrow> bs = encode_shutdown_request l)"
proof (intro conjI)
  show "decode_hello (new_reader bs) = Inr a \<longleftrightarrow> hello_ok a \<and> bs = encode_hello a"
    unfolding hello_ok_def
    by (cases a) (rule iffI; (elim exE conjE)?; auto simp: decode_hello_def encode_hello_def wire_fields new_reader_at)
  show "decode_hello_ack (new_reader bs) = Inr b \<longleftrightarrow> hello_ack_ok b \<and> bs = encode_hello_ack b"
    unfolding hello_ack_ok_def
    by (cases b) (rule iffI; (elim exE conjE)?; auto simp: decode_hello_ack_def encode_hello_ack_def wire_fields new_reader_at)
  show "decode_error (new_reader bs) = Inr c \<longleftrightarrow> error_ok c \<and> bs = encode_error c"
    unfolding error_ok_def
    by (cases c) (rule iffI; (elim exE conjE)?; auto simp: decode_error_def encode_error_def wire_fields new_reader_at)
  show "decode_plan_request (new_reader bs) = Inr d \<longleftrightarrow> plan_request_ok d \<and> bs = encode_plan_request d"
    unfolding plan_request_ok_def
    by (cases d) (rule iffI; (elim exE conjE)?; auto simp: decode_plan_request_def encode_plan_request_def wire_fields new_reader_at)
  show "decode_plan_response (new_reader bs) = Inr e \<longleftrightarrow> plan_response_ok e \<and> bs = encode_plan_response e"
    unfolding plan_response_ok_def
    by (cases e) (rule iffI; (elim exE conjE)?; auto simp: decode_plan_response_def encode_plan_response_def wire_fields
        wire_vectors new_reader_at)
  show "decode_get_plan_request (new_reader bs) = Inr f \<longleftrightarrow>
      length (gq_plan_id f) = kDigestBytes \<and> bs = encode_get_plan_request f"
    by (cases f) (rule iffI; (elim exE conjE)?; auto simp: decode_get_plan_request_def encode_get_plan_request_def wire_fields new_reader_at)
  show "decode_get_plan_response (new_reader bs) = Inr g \<longleftrightarrow>
      get_plan_response_ok g \<and> bs = encode_get_plan_response g"
    unfolding get_plan_response_ok_def
    by (cases g) (rule iffI; (elim exE conjE)?; auto simp: decode_get_plan_response_def encode_get_plan_response_def
        wire_fields new_reader_at)
  show "decode_list_plans_request (new_reader bs) = Inr h \<longleftrightarrow> bs = encode_list_plans_request h"
    by (cases h) (rule iffI; (elim exE conjE)?; auto simp: decode_list_plans_request_def encode_list_plans_request_def wire_fields new_reader_at)
  show "decode_list_plans_response (new_reader bs) = Inr i \<longleftrightarrow>
      list_plans_response_ok i \<and> bs = encode_list_plans_response i"
    unfolding list_plans_response_ok_def
    by (cases i) (rule iffI; (elim exE conjE)?; auto simp: decode_list_plans_response_def encode_list_plans_response_def
        wire_fields wire_vectors new_reader_at)
  show "decode_revalidate_request (new_reader bs) = Inr j \<longleftrightarrow>
      revalidate_request_ok j \<and> bs = encode_revalidate_request j"
    unfolding revalidate_request_ok_def
    by (cases j) (rule iffI; (elim exE conjE)?; auto simp: decode_revalidate_request_def encode_revalidate_request_def
        wire_fields new_reader_at)
  show "decode_revalidate_response (new_reader bs) = Inr k \<longleftrightarrow>
      revalidate_response_ok k \<and> bs = encode_revalidate_response k"
    unfolding revalidate_response_ok_def
    by (cases k) (rule iffI; (elim exE conjE)?; auto simp: decode_revalidate_response_def encode_revalidate_response_def
        wire_fields new_reader_at)
  show "decode_shutdown_request (new_reader bs) = Inr l \<longleftrightarrow> bs = encode_shutdown_request l"
    by (cases l) (rule iffI; (elim exE conjE)?; auto simp: decode_shutdown_request_def encode_shutdown_request_def wire_fields new_reader_at)
qed

text \<open>
  C16: the frame decoder accepts exactly the well-formed frames. It succeeds precisely on a header
  with the magic, the protocol version, a known type, a zero reserved word and the right
  checksum, followed by as many payload bytes as it declares (at most the limit) and the digest
  of all of that; the alignment word may be anything. Frames that \<open>encode_frame\<close> writes decode
  to the header it made canonical and the payload, also when only the header has arrived yet,
  and for a payload over the limit it writes nothing, which does not decode.
\<close>

theorem frame_codec_exact:
  "(decode_frame bs = Inr f \<longleftrightarrow> (\<exists>w. bs = frame_layout w f \<and> frame_ok w f)) \<and>
   decode_frame (encode_frame h p) =
     (if length p \<le> kMaxFramePayloadBytes
      then Inr \<lparr>fr_header = canonical_header h p, fr_payload = p\<rparr> else Inl kTruncatedRecord) \<and>
   decode_frame_header (encode_frame h p @ tail) =
     (if length p \<le> kMaxFramePayloadBytes then (Inr (canonical_header h p), kFrameHeaderBytes)
      else decode_frame_header tail)"
proof (intro conjI)
  show "decode_frame bs = Inr f \<longleftrightarrow> (\<exists>w. bs = frame_layout w f \<and> frame_ok w f)"
    by (rule decode_frame_iff)
  show "decode_frame (encode_frame h p) =
     (if length p \<le> kMaxFramePayloadBytes
      then Inr \<lparr>fr_header = canonical_header h p, fr_payload = p\<rparr> else Inl kTruncatedRecord)"
  proof (cases "length p \<le> kMaxFramePayloadBytes")
    case True
    then have "frame_ok 0 \<lparr>fr_header = canonical_header h p, fr_payload = p\<rparr>"
      by (simp add: frame_ok_def canonical_header_ok canonical_header_length)
    with True show ?thesis by (auto simp: encode_frame_layout decode_frame_iff)
  next
    case False
    then show ?thesis
      by (simp add: encode_frame_def decode_frame_def decode_frame_header_def kFrameHeaderBytes_def)
  qed
  show "decode_frame_header (encode_frame h p @ tail) =
     (if length p \<le> kMaxFramePayloadBytes then (Inr (canonical_header h p), kFrameHeaderBytes)
      else decode_frame_header tail)"
  proof (cases "length p \<le> kMaxFramePayloadBytes")
    case True
    then show ?thesis
      by (auto simp: encode_frame_layout decode_frame_header_iff frame_layout_def Let_def
          canonical_header_ok)
  qed (simp add: encode_frame_def)
qed

end
