(* ===== verification/PlanRecord.thy ===== *)
theory PlanRecord
  imports Parser Planner
begin

text \<open>
  The durable formats of the plan store (\<open>src/persistence.cpp\<close>): the metadata file
  \<open>store.meta\<close> and the plan record with its checksummed header, the encoded plan, the digest of
  that encoding and the digest of the request. The directory around them is in \<open>Store\<close>.

  \<open>decode_plan_record\<close> returns the summary it stores through its output parameter together with
  the plan; callers that pass a null pointer drop it.
\<close>

unbundle bit_operations_syntax

section \<open>Names\<close>

definition kRecordMagic :: bytes where "kRecordMagic = map byte_of_char ''CPPR''"
definition kMetaMagic :: bytes where "kMetaMagic = map byte_of_char ''CPPS''"
definition kMetaBytes :: nat where "kMetaBytes = 34"
definition kRecordDigests :: nat where "kRecordDigests = 64"
definition kRecordFileHeaderBytes :: nat where "kRecordFileHeaderBytes = 14"

definition hex_of :: "u64 \<Rightarrow> string" where
  "hex_of v = map (\<lambda>i. kHexDigits ! unat (drop_bit (4 * (15 - i)) v AND 0xF)) [0..<16]"

definition record_file_name :: "digest \<Rightarrow> string" where
  "record_file_name d = ''plan-'' @ hex d @ ''.rec''"

text \<open>Four bytes at an offset, least significant first.\<close>

definition le32_at :: "bytes \<Rightarrow> nat \<Rightarrow> u32" where
  "le32_at bs i =
     ucast (bs ! i) OR push_bit 8 (ucast (bs ! (i + 1))) OR push_bit 16 (ucast (bs ! (i + 2)))
     OR push_bit 24 (ucast (bs ! (i + 3)))"

section \<open>The metadata file\<close>

definition encode_meta :: "u64 \<Rightarrow> u64 \<Rightarrow> u64 \<Rightarrow> bytes" where
  "encode_meta epoch incarnation sequence =
     (let body = put_raw kMetaMagic @ put_u16 kStoreFormatVersion @ put_u64 epoch
            @ put_u64 incarnation @ put_u64 sequence in
      body @ put_u32 (crc32 body))"

definition decode_meta :: "bytes \<Rightarrow> (u64 \<times> u64 \<times> u64) result" where
  "decode_meta bs =
     (if length bs \<noteq> kMetaBytes then Inl kCorruptRecord
      else if crc32 (take (length bs - 4) bs) \<noteq> le32_at bs (length bs - 4) then Inl kCorruptRecord
      else let (magic, r1) = get_raw [] (length kMetaMagic) (new_reader bs) in
      if \<not> is_ok (rd_status r1) then Inl (rd_status r1)
      else if magic \<noteq> kMetaMagic then Inl kCorruptRecord
      else let (version, r2) = get_u16 0 r1; (epoch, r3) = get_u64 0 r2;
               (incarnation, r4) = get_u64 0 r3; (sequence, r5) = get_u64 0 r4 in
      if \<not> is_ok (rd_status r5) then Inl (rd_status r5)
      else if version \<noteq> kStoreFormatVersion then Inl kUnsupportedRecordVersion
      else Inr (epoch, incarnation, sequence))"

section \<open>The plan record\<close>

record stored_summary =
  ss_id :: digest
  ss_generation :: generation
  ss_bindings :: generation_bindings
  ss_collective :: string
  ss_kind :: collective_kind
  ss_sequence :: u64
  ss_record_bytes :: u64
  ss_incarnation :: u64
  ss_unix_micros :: u64

datatype record_integrity =
    riOk | riMissing | riCorrupt | riTruncated | riOversized | riUnsupportedVersion | riDigestMismatch
  | riIncompatible

primrec to_string_integrity :: "record_integrity \<Rightarrow> string" where
  "to_string_integrity riOk = ''ok''"
| "to_string_integrity riMissing = ''missing''"
| "to_string_integrity riCorrupt = ''corrupt''"
| "to_string_integrity riTruncated = ''truncated''"
| "to_string_integrity riOversized = ''oversized''"
| "to_string_integrity riUnsupportedVersion = ''unsupported-version''"
| "to_string_integrity riDigestMismatch = ''digest-mismatch''"
| "to_string_integrity riIncompatible = ''incompatible''"

text \<open>The fields of the header behind the two lengths.\<close>

record record_header =
  rh_incarnation :: u64
  rh_sequence :: u64
  rh_unix_micros :: u64
  rh_generation :: u64
  rh_bindings :: generation_bindings
  rh_collective :: string
  rh_kind :: u8
  rh_input_digest :: digest

definition put_record_fields :: "record_header \<Rightarrow> bytes" where
  "put_record_fields h =
     put_u64 (rh_incarnation h) @ put_u64 (rh_sequence h) @ put_u64 (rh_unix_micros h)
     @ put_u64 (rh_generation h) @ encode_bindings (rh_bindings h) @ put_string (rh_collective h)
     @ put_u8 (rh_kind h) @ put_digest (rh_input_digest h)"

definition header_of_plan :: "plan \<Rightarrow> u64 \<Rightarrow> u64 \<Rightarrow> u64 \<Rightarrow> record_header" where
  "header_of_plan p incarnation sequence unix_micros =
     \<lparr>rh_incarnation = incarnation, rh_sequence = sequence, rh_unix_micros = unix_micros,
      rh_generation = pl_generation p, rh_bindings = pl_bindings p, rh_collective = pl_collective p,
      rh_kind = collective_kind_value (pl_kind p), rh_input_digest = pl_input_digest p\<rparr>"

definition encode_plan_record :: "plan \<Rightarrow> planning_request \<Rightarrow> u64 \<Rightarrow> u64 \<Rightarrow> u64 \<Rightarrow> bytes" where
  "encode_plan_record p r incarnation sequence unix_micros =
     (let payload_plan = plan_encode p;
          payload_digest = sha256_hash payload_plan;
          prefix = put_raw kRecordMagic @ put_u16 kStoreFormatVersion;
          position = length prefix;
          header = prefix @ put_u32 0 @ put_u32 (of_nat (length payload_plan + kRecordDigests))
            @ put_record_fields (header_of_plan p incarnation sequence unix_micros);
          len = (of_nat (length header) :: u32);
          header_bytes = header[position := ucast (len AND 0xFF),
            position + 1 := ucast (drop_bit 8 len AND 0xFF),
            position + 2 := ucast (drop_bit 16 len AND 0xFF),
            position + 3 := ucast (drop_bit 24 len AND 0xFF)] in
      header_bytes @ put_u32 (crc32 header_bytes) @ payload_plan @ put_digest payload_digest
      @ put_digest (canonical_digest r))"

text \<open>
  The header reads: none is tested before the last, a failed read leaves its target at its
  default and makes the reader skip all later ones.
\<close>

definition get_record_fields :: "byte_reader \<Rightarrow> record_header \<times> byte_reader" where
  "get_record_fields r =
     (let (incarnation, r1) = get_u64 0 r; (sequence, r2) = get_u64 0 r1;
          (unix_micros, r3) = get_u64 0 r2; (generation, r4) = get_u64 0 r3;
          (topology, r5) = get_u64 0 r4; (failure_domains, r6) = get_u64 0 r5;
          (capacity_evidence, r7) = get_u64 0 r6; (policy, r8) = get_u64 0 r7;
          (plan, r9) = get_u64 0 r8; (collective, r10) = get_string [] kMaxIdentifierBytes r9;
          (kind, r11) = get_u8 0 r10; (input_digest, r12) = get_digest [] r11 in
      (\<lparr>rh_incarnation = incarnation, rh_sequence = sequence, rh_unix_micros = unix_micros,
        rh_generation = generation,
        rh_bindings = \<lparr>gb_topology = topology, gb_failure_domains = failure_domains,
          gb_capacity_evidence = capacity_evidence, gb_policy = policy, gb_plan = plan\<rparr>,
        rh_collective = collective, rh_kind = kind, rh_input_digest = input_digest\<rparr>, r12))"

definition get_record_prefix :: "byte_reader \<Rightarrow> (bytes \<times> u16 \<times> u32 \<times> u32) \<times> byte_reader" where
  "get_record_prefix r =
     (let (magic, r1) = get_raw [] (length kRecordMagic) r; (version, r2) = get_u16 0 r1;
          (header_length, r3) = get_u32 0 r2; (payload_length, r4) = get_u32 0 r3 in
      ((magic, version, header_length, payload_length), r4))"

definition summary_of_record :: "plan \<Rightarrow> record_header \<Rightarrow> nat \<Rightarrow> stored_summary" where
  "summary_of_record p h bytes_read =
     \<lparr>ss_id = pl_id p, ss_generation = pl_generation p, ss_bindings = pl_bindings p,
      ss_collective = pl_collective p, ss_kind = pl_kind p, ss_sequence = rh_sequence h,
      ss_record_bytes = of_nat bytes_read, ss_incarnation = rh_incarnation h,
      ss_unix_micros = rh_unix_micros h\<rparr>"

text \<open>\<open>decode_plan_record\<close> in three stages: the sections, the header, the payload.\<close>

definition record_sections :: "bytes \<Rightarrow> (u16 \<times> u32 \<times> u32) result" where
  "record_sections bs =
     (if length bs > kMaxPlanRecordBytes + 4096 then Inl kOversizedRecord
      else if length bs < kRecordFileHeaderBytes then Inl kTruncatedRecord
      else if take (length kRecordMagic) bs \<noteq> kRecordMagic then Inl kCorruptRecord
      else let ((_, version, header_length, payload_length), r1) = get_record_prefix (new_reader bs) in
      if \<not> is_ok (rd_status r1) then Inl (rd_status r1)
      else if version \<noteq> kStoreFormatVersion then Inl kUnsupportedRecordVersion
      else if unat payload_length > kMaxPlanRecordBytes \<or> unat header_length > kMaxPlanRecordBytes
        then Inl kOversizedRecord
      else if unat payload_length < kRecordDigests then Inl kTruncatedRecord
      else let total = unat header_length + 4 + unat payload_length in
      if length bs < total then Inl kTruncatedRecord
      else if length bs > total then Inl kTrailingGarbage
      else if crc32 (take (unat header_length) bs) \<noteq> le32_at bs (unat header_length)
        then Inl kCorruptRecord
      else Inr (version, header_length, payload_length))"

definition record_header_of :: "bytes \<Rightarrow> u16 \<Rightarrow> u32 \<Rightarrow> u32 \<Rightarrow> record_header result" where
  "record_header_of bs version header_length payload_length =
     (let ((_, header_version, declared_header_length, declared_payload_length), r1) =
            get_record_prefix (new_reader (take (unat header_length) bs));
          (header, r2) = get_record_fields r1; r3 = require_end r2 in
      if \<not> is_ok (rd_status r3) then Inl (rd_status r3)
      else if declared_header_length \<noteq> header_length \<or> declared_payload_length \<noteq> payload_length
        then Inl kCorruptRecord
      else if header_version \<noteq> version then Inl kCorruptRecord
      else if rh_kind header > collective_kind_value ckHierarchical then Inl kCorruptRecord
      else Inr header)"

definition record_plan_of :: "bytes \<Rightarrow> u32 \<Rightarrow> u32 \<Rightarrow> plan result" where
  "record_plan_of bs header_length payload_length =
     (let payload = drop (unat header_length + 4) bs;
          plan_bytes = unat payload_length - kRecordDigests;
          stored_payload_digest = take kDigestBytes (drop plan_bytes payload);
          stored_request_digest = take kDigestBytes (drop (plan_bytes + kDigestBytes) payload) in
      if sha256_hash (take plan_bytes payload) \<noteq> stored_payload_digest then Inl kDigestMismatch
      else case plan_decode (take plan_bytes payload) of
        Inl e \<Rightarrow> Inl e
      | Inr p \<Rightarrow> if pl_input_digest p \<noteq> stored_request_digest then Inl kDigestMismatch else Inr p)"

definition decode_plan_record :: "bytes \<Rightarrow> (plan \<times> stored_summary) result" where
  "decode_plan_record bs =
     (case record_sections bs of Inl e \<Rightarrow> Inl e
      | Inr (version, header_length, payload_length) \<Rightarrow>
     (case record_header_of bs version header_length payload_length of Inl e \<Rightarrow> Inl e
      | Inr header \<Rightarrow>
     (case record_plan_of bs header_length payload_length of Inl e \<Rightarrow> Inl e
      | Inr p \<Rightarrow> Inr (p, summary_of_record p header (length bs)))))"

section \<open>Layouts\<close>

lemma and_low_byte: "(x :: u32) AND 0xFF = take_bit 8 x"
  by (simp add: take_bit_eq_mask mask_eq_exp_minus_1)

lemma put_u32_bytes:
  "put_u32 v = [ucast (v AND 0xFF), ucast (drop_bit 8 v AND 0xFF), ucast (drop_bit 16 v AND 0xFF),
     ucast (drop_bit 24 v AND 0xFF)]"
proof -
  have "(ucast ((ucast (v AND 0xFFFF) :: u16) AND 0xFF) :: u8) = ucast (v AND 0xFF)"
    "(ucast (drop_bit 8 (ucast (v AND 0xFFFF) :: u16) AND 0xFF) :: u8) = ucast (drop_bit 8 v AND 0xFF)"
    "(ucast ((ucast (drop_bit 16 v AND 0xFFFF) :: u16) AND 0xFF) :: u8) = ucast (drop_bit 16 v AND 0xFF)"
    "(ucast (drop_bit 8 (ucast (drop_bit 16 v AND 0xFFFF) :: u16) AND 0xFF) :: u8) = ucast (drop_bit 24 v AND 0xFF)"
    by (rule bit_word_eqI; auto simp: and_masks and_low_byte bit_simps dest: bit_imp_le_length)+
  then show ?thesis by (simp add: put_u32_def put_u16_def put_u8_def)
qed

lemma join_bytes:
  "(ucast (ucast a OR push_bit 8 (ucast b) :: u16) :: u32) = ucast (a :: u8) OR push_bit 8 (ucast (b :: u8))"
  by (rule bit_word_eqI) (auto simp: bit_simps dest: bit_imp_le_length)

lemma le32_at_get: "le32_at [a, b, c, d] 0 = fst (get_u32 0 (new_reader [a, b, c, d]))"
  by (simp add: le32_at_def get_u32_def get_u16_def get_u8_def new_reader_def remaining_def Let_def
      join_bytes push_bit_or or.assoc)

lemma four_bytes: "length t = 4 \<Longrightarrow> \<exists>a b c d. t = [a, b, c, d]"
  by (auto simp: numeral_eq_Suc length_Suc_conv)

lemma le32_at_middle: "length t = 4 \<Longrightarrow> le32_at (a @ t @ b) (length a) = le32_at t 0"
  using four_bytes [of t] by (auto simp: le32_at_def nth_append)

lemma le32_put: "le32_at (put_u32 v) 0 = v"
proof -
  obtain a b c d where "put_u32 v = [a, b, c, d]" using four_bytes [of "put_u32 v"] by auto
  then show ?thesis using u32.decodes [of "[]" v "[]"] by (simp add: le32_at_get new_reader_at)
qed

lemma le32_at_put: "le32_at (a @ put_u32 v @ b) (length a) = v"
  by (simp add: le32_at_middle le32_put)

lemma put_u32_le32: "length t = 4 \<Longrightarrow> t = put_u32 (le32_at t 0)"
proof -
  assume len: "length t = 4"
  then obtain a b c d where t: "t = [a, b, c, d]" using four_bytes by blast
  obtain v r where v: "get_u32 0 (reader_at [] t) = (v, r)" by fastforce
  moreover have "is_ok (rd_status r)"
    using v by (auto simp: t get_u32_def get_u16_def get_u8_def reader_at_def remaining_def Let_def)
  ultimately obtain rest where "t = put_u32 v @ rest" using u32.accepts by blast
  with len have "t = put_u32 v" by simp
  then show ?thesis using le32_put [of v] by simp
qed

definition record_head :: "u32 \<Rightarrow> u32 \<Rightarrow> record_header \<Rightarrow> bytes" where
  "record_head header_length payload_length h =
     put_raw kRecordMagic @ put_u16 kStoreFormatVersion @ put_u32 header_length @ put_u32 payload_length
     @ put_record_fields h"

text \<open>The bytes of a record with header fields \<open>h\<close>, plan \<open>p\<close> and request digest \<open>d\<close>.\<close>

definition record_layout :: "record_header \<Rightarrow> plan \<Rightarrow> digest \<Rightarrow> bytes" where
  "record_layout h p d =
     (let body = plan_encode p;
          head = record_head (of_nat (14 + length (put_record_fields h)))
            (of_nat (length body + kRecordDigests)) h in
      head @ put_u32 (crc32 head) @ body @ put_digest (sha256_hash body) @ put_digest d)"

lemma length_magic [simp]: "length kRecordMagic = 4" "length kMetaMagic = 4"
  by (simp_all add: kRecordMagic_def kMetaMagic_def)

lemma length_record_head: "length (record_head a b h) = 14 + length (put_record_fields h)"
  by (simp add: record_head_def put_raw_def)

lemma patch_length:
  "(kRecordMagic @ put_u16 v @ put_u32 0 @ rest)
     [6 := ucast (w AND 0xFF), 7 := ucast (drop_bit 8 w AND 0xFF), 8 := ucast (drop_bit 16 w AND 0xFF),
      9 := ucast (drop_bit 24 w AND 0xFF)] = kRecordMagic @ put_u16 v @ put_u32 w @ rest"
  by (simp add: list_update_append put_u32_bytes)

lemma encode_plan_record_layout:
  "encode_plan_record p r i s t = record_layout (header_of_plan p i s t) p (canonical_digest r)"
proof -
  define f where "f = put_record_fields (header_of_plan p i s t)"
  define pl where "pl = put_u32 (of_nat (length (plan_encode p) + kRecordDigests))"
  have "length (kRecordMagic @ put_u16 kStoreFormatVersion @ put_u32 0 @ pl @ f) = 14 + length f"
    by (simp add: pl_def)
  then show ?thesis
    unfolding encode_plan_record_def record_layout_def record_head_def Let_def
      f_def [symmetric] pl_def [symmetric] put_raw_def append_assoc
    by (simp only: patch_length [of kStoreFormatVersion _ "of_nat (14 + length f)"] length_append length_magic
        length_put_int append_assoc) (simp add: patch_length)
qed

section \<open>The contract of the metadata codec\<close>

lemmas meta_codec = pair_codec [OF raw_codec [of 4] pair_codec [OF u16.strict_codec_axioms
  pair_codec [OF u64.strict_codec_axioms pair_codec [OF u64.strict_codec_axioms u64.strict_codec_axioms]]]]

definition get_meta :: "byte_reader \<Rightarrow> (bytes \<times> u16 \<times> u64 \<times> u64 \<times> u64) \<times> byte_reader" where
  "get_meta = get_pair (get_raw [] 4) (get_pair (get_u16 0)
     (get_pair (get_u64 0) (get_pair (get_u64 0) (get_u64 0))))"

lemma decode_meta_reads:
  "decode_meta bs = Inr x \<longleftrightarrow> length bs = 34 \<and> crc32 (take 30 bs) = le32_at bs 30 \<and>
     (\<exists>r. get_meta (new_reader bs) = ((kMetaMagic, kStoreFormatVersion, x), r) \<and> is_ok (rd_status r))"
proof -
  obtain m r1 where m: "get_raw [] 4 (new_reader bs) = (m, r1)" by fastforce
  obtain v r2 where v: "get_u16 0 r1 = (v, r2)" by fastforce
  obtain e r3 where e: "get_u64 0 r2 = (e, r3)" by fastforce
  obtain i r4 where i: "get_u64 0 r3 = (i, r4)" by fastforce
  obtain s r5 where s: "get_u64 0 r4 = (s, r5)" by fastforce
  have "\<not> is_ok (rd_status r1) \<Longrightarrow> r5 = r1"
    using u16.sticky [of r1] u64.sticky [of r1] v e i s by fastforce
  with m v e i s show ?thesis
    by (cases x) (auto simp: decode_meta_def get_meta_def get_pair_def Let_def kMetaBytes_def)
qed

lemma decode_meta_iff:
  "decode_meta bs = Inr (epoch, incarnation, sequence) \<longleftrightarrow> bs = encode_meta epoch incarnation sequence"
proof -
  define body where "body = kMetaMagic @ put_u16 kStoreFormatVersion @ put_u64 epoch @ put_u64 incarnation
      @ put_u64 sequence"
  have body: "length body = 30" by (simp add: body_def)
  have reads: "(\<exists>r. get_meta (new_reader bs) = ((kMetaMagic, kStoreFormatVersion, epoch, incarnation, sequence), r)
      \<and> is_ok (rd_status r)) \<longleftrightarrow> (\<exists>rest. bs = body @ rest)"
    (is "?reads \<longleftrightarrow> _")
  proof
    assume ?reads
    then show "\<exists>rest. bs = body @ rest"
      using strict_codec.accepts [OF meta_codec, of "[]" bs "(kMetaMagic, kStoreFormatVersion, epoch, incarnation, sequence)"]
      by (auto simp: get_meta_def new_reader_at body_def put_raw_def)
  next
    assume "\<exists>rest. bs = body @ rest"
    then obtain rest where "bs = body @ rest" by blast
    then show ?reads
      using codec.decodes [OF strict_codec.axioms(1) [OF meta_codec],
          of "(kMetaMagic, kStoreFormatVersion, epoch, incarnation, sequence)" "[]" rest]
      by (simp add: get_meta_def new_reader_at body_def put_raw_def)
  qed
  have crc: "crc32 (take 30 (body @ t)) = le32_at (body @ t) 30 \<longleftrightarrow> t = put_u32 (crc32 body)"
    if "length t = 4" for t
  proof -
    have "le32_at (body @ t) 30 = le32_at t 0" using le32_at_middle [OF that, of body "[]"] body by simp
    then show ?thesis using body put_u32_le32 [OF that] le32_put by (metis append_eq_conv_conj)
  qed
  show ?thesis
    unfolding decode_meta_reads reads encode_meta_def Let_def
    using body crc by (auto simp: body_def [symmetric] put_raw_def)
qed

section \<open>The contract of the record codec\<close>

lemmas record_prefix_codec = pair_codec [OF raw_codec [of 4] pair_codec [OF u16.strict_codec_axioms
  pair_codec [OF u32.strict_codec_axioms u32.strict_codec_axioms]]]

lemma get_record_prefix_pairs:
  "get_record_prefix = get_pair (get_raw [] 4) (get_pair (get_u16 0) (get_pair (get_u32 0) (get_u32 0)))"
  by (simp add: fun_eq_iff get_record_prefix_def get_pair_def split_beta)

definition header_fields_ok :: "record_header \<Rightarrow> bool" where
  "header_fields_ok h \<longleftrightarrow> short_id_text (rh_collective h) \<and> length (rh_input_digest h) = kDigestBytes"

definition record_fields ::
    "u64 \<times> u64 \<times> u64 \<times> u64 \<times> u64 \<times> u64 \<times> u64 \<times> u64 \<times> u64 \<times> string \<times> u8 \<times> digest \<Rightarrow> record_header" where
  "record_fields = (\<lambda>(i, s, t, g, a, b, c, d, e, co, k, dg).
     \<lparr>rh_incarnation = i, rh_sequence = s, rh_unix_micros = t, rh_generation = g,
      rh_bindings = record_bindings (a, b, c, d, e), rh_collective = co, rh_kind = k, rh_input_digest = dg\<rparr>)"

interpretation record_fields: strict_codec put_record_fields get_record_fields header_fields_ok
proof (rule record_codec [OF pair_codec [OF u64.strict_codec_axioms pair_codec [OF u64.strict_codec_axioms
        pair_codec [OF u64.strict_codec_axioms pair_codec [OF u64.strict_codec_axioms
        pair_codec [OF u64.strict_codec_axioms pair_codec [OF u64.strict_codec_axioms
        pair_codec [OF u64.strict_codec_axioms pair_codec [OF u64.strict_codec_axioms
        pair_codec [OF u64.strict_codec_axioms pair_codec [OF ident_codec
        pair_codec [OF u8.strict_codec_axioms digest.strict_codec_axioms]]]]]]]]]]],
      where pack = record_fields and unpack =
      "\<lambda>h. (rh_incarnation h, rh_sequence h, rh_unix_micros h, rh_generation h,
        gb_topology (rh_bindings h), gb_failure_domains (rh_bindings h),
        gb_capacity_evidence (rh_bindings h), gb_policy (rh_bindings h), gb_plan (rh_bindings h),
        rh_collective h, rh_kind h, rh_input_digest h)"])
qed (simp_all add: put_record_fields_def get_record_fields_def get_pair_def record_fields_def
    record_bindings_def encode_bindings_def header_fields_ok_def split_beta)

lemma length_record_fields:
  "header_fields_ok h \<Longrightarrow> length (put_record_fields h) \<le> 173"
  by (simp add: header_fields_ok_def short_id_text_def put_record_fields_def encode_bindings_def
      put_string_def put_raw_def put_digest_def limit_defs)

lemma record_sections_iff:
  "record_sections bs = Inr (version, hl, pl) \<longleftrightarrow>
     length bs \<le> kMaxPlanRecordBytes + 4096 \<and> 14 \<le> length bs \<and> take 4 bs = kRecordMagic \<and>
     (\<exists>m r. get_record_prefix (new_reader bs) = ((m, version, hl, pl), r) \<and> is_ok (rd_status r)) \<and>
     version = kStoreFormatVersion \<and> unat pl \<le> kMaxPlanRecordBytes \<and> unat hl \<le> kMaxPlanRecordBytes \<and>
     64 \<le> unat pl \<and> length bs = unat hl + 4 + unat pl \<and> crc32 (take (unat hl) bs) = le32_at bs (unat hl)"
  by (cases "get_record_prefix (new_reader bs)")
    (auto simp: record_sections_def Let_def not_less kRecordFileHeaderBytes_def kRecordDigests_def
      split: if_splits)

lemma record_header_of_iff:
  "record_header_of bs version hl pl = Inr h \<longleftrightarrow>
     (\<exists>m. length m = 4 \<and> take (unat hl) bs = m @ put_u16 version @ put_u32 hl @ put_u32 pl @ put_record_fields h) \<and>
     header_fields_ok h \<and> rh_kind h \<le> collective_kind_value ckHierarchical"
proof -
  let ?b = "take (unat hl) bs" and ?c = "get_pair get_record_prefix get_record_fields"
  note c = pair_codec [OF record_prefix_codec record_fields.strict_codec_axioms,
      folded get_record_prefix_pairs]
  have exact: "(\<exists>r. ?c (new_reader ?b) = (((m, version, hl, pl), h), r) \<and> is_ok (rd_status (require_end r)))
      \<longleftrightarrow> ?b = m @ put_u16 version @ put_u32 hl @ put_u32 pl @ put_record_fields h \<and>
         length m = 4 \<and> header_fields_ok h" for m
    using read_to_end_iff [OF c, of ?b "((m, version, hl, pl), h)"] by (simp add: put_raw_def)
  have "record_header_of bs version hl pl = Inr h \<longleftrightarrow>
      (\<exists>m r. ?c (new_reader ?b) = (((m, version, hl, pl), h), r) \<and> is_ok (rd_status (require_end r))) \<and>
      rh_kind h \<le> collective_kind_value ckHierarchical"
    by (cases "get_record_prefix (new_reader ?b)")
      (auto simp: record_header_of_def get_pair_def Let_def not_less split: prod.splits)
  with exact show ?thesis by metis
qed

lemma record_plan_of_iff:
  assumes "length bs = unat hl + 4 + unat pl" "64 \<le> unat pl"
  shows "record_plan_of bs hl pl = Inr p \<longleftrightarrow> plan_record_ok p \<and> length (plan_encode p) \<le> kMaxPlanRecordBytes \<and>
     drop (unat hl + 4) bs = plan_encode p @ sha256_hash (plan_encode p) @ pl_input_digest p"
proof -
  define body where "body = take (unat pl - 64) (drop (unat hl + 4) bs)"
  define d1 where "d1 = take 32 (drop (unat pl - 64) (drop (unat hl + 4) bs))"
  define d2 where "d2 = take 32 (drop (unat pl - 32) (drop (unat hl + 4) bs))"
  have len: "length body = unat pl - 64" "length d1 = 32" "length d2 = 32"
    using assms by (simp_all add: body_def d1_def d2_def)
  have split: "drop (unat hl + 4) bs = body @ d1 @ d2"
  proof -
    let ?x = "drop (unat hl + 4) bs"
    have "drop (unat pl - 32) ?x = drop 32 (drop (unat pl - 64) ?x)" using assms(2) by simp
    moreover have "d2 = drop (unat pl - 32) ?x" using assms by (simp add: d2_def)
    ultimately have "d1 @ d2 = drop (unat pl - 64) ?x" by (metis append_take_drop_id d1_def)
    then show ?thesis by (metis append_take_drop_id body_def)
  qed
  have "record_plan_of bs hl pl = Inr p \<longleftrightarrow> sha256_hash body = d1 \<and> plan_decode body = Inr p \<and> pl_input_digest p = d2"
    using assms(2) by (auto simp: record_plan_of_def Let_def kRecordDigests_def kDigestBytes_def body_def d1_def d2_def
        split: sum.splits)
  also have "\<dots> \<longleftrightarrow> plan_record_ok p \<and> length (plan_encode p) \<le> kMaxPlanRecordBytes \<and>
      body = plan_encode p \<and> d1 = sha256_hash (plan_encode p) \<and> d2 = pl_input_digest p"
    by (auto simp: plan_decode_iff)
  also have "\<dots> \<longleftrightarrow> plan_record_ok p \<and> length (plan_encode p) \<le> kMaxPlanRecordBytes \<and>
      body @ d1 @ d2 = plan_encode p @ sha256_hash (plan_encode p) @ pl_input_digest p"
  proof -
    have "body @ d1 @ d2 = a @ b @ c \<longleftrightarrow> body = a \<and> d1 = b \<and> d2 = c" if "length b = 32" "length c = 32" for a b c
    proof
      assume eq: "body @ d1 @ d2 = a @ b @ c"
      then have "length body = length a" using len that by (metis add_right_cancel length_append)
      with eq len that show "body = a \<and> d1 = b \<and> d2 = c" by simp
    qed simp
    then have "plan_record_ok p \<Longrightarrow> body @ d1 @ d2 = plan_encode p @ sha256_hash (plan_encode p) @ pl_input_digest p
        \<longleftrightarrow> body = plan_encode p \<and> d1 = sha256_hash (plan_encode p) \<and> d2 = pl_input_digest p"
      by (simp add: plan_record_ok_def length_sha256_hash kDigestBytes_def)
    then show ?thesis by blast
  qed
  finally show ?thesis by (simp add: split)
qed

text \<open>What a header may claim: nothing in it is compared with the plan behind it.\<close>

definition record_ok :: "record_header \<Rightarrow> plan \<Rightarrow> bool" where
  "record_ok h p \<longleftrightarrow> header_fields_ok h \<and> rh_kind h \<le> collective_kind_value ckHierarchical \<and>
     plan_record_ok p \<and> length (plan_encode p) + kRecordDigests \<le> kMaxPlanRecordBytes"

lemma decode_plan_record_iff:
  "decode_plan_record bs = Inr (p, s) \<longleftrightarrow>
   (\<exists>h. bs = record_layout h p (pl_input_digest p) \<and> record_ok h p \<and>
        s = summary_of_record p h (length bs))" (is "_ \<longleftrightarrow> ?layout")
proof
  assume "decode_plan_record bs = Inr (p, s)"
  then obtain v hl pl h where sec: "record_sections bs = Inr (v, hl, pl)"
    and hd: "record_header_of bs v hl pl = Inr h" and pay: "record_plan_of bs hl pl = Inr p"
    and s: "s = summary_of_record p h (length bs)"
    by (auto simp: decode_plan_record_def split: sum.splits)
  from sec have v: "v = kStoreFormatVersion" and len: "length bs = unat hl + 4 + unat pl" "64 \<le> unat pl"
    and small: "unat pl \<le> kMaxPlanRecordBytes" and magic: "take 4 bs = kRecordMagic"
    and crc: "crc32 (take (unat hl) bs) = le32_at bs (unat hl)"
    by (auto simp: record_sections_iff)
  from hd obtain m where m: "length m = 4" and head: "take (unat hl) bs = m @ put_u16 v @ put_u32 hl @ put_u32 pl @ put_record_fields h"
    and ok: "header_fields_ok h" "rh_kind h \<le> collective_kind_value ckHierarchical"
    by (auto simp: record_header_of_iff)
  have "length (take (unat hl) bs) = unat hl" using len(1) by simp
  then have hlen: "unat hl = 14 + length (put_record_fields h)" unfolding head using m by simp
  then have "take 4 bs = take 4 (take (unat hl) bs)" by simp
  with magic head m have "m = kRecordMagic" by simp
  with head v have head: "take (unat hl) bs = record_head hl pl h" by (simp add: record_head_def put_raw_def)
  from pay record_plan_of_iff [OF len] have p: "plan_record_ok p"
    and rest: "drop (unat hl + 4) bs = plan_encode p @ sha256_hash (plan_encode p) @ pl_input_digest p" by auto
  have plen: "unat pl = length (plan_encode p) + 64"
    using arg_cong [OF rest, of length] len p
    by (simp add: plan_record_ok_def length_sha256_hash kDigestBytes_def)
  have sections: "take (unat hl) bs @ take 4 (drop (unat hl) bs) @ drop (unat hl + 4) bs = bs"
    by (metis append_take_drop_id drop_drop add.commute)
  have mid: "take 4 (drop (unat hl) bs) = put_u32 (crc32 (record_head hl pl h))"
  proof -
    define c where "c = take 4 (drop (unat hl) bs)"
    have "length c = 4" using len by (simp add: c_def)
    have "le32_at bs (unat hl) = le32_at (take (unat hl) bs @ c @ drop (unat hl + 4) bs) (unat hl)"
      by (simp add: c_def sections)
    also have "\<dots> = le32_at c 0"
      using le32_at_put [of "take (unat hl) bs" "le32_at c 0"] put_u32_le32 [OF \<open>length c = 4\<close>] len by simp
    finally show ?thesis using put_u32_le32 [OF \<open>length c = 4\<close>] crc head by (simp add: c_def)
  qed
  from sections have "bs = record_layout h p (pl_input_digest p)"
    unfolding head mid rest record_layout_def Let_def hlen [symmetric]
    by (simp add: put_digest_def put_raw_def kRecordDigests_def plen [symmetric])
  moreover have "record_ok h p" using ok p plen small by (simp add: record_ok_def kRecordDigests_def)
  ultimately show ?layout using s by blast
next
  assume ?layout
  then obtain h where bs: "bs = record_layout h p (pl_input_digest p)" and ok: "record_ok h p"
    and s: "s = summary_of_record p h (length bs)" by blast
  define hl where "hl = (of_nat (14 + length (put_record_fields h)) :: u32)"
  define pl where "pl = (of_nat (length (plan_encode p) + kRecordDigests) :: u32)"
  define head where "head = record_head hl pl h"
  have fields: "length (put_record_fields h) \<le> 173" using ok by (simp add: record_ok_def length_record_fields)
  then have hlen: "unat hl = 14 + length (put_record_fields h)"
    unfolding hl_def by (intro unat_of_nat_u32) simp
  have plen: "unat pl = length (plan_encode p) + 64"
    unfolding pl_def kRecordDigests_def
    by (rule unat_of_nat_u32) (use ok in \<open>simp add: record_ok_def limit_defs kRecordDigests_def\<close>)
  have p: "plan_record_ok p" "length (plan_encode p) + 64 \<le> kMaxPlanRecordBytes"
    using ok by (simp_all add: record_ok_def kRecordDigests_def)
  have lhead: "length head = unat hl" by (simp add: head_def length_record_head hlen)
  have bs': "bs = head @ put_u32 (crc32 head) @ plan_encode p @ sha256_hash (plan_encode p) @ pl_input_digest p"
    by (simp add: bs record_layout_def Let_def head_def hl_def pl_def put_digest_def put_raw_def)
  have len: "length bs = unat hl + 4 + unat pl"
    using p(1) by (simp add: bs' lhead plen length_sha256_hash plan_record_ok_def kDigestBytes_def)
  have take_head: "take (unat hl) bs = head" by (simp add: bs' lhead [symmetric])
  have prefix: "head = kRecordMagic @ put_u16 kStoreFormatVersion @ put_u32 hl @ put_u32 pl @ put_record_fields h"
    by (simp add: head_def record_head_def put_raw_def)
  have "record_sections bs = Inr (kStoreFormatVersion, hl, pl)"
    unfolding record_sections_iff
  proof (intro conjI exI)
    show "get_record_prefix (new_reader bs) = ((kRecordMagic, kStoreFormatVersion, hl, pl),
        reader_at (kRecordMagic @ put_u16 kStoreFormatVersion @ put_u32 hl @ put_u32 pl)
          (put_record_fields h @ drop (unat hl) bs))"
      using codec.decodes [OF strict_codec.axioms(1) [OF record_prefix_codec],
          of "(kRecordMagic, kStoreFormatVersion, hl, pl)" "[]"]
      by (simp add: get_record_prefix_pairs new_reader_at put_raw_def bs' prefix lhead [symmetric])
    show "crc32 (take (unat hl) bs) = le32_at bs (unat hl)"
      unfolding take_head using le32_at_put [of head] by (simp add: bs' lhead)
    show "take 4 bs = kRecordMagic" by (simp add: bs' prefix)
  qed (use fields p len hlen plen in \<open>simp_all add: limit_defs\<close>)
  moreover have "record_header_of bs kStoreFormatVersion hl pl = Inr h"
    unfolding record_header_of_iff take_head prefix using ok by (auto simp: record_ok_def)
  moreover have "record_plan_of bs hl pl = Inr p"
    using p plen by (subst record_plan_of_iff [OF len]) (simp_all add: bs' lhead [symmetric])
  ultimately show "decode_plan_record bs = Inr (p, s)"
    by (simp add: decode_plan_record_def s)
qed

section \<open>Properties\<close>

text \<open>
  C19: the durable formats are exact. The metadata file decodes to three numbers precisely when it
  is their encoding. A plan record decodes precisely when it is laid out as the encoder does it,
  with both checksums right and with the plan's own input digest at its end, around the encoding
  of a plan within its bounds; so a record that is written for a request decodes to the plan if
  the plan was made for that request. The header's generation, bindings, collective, kind and
  digest may be those of any other plan.
\<close>

theorem durable_formats_exact:
  "(decode_meta bs = Inr (epoch, incarnation, sequence) \<longleftrightarrow> bs = encode_meta epoch incarnation sequence) \<and>
   (decode_plan_record bs = Inr (p, s) \<longleftrightarrow>
     (\<exists>h. bs = record_layout h p (pl_input_digest p) \<and> record_ok h p \<and> s = summary_of_record p h (length bs))) \<and>
   (encode_plan_record p r i n t = record_layout (header_of_plan p i n t) p (canonical_digest r))"
  by (simp add: decode_meta_iff decode_plan_record_iff encode_plan_record_layout)

end
