(* ===== verification/Store.thy ===== *)
theory Store
  imports PlanRecord "HOL-Library.AList"
begin

text \<open>
  The plan store (\<open>include/cpath/persistence.hpp\<close>, \<open>src/persistence.cpp\<close>): its state, its
  operations and the files it keeps.

  The regular files of the store's root directory are an association list of names and contents,
  in the order the directory iterator yields them, which is arbitrary. What the operating system
  decides (whether a file can be opened, read, replaced or removed, and the clock) is a record of
  answers that each operation takes. The mutex serialises the operations, so a history is a
  sequence of them; a crash loses the in-memory state and keeps the files. The prose of messages
  is not modelled.

  The index is an association list sorted by digest, as \<open>std::map\<close> iterates over it.
\<close>

section \<open>Files\<close>

type_synonym disk = "(string \<times> bytes) list"

text \<open>A staging file that could not be removed: the two parts of its name and what it holds.\<close>

type_synonym leftover = "(u64 \<times> u64 \<times> bytes) option"

datatype write_outcome =
  WriteDone | CreateFailed | WriteFailed leftover | FlushFailed leftover | ReplaceFailed leftover

datatype read_outcome = ReadDone | OpenFailed | ShortRead

record io_env =
  io_write :: "string \<Rightarrow> write_outcome"
  io_read :: "string \<Rightarrow> read_outcome"
  io_regular :: "string \<Rightarrow> bool"
  io_remove :: "string \<Rightarrow> bool"
  io_create_root :: bool
  io_list_staging :: bool
  io_list_records :: bool
  io_stat_meta :: bool
  io_record_clock :: u64
  io_summary_clock :: u64

record store_config =
  sc_root :: string
  sc_max_records :: nat
  sc_max_record_bytes :: nat
  sc_max_total_bytes :: u64
  sc_durable_commit :: bool

definition default_store_config :: store_config where
  "default_store_config =
     \<lparr>sc_root = [], sc_max_records = kMaxStoreRecords, sc_max_record_bytes = kMaxPlanRecordBytes,
      sc_max_total_bytes = of_nat kMaxStoreTotalBytes, sc_durable_commit = True\<rparr>"

definition has_prefix :: "string \<Rightarrow> string \<Rightarrow> bool" where
  "has_prefix p name \<longleftrightarrow> take (length p) name = p"

text \<open>\<open>path::extension\<close> of a name that does not start with a dot.\<close>

definition extension :: "string \<Rightarrow> string" where
  "extension name =
     (if CHR ''.'' \<in> set name then CHR ''.'' # rev (takeWhile (\<lambda>c. c \<noteq> CHR ''.'') (rev name)) else [])"

definition is_record_name :: "string \<Rightarrow> bool" where
  "is_record_name name \<longleftrightarrow> has_prefix ''plan-'' name \<and> extension name = ''.rec''"

definition is_staging_name :: "string \<Rightarrow> bool" where
  "is_staging_name name \<longleftrightarrow> has_prefix ''tmp-'' name \<and> extension name = ''.tmp''"

definition staging_name :: "u64 \<Rightarrow> u64 \<Rightarrow> string" where
  "staging_name token micros = ''tmp-'' @ hex_of token @ ''-'' @ hex_of micros @ ''.tmp''"

definition leave_staging :: "leftover \<Rightarrow> disk \<Rightarrow> disk" where
  "leave_staging l d =
     (case l of None \<Rightarrow> d | Some (token, micros, bs) \<Rightarrow> AList.update (staging_name token micros) bs d)"

definition write_file_atomic ::
    "write_outcome \<Rightarrow> bool \<Rightarrow> string \<Rightarrow> bytes \<Rightarrow> disk \<Rightarrow> error_code \<times> disk" where
  "write_file_atomic outcome durable target bs d =
     (case outcome of
        WriteDone \<Rightarrow> (kOk, AList.update target bs d)
      | CreateFailed \<Rightarrow> (kStoreIoFailure, d)
      | WriteFailed l \<Rightarrow> (kStoreIoFailure, leave_staging l d)
      | FlushFailed l \<Rightarrow>
          if durable then (kStoreIoFailure, leave_staging l d) else (kOk, AList.update target bs d)
      | ReplaceFailed l \<Rightarrow> (kAtomicReplaceFailed, leave_staging l d))"

definition read_file :: "io_env \<Rightarrow> disk \<Rightarrow> string \<Rightarrow> nat \<Rightarrow> bytes result" where
  "read_file env d name max_bytes =
     (case map_of d name of None \<Rightarrow> Inl kStoreIoFailure
      | Some bs \<Rightarrow>
          if io_read env name = OpenFailed then Inl kStoreIoFailure
          else if length bs > max_bytes then Inl kOversizedRecord
          else if bs \<noteq> [] \<and> io_read env name = ShortRead then Inl kTruncatedRecord
          else Inr bs)"

definition remove_file :: "io_env \<Rightarrow> string \<Rightarrow> disk \<Rightarrow> disk" where
  "remove_file env name d = (if io_remove env name then AList.delete name d else d)"

section \<open>State\<close>

record store_entry =
  en_summary :: stored_summary
  en_path :: string

record store =
  st_open :: bool
  st_epoch :: u64
  st_incarnation :: u64
  st_sequence :: u64
  st_index :: "(digest \<times> store_entry) list"

definition new_store :: store where
  "new_store = \<lparr>st_open = False, st_epoch = 0, st_incarnation = 0, st_sequence = 0, st_index = []\<rparr>"

definition index_find :: "digest \<Rightarrow> (digest \<times> store_entry) list \<Rightarrow> store_entry option" where
  "index_find k ix = map_of ix k"

definition index_erase :: "digest \<Rightarrow> (digest \<times> store_entry) list \<Rightarrow> (digest \<times> store_entry) list" where
  "index_erase k ix = filter (\<lambda>item. fst item \<noteq> k) ix"

definition index_put ::
    "digest \<Rightarrow> store_entry \<Rightarrow> (digest \<times> store_entry) list \<Rightarrow> (digest \<times> store_entry) list" where
  "index_put k e ix = insort_key fst (k, e) (index_erase k ix)"

definition entry_bytes :: "store_entry \<Rightarrow> u64" where
  "entry_bytes e = ss_record_bytes (en_summary e)"

definition index_bytes :: "(digest \<times> store_entry) list \<Rightarrow> u64" where
  "index_bytes ix = sum_list (map (entry_bytes \<circ> snd) ix)"

definition record_count :: "store \<Rightarrow> nat" where
  "record_count st = length (st_index st)"

definition total_stored :: "store \<Rightarrow> u64" where
  "total_stored st = index_bytes (st_index st)"

section \<open>Operations\<close>

definition meta_name :: string where "meta_name = ''store.meta''"

definition persist_meta :: "store_config \<Rightarrow> io_env \<Rightarrow> store \<Rightarrow> disk \<Rightarrow> error_code \<times> disk" where
  "persist_meta cfg env st d =
     write_file_atomic (io_write env meta_name) (sc_durable_commit cfg) meta_name
       (encode_meta (st_epoch st) (st_incarnation st) (st_sequence st)) d"

definition rebuild_entry :: "store_config \<Rightarrow> io_env \<Rightarrow> disk \<Rightarrow> string \<Rightarrow>
    (digest \<times> store_entry) list \<Rightarrow> (digest \<times> store_entry) list" where
  "rebuild_entry cfg env d name ix =
     (if \<not> io_regular env name then ix
      else if \<not> is_record_name name then ix
      else case read_file env d name (sc_max_record_bytes cfg) of Inl _ \<Rightarrow> ix
      | Inr bs \<Rightarrow> (case decode_plan_record bs of Inl _ \<Rightarrow> ix
      | Inr (p, s) \<Rightarrow> index_put (ss_id s) \<lparr>en_summary = s, en_path = name\<rparr> ix))"

definition rebuild_store_index :: "store_config \<Rightarrow> io_env \<Rightarrow> disk \<Rightarrow> store \<Rightarrow> error_code \<times> store" where
  "rebuild_store_index cfg env d st =
     (if \<not> io_list_records env then (kStoreIoFailure, st\<lparr>st_index := []\<rparr>)
      else (kOk, st\<lparr>st_index := fold (rebuild_entry cfg env d) (map fst d) []\<rparr>))"

definition remove_stale :: "io_env \<Rightarrow> disk \<Rightarrow> disk" where
  "remove_stale env d = fold (remove_file env) (filter is_staging_name (map fst d)) d"

definition begin_session :: "store_config \<Rightarrow> io_env \<Rightarrow> store \<Rightarrow> disk \<Rightarrow> error_code \<times> store \<times> disk" where
  "begin_session cfg env st d =
     (let (e, d1) = persist_meta cfg env st d in
      if \<not> is_ok e then (e, st, d1)
      else let (e2, st2) = rebuild_store_index cfg env d1 st in
      if \<not> is_ok e2 then (e2, st2, d1) else (kOk, st2\<lparr>st_open := True\<rparr>, d1))"

definition store_open :: "store_config \<Rightarrow> io_env \<Rightarrow> store \<Rightarrow> disk \<Rightarrow> error_code \<times> store \<times> disk" where
  "store_open cfg env st d =
     (if st_open st then (kStoreAlreadyOpen, st, d)
      else if sc_root cfg = [] then (kStoreIoFailure, st, d)
      else if \<not> io_create_root env then (kStoreIoFailure, st, d)
      else if \<not> io_list_staging env then (kStoreIoFailure, st, d)
      else let d1 = remove_stale env d in
      if map_of d1 meta_name \<noteq> None \<and> io_stat_meta env then
        (case read_file env d1 meta_name kMetaBytes of Inl e \<Rightarrow> (e, st, d1)
         | Inr bs \<Rightarrow>
        (case decode_meta bs of Inl e \<Rightarrow> (e, st, d1)
         | Inr (epoch, incarnation, sequence) \<Rightarrow>
             begin_session cfg env (st\<lparr>st_epoch := epoch + 1, st_incarnation := incarnation + 1,
               st_sequence := sequence\<rparr>) d1))
      else begin_session cfg env (st\<lparr>st_epoch := 1, st_incarnation := 1, st_sequence := 0\<rparr>) d1)"

definition store_close :: "store_config \<Rightarrow> io_env \<Rightarrow> store \<Rightarrow> disk \<Rightarrow> error_code \<times> store \<times> disk" where
  "store_close cfg env st d =
     (if \<not> st_open st then (kOk, st, d)
      else let (e, d1) = persist_meta cfg env st d in (e, st\<lparr>st_index := [], st_open := False\<rparr>, d1))"

text \<open>The oldest records, until the projected num and size are inside the bounds.\<close>

fun choose_evictions :: "store_config \<Rightarrow> (digest \<times> store_entry) list \<Rightarrow> (u64 \<times> digest) list \<Rightarrow> nat \<Rightarrow> u64 \<Rightarrow>
    digest list \<times> nat \<times> u64" where
  "choose_evictions cfg ix [] num used = ([], num, used)"
| "choose_evictions cfg ix ((_, k) # rest) num used =
     (if num \<le> sc_max_records cfg \<and> used \<le> sc_max_total_bytes cfg then ([], num, used)
      else let (evicted, result) = choose_evictions cfg ix rest (num - 1)
             (used - (case index_find k ix of None \<Rightarrow> 0 | Some e \<Rightarrow> entry_bytes e)) in
        (k # evicted, result))"

definition by_age :: "(digest \<times> store_entry) list \<Rightarrow> (u64 \<times> digest) list" where
  "by_age ix = sort (map (\<lambda>(k, e). (ss_sequence (en_summary e), k)) ix)"

definition summary_of_plan :: "plan \<Rightarrow> u64 \<Rightarrow> nat \<Rightarrow> u64 \<Rightarrow> u64 \<Rightarrow> stored_summary" where
  "summary_of_plan p sequence bytes_written incarnation unix_micros =
     \<lparr>ss_id = pl_id p, ss_generation = pl_generation p, ss_bindings = pl_bindings p,
      ss_collective = pl_collective p, ss_kind = pl_kind p, ss_sequence = sequence,
      ss_record_bytes = of_nat bytes_written, ss_incarnation = incarnation,
      ss_unix_micros = unix_micros\<rparr>"

definition store_put :: "store_config \<Rightarrow> io_env \<Rightarrow> plan \<Rightarrow> planning_request \<Rightarrow> store \<Rightarrow> disk \<Rightarrow>
    stored_summary result \<times> store \<times> disk" where
  "store_put cfg env p r st d =
     (if \<not> st_open st then (Inl kStoreNotOpen, st, d)
      else if pl_input_digest p \<noteq> canonical_digest r then (Inl kRecordIncompatible, st, d)
      else if \<not> is_ok (validate_plan p r) then (Inl (validate_plan p r), st, d)
      else let next_sequence = st_sequence st + 1;
               bs = encode_plan_record p r (st_incarnation st) next_sequence (io_record_clock env) in
      if length bs > sc_max_record_bytes cfg then (Inl kOversizedRecord, st, d)
      else let ix = st_index st; k = pl_id p; existing = index_find k ix;
               existing_bytes = (case existing of None \<Rightarrow> 0 | Some e \<Rightarrow> entry_bytes e);
               num = length ix + (if existing = None then 1 else 0);
               used = of_nat (length bs) - existing_bytes + index_bytes ix;
               (evictions, projected_count, projected_bytes) =
                 choose_evictions cfg ix (by_age (index_erase k ix)) num used in
      if projected_count > sc_max_records cfg \<or> projected_bytes > sc_max_total_bytes cfg
        then (Inl kStoreCapacityExceeded, st, d)
      else let removals = map (\<lambda>key. case index_find key ix of None \<Rightarrow> [] | Some e \<Rightarrow> en_path e) evictions;
               target = record_file_name k;
               (e, d1) = write_file_atomic (io_write env target) (sc_durable_commit cfg) target bs d in
      if \<not> is_ok e then (Inl e, st, d1)
      else let s = summary_of_plan p next_sequence (length bs) (st_incarnation st) (io_summary_clock env);
               ix1 = fold index_erase evictions (index_put k \<lparr>en_summary = s, en_path = target\<rparr> ix);
               st1 = st\<lparr>st_sequence := next_sequence, st_index := ix1\<rparr>;
               d2 = fold (remove_file env) removals d1;
               (e2, d3) = persist_meta cfg env st1 d2 in
      if \<not> is_ok e2 then (Inl e2, st1, d3) else (Inr s, st1, d3))"


definition store_summary :: "digest \<Rightarrow> store \<Rightarrow> stored_summary result" where
  "store_summary k st =
     (if \<not> st_open st then Inl kStoreNotOpen
      else case index_find k (st_index st) of None \<Rightarrow> Inl kNotFound | Some e \<Rightarrow> Inr (en_summary e))"

definition store_list :: "store \<Rightarrow> stored_summary list result" where
  "store_list st =
     (if \<not> st_open st then Inl kStoreNotOpen else Inr (map (en_summary \<circ> snd) (st_index st)))"

definition store_erase :: "store_config \<Rightarrow> io_env \<Rightarrow> digest \<Rightarrow> store \<Rightarrow> disk \<Rightarrow> error_code \<times> store \<times> disk" where
  "store_erase cfg env k st d =
     (if \<not> st_open st then (kStoreNotOpen, st, d)
      else case index_find k (st_index st) of None \<Rightarrow> (kNotFound, st, d)
      | Some e \<Rightarrow>
          if \<not> io_remove env (en_path e) then (kStoreIoFailure, st, d)
          else let st1 = st\<lparr>st_index := index_erase k (st_index st)\<rparr>;
                   (err, d1) = persist_meta cfg env st1 (AList.delete (en_path e) d) in (err, st1, d1))"

definition store_verify_all :: "store_config \<Rightarrow> io_env \<Rightarrow> store \<Rightarrow> disk \<Rightarrow> stored_summary list result \<times> store" where
  "store_verify_all cfg env st d =
     (if \<not> st_open st then (Inl kStoreNotOpen, st)
      else let (e, st1) = rebuild_store_index cfg env d st in
      if \<not> is_ok e then (Inl e, st1) else (Inr (map (en_summary \<circ> snd) (st_index st1)), st1))"

fun enforce_loop :: "store_config \<Rightarrow> io_env \<Rightarrow> (u64 \<times> digest) list \<Rightarrow> nat \<Rightarrow> u64 \<Rightarrow>
    (digest \<times> store_entry) list \<Rightarrow> disk \<Rightarrow> error_code \<times> (digest \<times> store_entry) list \<times> disk" where
  "enforce_loop cfg env [] num used ix d = (kOk, ix, d)"
| "enforce_loop cfg env ((_, k) # rest) num used ix d =
     (if num \<le> sc_max_records cfg \<and> used \<le> sc_max_total_bytes cfg then (kOk, ix, d)
      else case index_find k ix of None \<Rightarrow> enforce_loop cfg env rest num used ix d
      | Some e \<Rightarrow>
          if \<not> io_remove env (en_path e) then (kStoreIoFailure, ix, d)
          else enforce_loop cfg env rest (num - 1) (used - entry_bytes e) (index_erase k ix)
                 (AList.delete (en_path e) d))"

definition store_enforce_bounds :: "store_config \<Rightarrow> io_env \<Rightarrow> store \<Rightarrow> disk \<Rightarrow> error_code \<times> store \<times> disk" where
  "store_enforce_bounds cfg env st d =
     (if \<not> st_open st then (kStoreNotOpen, st, d)
      else let ix = st_index st;
               (e, ix1, d1) = enforce_loop cfg env (by_age ix) (length ix) (index_bytes ix) ix d;
               st1 = st\<lparr>st_index := ix1\<rparr> in
      if \<not> is_ok e then (e, st1, d1)
      else let (e2, d2) = persist_meta cfg env st1 d1 in (e2, st1, d2))"




section \<open>Names\<close>

lemma is_record_name_file [simp]: "is_record_name (record_file_name d)"
  by (simp add: is_record_name_def record_file_name_def has_prefix_def extension_def)

lemma meta_not_record [simp]: "\<not> is_record_name meta_name"
  by (simp add: is_record_name_def meta_name_def has_prefix_def)

lemma record_file_not_meta [simp]: "record_file_name k \<noteq> meta_name" "meta_name \<noteq> record_file_name k"
  using is_record_name_file [of k] meta_not_record by metis+

lemma record_not_staging: "is_record_name n \<Longrightarrow> \<not> is_staging_name n"
  by (cases n) (auto simp: is_record_name_def is_staging_name_def has_prefix_def)

lemma meta_not_staging: "\<not> is_staging_name meta_name"
  by (simp add: is_staging_name_def meta_name_def has_prefix_def)

lemma record_file_name_inj:
  "length a = kDigestBytes \<Longrightarrow> length b = kDigestBytes \<Longrightarrow> record_file_name a = record_file_name b \<longleftrightarrow> a = b"
  using from_hex_hex [of a] from_hex_hex [of b] unfolding record_file_name_def
  by (metis append_same_eq same_append_eq sum.inject(2))

text \<open>The files that carry state: the metadata and the records.\<close>

definition carries_state :: "string \<Rightarrow> bool" where
  "carries_state n \<longleftrightarrow> n = meta_name \<or> is_record_name n"

definition same_files :: "disk \<Rightarrow> disk \<Rightarrow> bool" where
  "same_files d d' \<longleftrightarrow> (\<forall>n. carries_state n \<longrightarrow> map_of d' n = map_of d n)"

lemma same_files_refl [simp]: "same_files d d"
  by (simp add: same_files_def)

lemma same_files_trans: "same_files a b \<Longrightarrow> same_files b c \<Longrightarrow> same_files a c"
  by (simp add: same_files_def)

lemma staging_carries_nothing: "\<not> carries_state (staging_name a b)"
  by (simp add: carries_state_def is_record_name_def staging_name_def meta_name_def has_prefix_def)

lemma leave_staging_same: "same_files d (leave_staging l d)"
  using staging_carries_nothing
  by (auto simp: same_files_def leave_staging_def update_conv' split: option.splits)

lemma write_file_atomic_cases:
  assumes "write_file_atomic outcome durable target bs d = (e, d1)"
  shows "is_ok e \<and> d1 = AList.update target bs d \<or> \<not> is_ok e \<and> same_files d d1"
  using assms leave_staging_same
  by (auto simp: write_file_atomic_def split: write_outcome.splits if_splits)

lemma map_of_remove_file: "map_of (remove_file env n d) m = (if m = n \<and> io_remove env n then None else map_of d m)"
  by (simp add: remove_file_def delete_conv')

lemma map_of_remove_files:
  "map_of (fold (remove_file env) ns d) m = (if m \<in> set ns \<and> io_remove env m then None else map_of d m)"
  by (induction ns arbitrary: d) (auto simp: map_of_remove_file)

lemma remove_stale_same: "same_files d (remove_stale env d)"
  using record_not_staging meta_not_staging
  by (auto simp: same_files_def remove_stale_def map_of_remove_files carries_state_def)

section \<open>The index\<close>

definition index_wf :: "(digest \<times> store_entry) list \<Rightarrow> bool" where
  "index_wf ix \<longleftrightarrow> sorted_wrt (<) (map fst ix)"

lemma index_wf_iff: "index_wf ix \<longleftrightarrow> sorted (map fst ix) \<and> distinct (map fst ix)"
  by (simp add: index_wf_def strict_sorted_iff)

lemma index_wf_erase: "index_wf ix \<Longrightarrow> index_wf (index_erase k ix)"
  by (simp add: index_wf_iff index_erase_def sorted_filter distinct_map_filter)

lemma index_wf_put: "index_wf ix \<Longrightarrow> index_wf (index_put k e ix)"
proof -
  assume "index_wf ix"
  then have "index_wf (index_erase k ix)" by (rule index_wf_erase)
  moreover have "distinct (map fst (insort_key fst (k, e) xs)) \<longleftrightarrow> k \<notin> fst ` set xs \<and> distinct (map fst xs)"
    for xs :: "(digest \<times> store_entry) list"
    by (induction xs) (auto simp: set_insort_key)
  moreover have "k \<notin> fst ` set (index_erase k ix)" by (auto simp: index_erase_def)
  ultimately show ?thesis by (simp add: index_wf_iff index_put_def sorted_insort_key)
qed

lemma set_index_erase: "set (index_erase k ix) = {item \<in> set ix. fst item \<noteq> k}"
  by (simp add: index_erase_def)

lemma set_index_put: "set (index_put k e ix) = insert (k, e) {item \<in> set ix. fst item \<noteq> k}"
  by (simp add: index_put_def set_insort_key set_index_erase)

lemma index_find_iff: "index_wf ix \<Longrightarrow> index_find k ix = Some e \<longleftrightarrow> (k, e) \<in> set ix"
  by (simp add: index_find_def index_wf_iff)

lemma index_find_erase: "index_find j (index_erase k ix) = (if j = k then None else index_find j ix)"
  by (induction ix) (auto simp: index_find_def index_erase_def)

lemma index_find_put:
  assumes "index_wf ix"
  shows "index_find j (index_put k e ix) = (if j = k then Some e else index_find j ix)"
proof -
  have "index_find j (index_put k e ix) = Some x \<longleftrightarrow> (if j = k then Some e else index_find j ix) = Some x" for x
    using assms by (auto simp: index_find_iff index_wf_put set_index_put)
  then show ?thesis by (metis not_Some_eq)
qed

lemma fold_erase_wf: "index_wf ix \<Longrightarrow> index_wf (fold index_erase ks ix)"
  by (induction ks arbitrary: ix) (simp_all add: index_wf_erase)

lemma index_find_fold_erase:
  "index_find j (fold index_erase ks ix) = (if j \<in> set ks then None else index_find j ix)"
  by (induction ks arbitrary: ix) (auto simp: index_find_erase)

definition found_bytes :: "(digest \<times> store_entry) list \<Rightarrow> digest \<Rightarrow> u64" where
  "found_bytes ix k = (case index_find k ix of None \<Rightarrow> 0 | Some e \<Rightarrow> entry_bytes e)"

lemma index_erase_absent: "index_find k ix = None \<Longrightarrow> index_erase k ix = ix"
  by (induction ix) (auto simp: index_find_def index_erase_def split: if_splits)

lemma index_bytes_erase: "index_wf ix \<Longrightarrow> index_bytes (index_erase k ix) = index_bytes ix - found_bytes ix k"
proof (induction ix)
  case (Cons item ix)
  obtain j e where item: "item = (j, e)" by fastforce
  have wf: "index_wf ix" using Cons.prems by (simp add: index_wf_def)
  show ?case
  proof (cases "j = k")
    case True
    then have "index_find k ix = None"
      using Cons.prems by (auto simp: index_find_def index_wf_iff item map_of_eq_None_iff)
    then have "index_erase k ix = ix" by (rule index_erase_absent)
    then show ?thesis using True
      by (simp add: item index_bytes_def found_bytes_def index_find_def index_erase_def)
  next
    case False
    with Cons.IH [OF wf] show ?thesis
      by (simp add: item index_bytes_def found_bytes_def index_find_def index_erase_def)
  qed
qed (simp add: index_bytes_def found_bytes_def index_find_def index_erase_def)

lemma length_index_erase:
  "index_wf ix \<Longrightarrow> length (index_erase k ix) = length ix - (if index_find k ix = None then 0 else 1)"
proof (induction ix)
  case (Cons item ix)
  obtain j e where item: "item = (j, e)" by fastforce
  have wf: "index_wf ix" using Cons.prems by (simp add: index_wf_def)
  show ?case
  proof (cases "j = k")
    case True
    then have "index_find k ix = None"
      using Cons.prems by (auto simp: index_find_def index_wf_iff item map_of_eq_None_iff)
    then have "index_erase k ix = ix" by (rule index_erase_absent)
    then show ?thesis using True by (simp add: item index_find_def index_erase_def)
  next
    case False
    moreover have "ix \<noteq> []" if "index_find k ix \<noteq> None" using that by (auto simp: index_find_def)
    ultimately show ?thesis using Cons.IH [OF wf]
      by (cases ix) (auto simp: item index_find_def index_erase_def)
  qed
qed (simp add: index_erase_def)

lemma index_bytes_insort: "index_bytes (insort_key fst x xs) = entry_bytes (snd x) + index_bytes xs"
  by (induction xs) (simp_all add: index_bytes_def ac_simps)

lemma index_bytes_put:
  "index_wf ix \<Longrightarrow> index_bytes (index_put k e ix) = entry_bytes e + (index_bytes ix - found_bytes ix k)"
  by (simp add: index_put_def index_bytes_insort index_bytes_erase)

lemma length_index_put:
  assumes "index_wf ix"
  shows "length (index_put k e ix) = length ix + (if index_find k ix = None then 1 else 0)"
proof -
  have "length ix \<noteq> 0" if "index_find k ix \<noteq> None" using that by (auto simp: index_find_def)
  then show ?thesis using length_index_erase [OF assms, of k] by (simp add: index_put_def length_insort)
qed

section \<open>Eviction\<close>

lemma choose_evictions_spec:
  "choose_evictions cfg ix xs num used = (es, c, t) \<Longrightarrow>
   \<exists>ys zs. xs = ys @ zs \<and> es = map snd ys \<and> c = num - length ys \<and>
     t = used - sum_list (map (found_bytes ix) es)"
proof (induction cfg ix xs num used arbitrary: es c t rule: choose_evictions.induct)
  case (1 cfg ix num used)
  then show ?case by simp
next
  case (2 cfg ix age k rest num used)
  show ?case
  proof (cases "num \<le> sc_max_records cfg \<and> used \<le> sc_max_total_bytes cfg")
    case True
    with 2(2) show ?thesis by - (rule exI [of _ "[]"], rule exI [of _ "(age, k) # rest"], auto)
  next
    case False
    obtain es' c' t' where rec: "choose_evictions cfg ix rest (num - 1) (used - found_bytes ix k) = (es', c', t')"
      by (cases "choose_evictions cfg ix rest (num - 1) (used - found_bytes ix k)")
    from 2(2) False rec have es: "es = k # es'" "c' = c" "t' = t"
      by (auto simp: found_bytes_def split: prod.splits)
    from 2(1) [OF False rec [unfolded found_bytes_def], folded found_bytes_def] obtain ys zs where
      "rest = ys @ zs" "es' = map snd ys" "c' = num - 1 - length ys"
      "t' = used - found_bytes ix k - sum_list (map (found_bytes ix) es')"
      by blast
    with es show ?thesis
      by - (rule exI [of _ "(age, k) # ys"], rule exI [of _ zs], simp add: algebra_simps)
  qed
qed

lemma found_bytes_erase: "j \<noteq> k \<Longrightarrow> found_bytes (index_erase k ix) j = found_bytes ix j"
  by (simp add: found_bytes_def index_find_erase)

lemma found_bytes_put: "index_wf ix \<Longrightarrow> j \<noteq> k \<Longrightarrow> found_bytes (index_put k e ix) j = found_bytes ix j"
  by (simp add: found_bytes_def index_find_put)

lemma fold_erase_size:
  "index_wf ix \<Longrightarrow> distinct es \<Longrightarrow> \<forall>j\<in>set es. index_find j ix \<noteq> None \<Longrightarrow>
   length (fold index_erase es ix) = length ix - length es \<and>
   index_bytes (fold index_erase es ix) = index_bytes ix - sum_list (map (found_bytes ix) es)"
proof (induction es arbitrary: ix)
  case (Cons j es)
  from Cons.prems have "sum_list (map (found_bytes (index_erase j ix)) es) = sum_list (map (found_bytes ix) es)"
    by (intro arg_cong [where f = sum_list] map_cong) (auto intro!: found_bytes_erase)
  moreover have "length (fold index_erase es (index_erase j ix)) = length (index_erase j ix) - length es \<and>
      index_bytes (fold index_erase es (index_erase j ix)) =
        index_bytes (index_erase j ix) - sum_list (map (found_bytes (index_erase j ix)) es)"
    using Cons.prems by (intro Cons.IH) (auto simp: index_wf_erase index_find_erase)
  ultimately show ?case
    using Cons.prems by (simp add: length_index_erase index_bytes_erase)
qed simp

lemma set_by_age: "set (by_age ix) = (\<lambda>(k, e). (ss_sequence (en_summary e), k)) ` set ix"
  by (simp add: by_age_def)

lemma by_age_keys: "mset (map snd (by_age ix)) = mset (map fst ix)"
  by (simp add: by_age_def multiset.map_comp comp_def split_beta)

lemma distinct_by_age: "index_wf ix \<Longrightarrow> distinct (map snd (by_age ix))"
  using mset_eq_imp_distinct_iff [OF by_age_keys [of ix]] by (simp add: index_wf_iff)

lemma sorted_by_age: "sorted (by_age ix)"
  by (simp add: by_age_def)

text \<open>What the eviction step of \<open>put\<close> leaves of the index.\<close>

lemma evicted_index:
  assumes wf: "index_wf ix"
    and chosen: "choose_evictions cfg ix (by_age (index_erase k ix))
      (length ix + (if index_find k ix = None then 1 else 0)) used = (es, c, t)"
    and fits: "c \<le> sc_max_records cfg"
    and ix1: "ix1 = fold index_erase es (index_put k e ix)"
  shows "length ix1 \<le> sc_max_records cfg"
    and "index_bytes ix1 = entry_bytes e + (index_bytes ix - found_bytes ix k) - sum_list (map (found_bytes ix) es)"
    and "t = used - sum_list (map (found_bytes ix) es)"
    and "index_find k ix1 = Some e" "k \<notin> set es"
    and "index_find j ix1 = Some f \<Longrightarrow> j \<noteq> k \<Longrightarrow> index_find j ix = Some f"
    and "index_find j ix1 = Some f \<Longrightarrow> j \<noteq> k \<Longrightarrow> index_find i ix = Some g \<Longrightarrow> index_find i ix1 = None \<Longrightarrow>
      ss_sequence (en_summary g) \<le> ss_sequence (en_summary f)"
proof -
  from choose_evictions_spec [OF chosen] obtain ys zs where
    split: "by_age (index_erase k ix) = ys @ zs" and es: "es = map snd ys"
    and c: "c = length ix + (if index_find k ix = None then 1 else 0) - length ys"
    and t: "t = used - sum_list (map (found_bytes ix) es)" by blast
  have wf': "index_wf (index_put k e ix)" "index_wf (index_erase k ix)"
    using wf by (simp_all add: index_wf_put index_wf_erase)
  have "distinct (map snd (ys @ zs))" using distinct_by_age [OF wf'(2)] by (simp add: split)
  then have dist: "distinct es" by (simp add: es)
  have keys: "set es \<subseteq> fst ` set (index_erase k ix)"
  proof
    fix j assume "j \<in> set es"
    then obtain a where "(a, j) \<in> set ys" by (force simp: es)
    then have "(a, j) \<in> set (by_age (index_erase k ix))" by (simp add: split)
    then show "j \<in> fst ` set (index_erase k ix)" by (force simp: set_by_age)
  qed
  then show k: "k \<notin> set es" by (auto simp: set_index_erase)
  have present: "\<forall>j\<in>set es. index_find j (index_put k e ix) \<noteq> None"
  proof
    fix j assume "j \<in> set es"
    with keys obtain f where "(j, f) \<in> set ix" "j \<noteq> k" by (auto simp: set_index_erase)
    with wf show "index_find j (index_put k e ix) \<noteq> None"
      by (simp add: index_find_put index_find_iff [symmetric])
  qed
  have same: "map (found_bytes (index_put k e ix)) es = map (found_bytes ix) es"
    using k wf by (auto intro!: found_bytes_put)
  note size = fold_erase_size [OF wf'(1) dist present, folded ix1, unfolded same]
  show "length ix1 \<le> sc_max_records cfg"
    using size fits c wf by (simp add: length_index_put es)
  show "index_bytes ix1 = entry_bytes e + (index_bytes ix - found_bytes ix k) - sum_list (map (found_bytes ix) es)"
    using size wf by (simp add: index_bytes_put)
  show "t = used - sum_list (map (found_bytes ix) es)" by (rule t)
  show "index_find k ix1 = Some e" using k wf by (simp add: ix1 index_find_fold_erase index_find_put)
  have find: "index_find j ix1 = (if j \<in> set es then None else if j = k then Some e else index_find j ix)" for j
    using wf by (simp add: ix1 index_find_fold_erase index_find_put)
  show "index_find j ix1 = Some f \<Longrightarrow> j \<noteq> k \<Longrightarrow> index_find j ix = Some f"
    by (simp add: find split: if_splits)
  assume kept: "index_find j ix1 = Some f" "j \<noteq> k" and gone: "index_find i ix = Some g" "index_find i ix1 = None"
  from gone have i: "i \<in> set es" "i \<noteq> k" using k by (auto simp: find split: if_splits)
  from kept have j: "j \<notin> set es" "index_find j ix = Some f" by (auto simp: find split: if_splits)
  have "(ss_sequence (en_summary g), i) \<in> set (ys @ zs)" "(ss_sequence (en_summary f), j) \<in> set (ys @ zs)"
    using gone(1) i(2) j(2) kept(2) wf
    by (force simp: split [symmetric] set_by_age set_index_erase index_find_iff)+
  moreover have "i \<notin> snd ` set zs" using i(1) \<open>distinct (map snd (ys @ zs))\<close> by (auto simp: es)
  ultimately have "(ss_sequence (en_summary g), i) \<in> set ys" "(ss_sequence (en_summary f), j) \<in> set zs"
    using j(1) by (force simp: es)+
  moreover have "\<forall>x\<in>set ys. \<forall>y\<in>set zs. x \<le> y"
    using sorted_by_age [of "index_erase k ix"] unfolding split sorted_append by blast
  ultimately have "(ss_sequence (en_summary g), i) \<le> (ss_sequence (en_summary f), j)" by blast
  then show "ss_sequence (en_summary g) \<le> ss_sequence (en_summary f)" using pair_le_fst by fastforce
qed

section \<open>The invariant\<close>

text \<open>A record file: it decodes, its name is that of its plan, and no later incarnation wrote it.\<close>

definition record_file_ok :: "store_config \<Rightarrow> u64 \<Rightarrow> string \<Rightarrow> bytes \<Rightarrow> bool" where
  "record_file_ok cfg incarnation n bs \<longleftrightarrow> length bs \<le> sc_max_record_bytes cfg \<and>
     (\<exists>p s. decode_plan_record bs = Inr (p, s) \<and> n = record_file_name (pl_id p) \<and>
        length (pl_id p) = kDigestBytes \<and> ss_incarnation s \<le> incarnation)"

definition disk_ok :: "store_config \<Rightarrow> disk \<Rightarrow> bool" where
  "disk_ok cfg d \<longleftrightarrow>
     (\<forall>bs. map_of d meta_name = Some bs \<longrightarrow> (\<exists>e i q. bs = encode_meta e i q)) \<and>
     (\<forall>n bs. map_of d n = Some bs \<longrightarrow> is_record_name n \<longrightarrow>
        (\<exists>e i q. map_of d meta_name = Some (encode_meta e i q) \<and> record_file_ok cfg i n bs))"

text \<open>An index entry describes the file it names, up to the time stamp.\<close>

definition entry_ok :: "disk \<Rightarrow> digest \<Rightarrow> store_entry \<Rightarrow> bool" where
  "entry_ok d k e \<longleftrightarrow> en_path e = record_file_name k \<and> length k = kDigestBytes \<and>
     (\<exists>bs p s. map_of d (en_path e) = Some bs \<and> decode_plan_record bs = Inr (p, s) \<and> pl_id p = k \<and>
        en_summary e = s\<lparr>ss_unix_micros := ss_unix_micros (en_summary e)\<rparr>)"

definition index_ok :: "disk \<Rightarrow> (digest \<times> store_entry) list \<Rightarrow> bool" where
  "index_ok d ix \<longleftrightarrow> index_wf ix \<and> (\<forall>k e. (k, e) \<in> set ix \<longrightarrow> entry_ok d k e)"

definition store_ok :: "store_config \<Rightarrow> store \<Rightarrow> disk \<Rightarrow> bool" where
  "store_ok cfg st d \<longleftrightarrow> disk_ok cfg d \<and>
     (st_open st \<longrightarrow> index_ok d (st_index st) \<and>
        (\<exists>q. map_of d meta_name = Some (encode_meta (st_epoch st) (st_incarnation st) q)))"

lemma encode_meta_inject: "encode_meta e i q = encode_meta e' i' q' \<longleftrightarrow> e = e' \<and> i = i' \<and> q = q'"
  using decode_meta_iff [of "encode_meta e i q"] by (metis Inr_inject Pair_inject)

lemma same_files_disk_ok: "same_files d d' \<Longrightarrow> disk_ok cfg d \<Longrightarrow> disk_ok cfg d'"
  unfolding disk_ok_def same_files_def carries_state_def by (metis meta_not_record)

lemma same_files_entry_ok: "same_files d d' \<Longrightarrow> entry_ok d k e \<Longrightarrow> entry_ok d' k e"
  by (auto simp: entry_ok_def same_files_def carries_state_def)

lemma same_files_index_ok: "same_files d d' \<Longrightarrow> index_ok d ix \<Longrightarrow> index_ok d' ix"
  using same_files_entry_ok by (auto simp: index_ok_def)

lemma same_files_store_ok: "same_files d d' \<Longrightarrow> store_ok cfg st d \<Longrightarrow> store_ok cfg st d'"
  using same_files_disk_ok same_files_index_ok
  unfolding store_ok_def by (metis carries_state_def same_files_def)

text \<open>Rewriting the metadata with the same or a later incarnation keeps the disk in order.\<close>

lemma disk_ok_new_meta:
  assumes "disk_ok cfg d" and "\<And>e i q. map_of d meta_name = Some (encode_meta e i q) \<Longrightarrow> i \<le> incarnation"
  shows "disk_ok cfg (AList.update meta_name (encode_meta epoch incarnation sequence) d)"
  unfolding disk_ok_def
proof (intro conjI allI impI)
  fix bs assume "map_of (AList.update meta_name (encode_meta epoch incarnation sequence) d) meta_name = Some bs"
  then show "\<exists>e i q. bs = encode_meta e i q" by (auto simp: update_conv')
next
  fix n bs assume n: "map_of (AList.update meta_name (encode_meta epoch incarnation sequence) d) n = Some bs"
    "is_record_name n"
  then have "map_of d n = Some bs" by (auto simp: update_conv' split: if_splits)
  with assms(1) n(2) obtain e i q where "map_of d meta_name = Some (encode_meta e i q)" "record_file_ok cfg i n bs"
    unfolding disk_ok_def by blast
  moreover from this assms(2) have "i \<le> incarnation" by blast
  ultimately have "record_file_ok cfg incarnation n bs" by (auto simp: record_file_ok_def)
  then show "\<exists>e i q. map_of (AList.update meta_name (encode_meta epoch incarnation sequence) d) meta_name
      = Some (encode_meta e i q) \<and> record_file_ok cfg i n bs"
    by (auto simp: update_conv')
qed

lemma entry_ok_cong: "map_of d' (en_path e) = map_of d (en_path e) \<Longrightarrow> entry_ok d' k e \<longleftrightarrow> entry_ok d k e"
  by (simp only: entry_ok_def)

lemma entry_ok_update: "n \<noteq> en_path e \<Longrightarrow> entry_ok (AList.update n bs d) k e \<longleftrightarrow> entry_ok d k e"
  by (rule entry_ok_cong) (simp add: update_conv')

lemma index_ok_new_meta: "index_ok d ix \<Longrightarrow> index_ok (AList.update meta_name bs d) ix"
proof -
  assume ix: "index_ok d ix"
  have "entry_ok (AList.update meta_name bs d) k e" if "(k, e) \<in> set ix" for k e
  proof -
    from ix that have e: "entry_ok d k e" by (simp add: index_ok_def)
    then have "meta_name \<noteq> en_path e" unfolding entry_ok_def by simp
    with e show ?thesis by (simp add: entry_ok_update)
  qed
  with ix show ?thesis by (simp add: index_ok_def)
qed

text \<open>Persisting the metadata of an open store.\<close>

lemma persist_meta_ok:
  assumes "persist_meta cfg env st d = (e, d1)" "store_ok cfg st d" "st_open st"
  shows "store_ok cfg st d1"
proof (cases "is_ok e")
  case True
  with write_file_atomic_cases assms(1)
  have d1: "d1 = AList.update meta_name (encode_meta (st_epoch st) (st_incarnation st) (st_sequence st)) d"
    unfolding persist_meta_def by blast
  from assms(2,3) obtain q where "map_of d meta_name = Some (encode_meta (st_epoch st) (st_incarnation st) q)"
    by (auto simp: store_ok_def)
  then have "disk_ok cfg d1" unfolding d1 using assms(2)
    by (intro disk_ok_new_meta) (auto simp: store_ok_def encode_meta_inject)
  moreover have "index_ok d1 (st_index st)"
    unfolding d1 using assms(2,3) by (intro index_ok_new_meta) (simp add: store_ok_def)
  ultimately show ?thesis by (auto simp: store_ok_def d1 update_conv')
next
  case False
  with write_file_atomic_cases assms(1) have "same_files d d1"
    unfolding persist_meta_def by blast
  then show ?thesis using assms(2) by (rule same_files_store_ok)
qed

text \<open>Deleting files that no entry names, and entries whatever happens to their files.\<close>

lemma disk_ok_delete: "disk_ok cfg d \<Longrightarrow> is_record_name n \<Longrightarrow> disk_ok cfg (AList.delete n d)"
proof -
  assume d: "disk_ok cfg d" and n: "is_record_name n"
  then have "meta_name \<noteq> n" using meta_not_record by blast
  then have "map_of (AList.delete n d) meta_name = map_of d meta_name" by (simp add: delete_conv')
  moreover have "map_of (AList.delete n d) m = Some bs \<Longrightarrow> map_of d m = Some bs" for m bs
    by (simp add: delete_conv' split: if_splits)
  ultimately show "disk_ok cfg (AList.delete n d)" using d unfolding disk_ok_def by metis
qed

lemma entry_ok_delete: "n \<noteq> en_path e \<Longrightarrow> entry_ok (AList.delete n d) k e \<longleftrightarrow> entry_ok d k e"
  by (rule entry_ok_cong) (simp add: delete_conv')

lemma store_ok_erase:
  assumes "store_ok cfg st d" "st_open st" "index_find k (st_index st) = Some e"
  shows "store_ok cfg (st\<lparr>st_index := index_erase k (st_index st)\<rparr>) (remove_file env (en_path e) d)"
proof -
  have ix: "index_ok d (st_index st)" using assms(1,2) by (simp add: store_ok_def)
  then have wf: "index_wf (st_index st)" by (simp add: index_ok_def)
  have e: "entry_ok d k e" using ix wf assms(3) by (auto simp: index_ok_def index_find_iff)
  then have name: "is_record_name (en_path e)" by (simp add: entry_ok_def)
  then have "meta_name \<noteq> en_path e" using meta_not_record by metis
  moreover have "disk_ok cfg (remove_file env (en_path e) d)"
    using assms(1) name by (simp add: remove_file_def store_ok_def disk_ok_delete)
  moreover have "entry_ok (remove_file env (en_path e) d) j f" if "(j, f) \<in> set (st_index st)" "j \<noteq> k" for j f
  proof -
    have f: "entry_ok d j f" using ix that by (auto simp: index_ok_def)
    then have "en_path e \<noteq> en_path f"
      using e that(2) record_file_name_inj [of k j] by (auto simp: entry_ok_def)
    with f show ?thesis by (simp add: remove_file_def entry_ok_delete)
  qed
  ultimately show ?thesis
    using assms(1,2) wf by (auto simp: store_ok_def index_ok_def index_wf_erase set_index_erase map_of_remove_file)
qed

section \<open>Every operation keeps the invariant\<close>

lemma decode_plan_record_summary:
  "decode_plan_record bs = Inr (p, s) \<Longrightarrow> ss_id s = pl_id p \<and> ss_generation s = pl_generation p \<and>
     ss_bindings s = pl_bindings p \<and> ss_collective s = pl_collective p \<and> ss_kind s = pl_kind p"
  by (auto simp: decode_plan_record_iff summary_of_record_def)

lemma read_file_content: "read_file env d n m = Inr bs \<Longrightarrow> map_of d n = Some bs"
  by (auto simp: read_file_def split: option.splits if_splits)

lemma rebuild_entry_ok:
  assumes d: "disk_ok cfg d" and ix: "index_ok d ix"
  shows "index_ok d (rebuild_entry cfg env d n ix)"
proof (cases "\<exists>bs p s. is_record_name n \<and> read_file env d n (sc_max_record_bytes cfg) = Inr bs \<and>
    decode_plan_record bs = Inr (p, s)")
  case False
  then have "rebuild_entry cfg env d n ix = ix"
    by (auto simp: rebuild_entry_def split: sum.splits)
  with ix show ?thesis by simp
next
  case True
  then obtain bs p s where n: "is_record_name n" "read_file env d n (sc_max_record_bytes cfg) = Inr bs"
    and dec: "decode_plan_record bs = Inr (p, s)" by blast
  from n have content: "map_of d n = Some bs" by (auto dest: read_file_content)
  with d n(1) dec have name: "n = record_file_name (pl_id p)" "length (pl_id p) = kDigestBytes"
    unfolding disk_ok_def record_file_ok_def by fastforce+
  have "entry_ok d (pl_id p) \<lparr>en_summary = s, en_path = n\<rparr>"
    using content dec name by (auto simp: entry_ok_def)
  with ix have "index_ok d (index_put (pl_id p) \<lparr>en_summary = s, en_path = n\<rparr> ix)"
    by (auto simp: index_ok_def index_wf_put set_index_put)
  with ix dec decode_plan_record_summary [OF dec] n show ?thesis
    by (simp add: rebuild_entry_def)
qed

lemma rebuild_fold_ok: "disk_ok cfg d \<Longrightarrow> index_ok d ix \<Longrightarrow> index_ok d (fold (rebuild_entry cfg env d) ns ix)"
  by (induction ns arbitrary: ix) (simp_all add: rebuild_entry_ok)

lemma index_ok_Nil: "index_ok d []"
  by (simp add: index_ok_def index_wf_def)

lemma rebuild_store_index_ok:
  assumes "rebuild_store_index cfg env d st = (e, st')" "disk_ok cfg d"
  shows "index_ok d (st_index st') \<and> st' = st\<lparr>st_index := st_index st'\<rparr>"
  using assms rebuild_fold_ok [OF assms(2) index_ok_Nil]
  by (auto simp: rebuild_store_index_def index_ok_Nil split: if_splits)

lemma begin_session_ok:
  assumes run: "begin_session cfg env st d = (e, st', d')" and d: "disk_ok cfg d"
    and later: "\<And>ep i q. map_of d meta_name = Some (encode_meta ep i q) \<Longrightarrow> i \<le> st_incarnation st"
    and closed: "\<not> st_open st"
  shows "store_ok cfg st' d'"
    and "is_ok e \<Longrightarrow> st_open st' \<and> st_epoch st' = st_epoch st \<and> st_incarnation st' = st_incarnation st \<and>
      st_sequence st' = st_sequence st \<and> (\<forall>n. is_record_name n \<longrightarrow> map_of d' n = map_of d n)"
proof -
  obtain e1 d1 where meta: "persist_meta cfg env st d = (e1, d1)" by fastforce
  have "store_ok cfg st' d' \<and> (is_ok e \<longrightarrow> st_open st' \<and> st_epoch st' = st_epoch st \<and>
      st_incarnation st' = st_incarnation st \<and> st_sequence st' = st_sequence st \<and>
      (\<forall>n. is_record_name n \<longrightarrow> map_of d' n = map_of d n))"
  proof (cases "is_ok e1")
    case False
    with run meta have "st' = st" "d' = d1" "e = e1" by (auto simp: begin_session_def)
    moreover have "same_files d d1"
      using write_file_atomic_cases False meta unfolding persist_meta_def by blast
    ultimately show ?thesis using d closed False by (auto simp: store_ok_def dest: same_files_disk_ok)
  next
    case True
    then have d1: "d1 = AList.update meta_name (encode_meta (st_epoch st) (st_incarnation st) (st_sequence st)) d"
      using write_file_atomic_cases meta unfolding persist_meta_def by blast
    have ok1: "disk_ok cfg d1" unfolding d1 by (rule disk_ok_new_meta [OF d later])
    obtain e2 st2 where rb: "rebuild_store_index cfg env d1 st = (e2, st2)" by fastforce
    note st2 = rebuild_store_index_ok [OF rb ok1]
    have other: "map_of d1 n = map_of d n" if "is_record_name n" for n
      using that by (auto simp: d1 update_conv')
    show ?thesis
    proof (cases "is_ok e2")
      case False
      with run meta True rb have "st' = st2" "d' = d1" "e = e2" by (auto simp: begin_session_def)
      moreover have "\<not> st_open st2" using st2 closed by (metis store.select_convs(1) store.surjective store.update_convs(5))
      ultimately show ?thesis using ok1 False by (simp add: store_ok_def)
    next
      case True2: True
      with run meta True rb have "st' = st2\<lparr>st_open := True\<rparr>" "d' = d1" by (auto simp: begin_session_def)
      moreover have "st_epoch st2 = st_epoch st" "st_incarnation st2 = st_incarnation st"
        "st_sequence st2 = st_sequence st"
        using st2 by (metis store.select_convs store.surjective store.update_convs(5))+
      ultimately show ?thesis using ok1 st2 other by (auto simp: store_ok_def d1 update_conv')
    qed
  qed
  then show "store_ok cfg st' d'"
    and "is_ok e \<Longrightarrow> st_open st' \<and> st_epoch st' = st_epoch st \<and> st_incarnation st' = st_incarnation st \<and>
      st_sequence st' = st_sequence st \<and> (\<forall>n. is_record_name n \<longrightarrow> map_of d' n = map_of d n)"
    by blast+
qed

text \<open>The next incarnation exists: the counter has not reached the last 64-bit value.\<close>

definition may_open :: "disk \<Rightarrow> bool" where
  "may_open d \<longleftrightarrow> (\<forall>e i q. map_of d meta_name = Some (encode_meta e i q) \<longrightarrow> i \<noteq> - 1)"

lemma word_less_succ: "(i :: u64) \<noteq> - 1 \<Longrightarrow> i < i + 1"
proof -
  assume i: "i \<noteq> - 1"
  have "unat i \<noteq> 2 ^ 64 - 1"
  proof
    assume "unat i = 2 ^ 64 - 1"
    then have "unat i = unat (- 1 :: u64)" by (simp add: unsigned_minus_1_eq_mask mask_eq_exp_minus_1)
    with i show False by (simp add: word_unat_eq_iff)
  qed
  moreover have "unat i < 2 ^ 64" using unsigned_less [of i] by simp
  ultimately have "Suc (unat i) < 2 ^ 64" by linarith
  then show ?thesis by (simp add: word_less_nat_alt unat_word_ariths)
qed

lemma store_open_ok:
  assumes run: "store_open cfg env st d = (e, st', d')" and ok: "store_ok cfg st d"
    and env: "io_stat_meta env" "may_open d"
  shows "store_ok cfg st' d'"
    and "is_ok e \<Longrightarrow> st_open st' \<and> (case map_of d meta_name of
        None \<Rightarrow> st_epoch st' = 1 \<and> st_incarnation st' = 1 \<and> st_sequence st' = 0
      | Some bs \<Rightarrow> bs = encode_meta (st_epoch st' - 1) (st_incarnation st' - 1) (st_sequence st')) \<and>
      (\<forall>k f. index_find k (st_index st') = Some f \<longrightarrow> ss_incarnation (en_summary f) < st_incarnation st')"
proof -
  let ?fence = "st_open st' \<and> (case map_of d meta_name of
        None \<Rightarrow> st_epoch st' = 1 \<and> st_incarnation st' = 1 \<and> st_sequence st' = 0
      | Some bs \<Rightarrow> bs = encode_meta (st_epoch st' - 1) (st_incarnation st' - 1) (st_sequence st')) \<and>
      (\<forall>k f. index_find k (st_index st') = Some f \<longrightarrow> ss_incarnation (en_summary f) < st_incarnation st')"
  define d1 where "d1 = remove_stale env d"
  have same: "same_files d d1" by (simp add: d1_def remove_stale_same)
  have disk: "disk_ok cfg d1" using ok same same_files_disk_ok by (auto simp: store_ok_def)
  have meta: "map_of d1 meta_name = map_of d meta_name" using same by (simp add: same_files_def carries_state_def)
  consider (refused) "st' = st" "d' = d" "\<not> is_ok e"
    | (bad_meta) "st' = st" "d' = d1" "\<not> is_ok e"
    | (resumed) ep i q where "map_of d meta_name = Some (encode_meta ep i q)" "\<not> st_open st"
        "begin_session cfg env (st\<lparr>st_epoch := ep + 1, st_incarnation := i + 1, st_sequence := q\<rparr>) d1 = (e, st', d')"
    | (first) "map_of d meta_name = None" "\<not> st_open st"
        "begin_session cfg env (st\<lparr>st_epoch := 1, st_incarnation := 1, st_sequence := 0\<rparr>) d1 = (e, st', d')"
  proof (cases "st_open st \<or> sc_root cfg = [] \<or> \<not> io_create_root env \<or> \<not> io_list_staging env")
    case True
    with run that(1) show thesis by (auto simp: store_open_def split: if_splits)
  next
    case False
    show thesis
    proof (cases "map_of d meta_name")
      case None
      with False run meta that(4) show thesis by (simp add: store_open_def Let_def d1_def [symmetric])
    next
      case (Some bs)
      from disk meta Some obtain ep i q where bs: "bs = encode_meta ep i q" by (auto simp: disk_ok_def)
      then have dec: "decode_meta bs = Inr (ep, i, q)" by (simp add: decode_meta_iff)
      show thesis
      proof (cases "read_file env d1 meta_name kMetaBytes")
        case (Inl err)
        with False run meta Some env(1) have "st' = st" "d' = d1" "e = err"
          by (auto simp: store_open_def Let_def d1_def [symmetric])
        moreover have "\<not> is_ok err" using Inl by (auto simp: read_file_def split: option.splits if_splits)
        ultimately show thesis using that(2) by simp
      next
        case (Inr bs')
        then have "bs' = bs" using read_file_content [OF Inr] meta Some by simp
        with False run meta Some env(1) Inr dec bs that(3) [of ep i q] show thesis
          by (simp add: store_open_def Let_def d1_def [symmetric])
      qed
    qed
  qed
  then have "store_ok cfg st' d' \<and> (is_ok e \<longrightarrow> ?fence)"
  proof cases
    case refused
    then show ?thesis using ok by simp
  next
    case bad_meta
    then show ?thesis using ok same same_files_store_ok by blast
  next
    case (resumed ep i q)
    have i: "i \<noteq> - 1" using env(2) resumed(1) by (auto simp: may_open_def)
    note session = begin_session_ok [OF resumed(3) disk]
    have later: "i' \<le> i + 1" if "map_of d1 meta_name = Some (encode_meta ep' i' q')" for ep' i' q'
      using that meta resumed(1) word_less_succ [OF i] by (auto simp: encode_meta_inject)
    have ok': "store_ok cfg st' d'" by (rule session(1)) (use later resumed(2) in auto)
    have "?fence" if e: "is_ok e"
    proof -
      have after: "st_open st'" "st_epoch st' = ep + 1" "st_incarnation st' = i + 1" "st_sequence st' = q"
        "\<And>n. is_record_name n \<Longrightarrow> map_of d' n = map_of d1 n"
        using session(2) [OF _ _ e] later resumed(2) by auto
      have "ss_incarnation (en_summary f) \<le> i" if f: "index_find k (st_index st') = Some f" for k f
      proof -
        from ok' after(1) f have "entry_ok d' k f"
          by (auto simp: store_ok_def index_ok_def index_find_iff)
        then obtain bs p s where content: "is_record_name (en_path f)" "map_of d' (en_path f) = Some bs"
          "decode_plan_record bs = Inr (p, s)" "en_summary f = s\<lparr>ss_unix_micros := ss_unix_micros (en_summary f)\<rparr>"
          by (auto simp: entry_ok_def)
        then have "map_of d1 (en_path f) = Some bs" using after(5) by simp
        with disk content(1) meta resumed(1) have "record_file_ok cfg i (en_path f) bs"
          unfolding disk_ok_def by (metis encode_meta_inject option.inject)
        with content(3) have "ss_incarnation s \<le> i" by (auto simp: record_file_ok_def)
        moreover have "ss_incarnation (en_summary f) = ss_incarnation s"
          by (subst content(4)) simp
        ultimately show ?thesis by simp
      qed
      with after resumed(1) word_less_succ [OF i] show ?thesis by (auto intro: order_le_less_trans)
    qed
    with ok' show ?thesis by blast
  next
    case first
    note session = begin_session_ok [OF first(3) disk]
    have later: "i' \<le> 1" if "map_of d1 meta_name = Some (encode_meta ep' i' q')" for ep' i' q'
      using that meta first(1) by simp
    have ok': "store_ok cfg st' d'" by (rule session(1)) (use later first(2) in auto)
    have "?fence" if e: "is_ok e"
    proof -
      have after: "st_open st'" "st_epoch st' = 1" "st_incarnation st' = 1" "st_sequence st' = 0"
        "\<And>n. is_record_name n \<Longrightarrow> map_of d' n = map_of d1 n"
        using session(2) [OF _ _ e] later first(2) by auto
      have "index_find k (st_index st') = None" for k
      proof (rule ccontr)
        assume "index_find k (st_index st') \<noteq> None"
        then obtain f where "index_find k (st_index st') = Some f" by blast
        with ok' after(1) have "entry_ok d' k f" by (auto simp: store_ok_def index_ok_def index_find_iff)
        then obtain bs where "is_record_name (en_path f)" "map_of d1 (en_path f) = Some bs"
          using after(5) by (auto simp: entry_ok_def)
        with disk meta first(1) show False by (auto simp: disk_ok_def)
      qed
      with after first(1) show ?thesis by simp
    qed
    with ok' show ?thesis by blast
  qed
  then show "store_ok cfg st' d'" and "is_ok e \<Longrightarrow> ?fence" by blast+
qed

lemma store_ok_closed: "store_ok cfg st d \<Longrightarrow> store_ok cfg (st\<lparr>st_index := ix, st_open := False\<rparr>) d"
  by (simp add: store_ok_def)

lemma store_close_ok:
  assumes "store_close cfg env st d = (e, st', d')" "store_ok cfg st d"
  shows "store_ok cfg st' d'"
proof (cases "st_open st")
  case False
  with assms show ?thesis by (simp add: store_close_def)
next
  case True
  with assms persist_meta_ok [of cfg env st d e d'] show ?thesis
    by (auto simp: store_close_def Let_def store_ok_closed split: prod.splits)
qed

lemma store_erase_ok:
  assumes run: "store_erase cfg env k st d = (e, st', d')" and ok: "store_ok cfg st d"
  shows "store_ok cfg st' d'"
proof (cases "st_open st \<and> (\<exists>f. index_find k (st_index st) = Some f \<and> io_remove env (en_path f))")
  case False
  with run ok show ?thesis by (auto simp: store_erase_def split: option.splits if_splits)
next
  case True
  then obtain f where f: "st_open st" "index_find k (st_index st) = Some f" "io_remove env (en_path f)" by blast
  define st1 where "st1 = st\<lparr>st_index := index_erase k (st_index st)\<rparr>"
  have "store_ok cfg st1 (AList.delete (en_path f) d)"
    using store_ok_erase [OF ok f(1,2), of env] f(3) by (simp add: remove_file_def st1_def)
  moreover from run f have "persist_meta cfg env st1 (AList.delete (en_path f) d) = (e, d')" "st' = st1"
    by (auto simp: store_erase_def Let_def st1_def split: prod.splits)
  moreover have "st_open st1" using f(1) by (simp add: st1_def)
  ultimately show ?thesis using persist_meta_ok by blast
qed

lemma store_verify_all_ok:
  assumes "store_verify_all cfg env st d = (res, st')" "store_ok cfg st d"
  shows "store_ok cfg st' d"
proof (cases "st_open st")
  case False
  with assms show ?thesis by (simp add: store_verify_all_def)
next
  case True
  obtain e st1 where rb: "rebuild_store_index cfg env d st = (e, st1)" by fastforce
  with assms(1) True have "st' = st1" by (auto simp: store_verify_all_def Let_def split: if_splits)
  moreover have "index_ok d (st_index st1)" "st1 = st\<lparr>st_index := st_index st1\<rparr>"
    using rebuild_store_index_ok [OF rb] assms(2) by (auto simp: store_ok_def)
  ultimately show ?thesis using assms(2) True
    unfolding store_ok_def by (metis store.select_convs(1-3) store.surjective store.update_convs(5))
qed

lemma enforce_loop_ok:
  "enforce_loop cfg env xs num used ix d = (e, ix', d') \<Longrightarrow> store_ok cfg (st\<lparr>st_index := ix\<rparr>) d \<Longrightarrow>
   st_open st \<Longrightarrow> store_ok cfg (st\<lparr>st_index := ix'\<rparr>) d'"
proof (induction cfg env xs num used ix d rule: enforce_loop.induct)
  case (2 cfg env age k rest num used ix d)
  show ?case
  proof (cases "num \<le> sc_max_records cfg \<and> used \<le> sc_max_total_bytes cfg")
    case True
    with 2(3,4) show ?thesis by auto
  next
    case False
    show ?thesis
    proof (cases "index_find k ix")
      case None
      with 2(3) False have "enforce_loop cfg env rest num used ix d = (e, ix', d')" by auto
      from 2(1) [OF False None this 2(4,5)] show ?thesis .
    next
      case (Some f)
      show ?thesis
      proof (cases "io_remove env (en_path f)")
        case no: False
        with 2(3,4) False Some show ?thesis by auto
      next
        case yes: True
        with 2(3) False Some have "enforce_loop cfg env rest (num - 1) (used - entry_bytes f)
            (index_erase k ix) (AList.delete (en_path f) d) = (e, ix', d')" by auto
        moreover have "store_ok cfg (st\<lparr>st_index := index_erase k ix\<rparr>) (AList.delete (en_path f) d)"
          using store_ok_erase [OF 2(4), of k f env] 2(5) Some yes by (simp add: remove_file_def)
        ultimately show ?thesis using 2(2) [OF False Some _ _ _ 2(5)] yes by blast
      qed
    qed
  qed
qed simp

lemma store_enforce_bounds_ok:
  assumes run: "store_enforce_bounds cfg env st d = (e, st', d')" and ok: "store_ok cfg st d"
  shows "store_ok cfg st' d'"
proof (cases "st_open st")
  case False
  with run ok show ?thesis by (simp add: store_enforce_bounds_def)
next
  case True
  obtain e1 ix1 d1 where loop: "enforce_loop cfg env (by_age (st_index st)) (length (st_index st))
      (index_bytes (st_index st)) (st_index st) d = (e1, ix1, d1)" by (metis prod_cases3)
  have ok1: "store_ok cfg (st\<lparr>st_index := ix1\<rparr>) d1"
    by (rule enforce_loop_ok [OF loop _ True]) (use ok in simp)
  show ?thesis
  proof (cases "is_ok e1")
    case False
    with run True loop ok1 show ?thesis by (auto simp: store_enforce_bounds_def Let_def)
  next
    case ok_e1: True
    with run True loop have "persist_meta cfg env (st\<lparr>st_index := ix1\<rparr>) d1 = (e, d')" "st' = st\<lparr>st_index := ix1\<rparr>"
      by (auto simp: store_enforce_bounds_def Let_def split: prod.splits)
    with persist_meta_ok ok1 True show ?thesis by fastforce
  qed
qed

text \<open>\<open>put\<close>: the record that is written decodes to the plan, and evicted files belong to no other entry.\<close>

lemma length_encode_plan_record:
  "length (plan_encode p) + kRecordDigests \<le> length (encode_plan_record p r i n t)"
  if "length (pl_input_digest p) = kDigestBytes" "canonical_digest r = pl_input_digest p"
  using that by (simp add: encode_plan_record_layout record_layout_def Let_def put_digest_def put_raw_def
      length_sha256_hash kRecordDigests_def kDigestBytes_def)

lemma put_record_decodes:
  assumes "plan_record_ok p" "canonical_digest r = pl_input_digest p"
    and "length (encode_plan_record p r i n t) \<le> kMaxPlanRecordBytes"
  shows "decode_plan_record (encode_plan_record p r i n t) =
    Inr (p, summary_of_plan p n (length (encode_plan_record p r i n t)) i t)"
proof -
  let ?h = "header_of_plan p i n t"
  have digest: "length (pl_input_digest p) = kDigestBytes" using assms(1) by (simp add: plan_record_ok_def)
  have "record_ok ?h p"
    using assms length_encode_plan_record [OF digest assms(2), of i n t]
    by (auto simp: record_ok_def header_fields_ok_def header_of_plan_def plan_record_ok_def collective_kind_value_le)
  then show ?thesis
    unfolding decode_plan_record_iff
    by (intro exI [of _ ?h])
      (simp add: encode_plan_record_layout assms(2) summary_of_record_def summary_of_plan_def header_of_plan_def)
qed

lemma removals_ok:
  "disk_ok cfg d \<Longrightarrow> \<forall>n\<in>set ns. is_record_name n \<Longrightarrow> disk_ok cfg (fold (remove_file env) ns d)"
  by (induction ns arbitrary: d) (auto simp: remove_file_def disk_ok_delete)

lemma choose_evictions_known:
  assumes "index_wf ix" "choose_evictions cfg ix (by_age (index_erase k ix)) num used = (es, c, t)" "j \<in> set es"
  shows "\<exists>f. index_find j ix = Some f \<and> j \<noteq> k"
proof -
  from choose_evictions_spec [OF assms(2)] assms(3) obtain a where "(a, j) \<in> set (by_age (index_erase k ix))"
    by (metis (no_types, lifting) UnCI imageE prod.collapse set_append set_map)
  then show ?thesis using assms(1) by (auto simp: set_by_age set_index_erase index_find_iff)
qed

lemma put_commit_ok:
  assumes ok: "store_ok cfg st d" "st_open st" and p: "plan_record_ok p" "canonical_digest r = pl_input_digest p"
    and size: "length bs \<le> sc_max_record_bytes cfg" "sc_max_record_bytes cfg \<le> kMaxPlanRecordBytes"
    and bs: "bs = encode_plan_record p r (st_incarnation st) n t"
    and es: "\<And>j. j \<in> set es \<Longrightarrow> \<exists>f. index_find j (st_index st) = Some f \<and> j \<noteq> pl_id p"
    and ix1: "ix1 = fold index_erase es (index_put (pl_id p)
      \<lparr>en_summary = summary_of_plan p n (length bs) (st_incarnation st) t', en_path = record_file_name (pl_id p)\<rparr>
      (st_index st))"
    and d2: "d2 = fold (remove_file env)
      (map (\<lambda>j. case index_find j (st_index st) of None \<Rightarrow> [] | Some f \<Rightarrow> en_path f) es)
      (AList.update (record_file_name (pl_id p)) bs d)"
  shows "store_ok cfg (st\<lparr>st_sequence := q, st_index := ix1\<rparr>) d2"
proof -
  let ?name = "record_file_name (pl_id p)"
  define d1 where "d1 = AList.update ?name bs d"
  define ns where "ns = map (\<lambda>j. case index_find j (st_index st) of None \<Rightarrow> [] | Some f \<Rightarrow> en_path f) es"
  have d2: "d2 = fold (remove_file env) ns d1" by (simp add: d2 d1_def ns_def)
  have ix: "index_ok d (st_index st)" "index_wf (st_index st)" and disk: "disk_ok cfg d"
    using ok by (auto simp: store_ok_def index_ok_def)
  obtain eq where meta: "map_of d meta_name = Some (encode_meta (st_epoch st) (st_incarnation st) eq)"
    using ok by (auto simp: store_ok_def)
  have len: "length (pl_id p) = kDigestBytes" using p(1) by (simp add: plan_record_ok_def)
  have dec: "decode_plan_record bs = Inr (p, summary_of_plan p n (length bs) (st_incarnation st) t)"
    using put_record_decodes [OF p] size by (simp add: bs)
  have names: "\<forall>m\<in>set ns. \<exists>j\<in>set es. m = record_file_name j \<and> length j = kDigestBytes \<and> j \<noteq> pl_id p"
  proof
    fix m assume "m \<in> set ns"
    then obtain j where j: "j \<in> set es"
      "m = (case index_find j (st_index st) of None \<Rightarrow> [] | Some f \<Rightarrow> en_path f)"
      unfolding ns_def by auto
    from es [OF j(1)] obtain f where f: "index_find j (st_index st) = Some f" "j \<noteq> pl_id p" by blast
    with ix have "entry_ok d j f" by (simp add: index_ok_def index_find_iff)
    with j f show "\<exists>j\<in>set es. m = record_file_name j \<and> length j = kDigestBytes \<and> j \<noteq> pl_id p"
      by (auto simp: entry_ok_def)
  qed
  have "disk_ok cfg d1"
    unfolding disk_ok_def
  proof (intro conjI allI impI)
    fix b assume "map_of d1 meta_name = Some b"
    then show "\<exists>e i q. b = encode_meta e i q"
      using disk by (auto simp: d1_def update_conv' disk_ok_def)
  next
    fix m b assume m: "map_of d1 m = Some b" "is_record_name m"
    have "map_of d1 meta_name = map_of d meta_name" by (simp add: d1_def update_conv')
    moreover have "record_file_ok cfg (st_incarnation st) m b"
    proof (cases "m = ?name")
      case True
      then show ?thesis using m(1) dec size(1) len
        by (auto simp: record_file_ok_def d1_def update_conv' summary_of_plan_def)
    next
      case False
      then have "map_of d m = Some b" using m(1) by (simp add: d1_def update_conv')
      with disk m(2) meta show ?thesis
        unfolding disk_ok_def by (metis encode_meta_inject option.inject)
    qed
    ultimately show "\<exists>e i q. map_of d1 meta_name = Some (encode_meta e i q) \<and> record_file_ok cfg i m b"
      using meta by auto
  qed
  then have disk2: "disk_ok cfg d2" unfolding d2 by (rule removals_ok) (use names in auto)
  have meta2: "map_of d2 meta_name = map_of d meta_name"
    using names by (auto simp: d2 map_of_remove_files d1_def update_conv')
  have wf1: "index_wf ix1" using ix(2) by (simp add: ix1 fold_erase_wf index_wf_put)
  have "entry_ok d2 k e" if item: "(k, e) \<in> set ix1" for k e
  proof -
    have k: "k \<notin> set es" and e: "(if k = pl_id p
        then e = \<lparr>en_summary = summary_of_plan p n (length bs) (st_incarnation st) t', en_path = ?name\<rparr>
        else index_find k (st_index st) = Some e)"
      using item wf1 ix(2) by (auto simp: index_find_iff [symmetric] ix1 index_find_fold_erase index_find_put
          split: if_splits)
    have keep: "map_of d2 (record_file_name k) = map_of d1 (record_file_name k)" if "length k = kDigestBytes"
      using names k that record_file_name_inj [of k] by (auto simp: d2 map_of_remove_files)
    show ?thesis
    proof (cases "k = pl_id p")
      case True
      with e keep len dec show ?thesis
        by (simp add: entry_ok_def d1_def update_conv' summary_of_plan_def)
    next
      case False
      with e ix have old: "entry_ok d k e" by (simp add: index_ok_def index_find_iff)
      then have "length k = kDigestBytes" "en_path e = record_file_name k" by (simp_all add: entry_ok_def)
      moreover from this False len have "record_file_name k \<noteq> ?name" by (simp add: record_file_name_inj)
      ultimately have "map_of d2 (en_path e) = map_of d (en_path e)"
        using keep by (simp add: d1_def update_conv')
      with old show ?thesis using entry_ok_cong by blast
    qed
  qed
  with disk2 wf1 meta meta2 show ?thesis by (auto simp: store_ok_def index_ok_def)
qed

lemma store_put_ok:
  assumes run: "store_put cfg env p r st d = (res, st', d')" and ok: "store_ok cfg st d"
    and p: "plan_record_ok p" and cfg: "sc_max_record_bytes cfg \<le> kMaxPlanRecordBytes"
  shows "store_ok cfg st' d'"
proof -
  define bs where "bs = encode_plan_record p r (st_incarnation st) (st_sequence st + 1) (io_record_clock env)"
  define ix where "ix = st_index st"
  define k where "k = pl_id p"
  obtain es c t where chosen: "choose_evictions cfg ix (by_age (index_erase k ix))
      (length ix + (if index_find k ix = None then 1 else 0))
      (of_nat (length bs) - found_bytes ix k + index_bytes ix) = (es, c, t)" by (metis prod_cases3)
  define s where "s = summary_of_plan p (st_sequence st + 1) (length bs) (st_incarnation st) (io_summary_clock env)"
  define ix1 where "ix1 = fold index_erase es (index_put k \<lparr>en_summary = s, en_path = record_file_name k\<rparr> ix)"
  define st1 where "st1 = st\<lparr>st_sequence := st_sequence st + 1, st_index := ix1\<rparr>"
  obtain e d1 where committed: "write_file_atomic (io_write env (record_file_name k)) (sc_durable_commit cfg)
      (record_file_name k) bs d = (e, d1)" by fastforce
  define d2 where "d2 = fold (remove_file env)
      (map (\<lambda>j. case index_find j ix of None \<Rightarrow> [] | Some f \<Rightarrow> en_path f) es) d1"
  obtain e2 d3 where meta: "persist_meta cfg env st1 d2 = (e2, d3)" by fastforce
  note names = bs_def ix_def k_def found_bytes_def s_def ix1_def st1_def d2_def
  show ?thesis
  proof (cases "st_open st \<and> pl_input_digest p = canonical_digest r \<and> is_ok (validate_plan p r) \<and>
      \<not> length bs > sc_max_record_bytes cfg \<and> \<not> c > sc_max_records cfg \<and> \<not> t > sc_max_total_bytes cfg")
    case False
    with chosen have "snd (store_put cfg env p r st d) = (st, d)"
      unfolding store_put_def Let_def names by auto
    with run ok show ?thesis by simp
  next
    case True
    then have go: "st_open st" "canonical_digest r = pl_input_digest p" "length bs \<le> sc_max_record_bytes cfg"
      by simp_all
    have wf: "index_wf ix" using ok go(1) by (simp add: store_ok_def index_ok_def ix_def)
    show ?thesis
    proof (cases "is_ok e")
      case no: False
      with chosen committed True have "store_put cfg env p r st d = (Inl e, st, d1)"
        unfolding store_put_def Let_def names by simp
      with run have "st' = st \<and> d' = d1" by simp
      moreover have "same_files d d1" using write_file_atomic_cases [OF committed] no by blast
      ultimately show ?thesis using ok same_files_store_ok by blast
    next
      case yes: True
      have d1: "d1 = AList.update (record_file_name k) bs d" using write_file_atomic_cases [OF committed] yes by blast
      have "store_ok cfg st1 d2"
        unfolding st1_def
        by (rule put_commit_ok [OF ok go(1) p go(2,3) cfg bs_def choose_evictions_known])
          (use wf chosen in \<open>simp_all add: ix_def k_def ix1_def s_def d2_def d1\<close>)
      moreover have "st_open st1" using go(1) by (simp add: st1_def)
      ultimately have "store_ok cfg st1 d3" using persist_meta_ok [OF meta] by blast
      moreover have "snd (store_put cfg env p r st d) = (st1, d3)"
        using chosen committed meta True yes unfolding store_put_def Let_def names by simp
      then have "st' = st1 \<and> d' = d3" using run by simp
      ultimately show ?thesis by simp
    qed
  qed
qed

section \<open>Histories\<close>

text \<open>
  Every state a store can be in after starting from an empty directory: any sequence of
  operations, whatever the operating system answers, with crashes in between. A crash inside an
  operation leaves the files as the same operation does when its remaining file accesses fail.
  Two things are taken from the outside: the metadata file can be queried when the store is
  opened, and only plans the record format can hold are put.
\<close>

inductive reachable :: "store_config \<Rightarrow> store \<Rightarrow> disk \<Rightarrow> bool" for cfg where
  fresh: "reachable cfg new_store []"
| crash: "reachable cfg st d \<Longrightarrow> reachable cfg new_store d"
| opened: "reachable cfg st d \<Longrightarrow> io_stat_meta env \<Longrightarrow> may_open d \<Longrightarrow>
    store_open cfg env st d = (e, st', d') \<Longrightarrow> reachable cfg st' d'"
| closed: "reachable cfg st d \<Longrightarrow> store_close cfg env st d = (e, st', d') \<Longrightarrow> reachable cfg st' d'"
| stored: "reachable cfg st d \<Longrightarrow> plan_record_ok p \<Longrightarrow>
    store_put cfg env p r st d = (res, st', d') \<Longrightarrow> reachable cfg st' d'"
| erased: "reachable cfg st d \<Longrightarrow> store_erase cfg env k st d = (e, st', d') \<Longrightarrow> reachable cfg st' d'"
| verified: "reachable cfg st d \<Longrightarrow> store_verify_all cfg env st d = (ss, st') \<Longrightarrow> reachable cfg st' d"
| bounded: "reachable cfg st d \<Longrightarrow> store_enforce_bounds cfg env st d = (e, st', d') \<Longrightarrow> reachable cfg st' d'"

lemma reachable_ok:
  assumes "reachable cfg st d" and cfg: "sc_max_record_bytes cfg \<le> kMaxPlanRecordBytes"
  shows "store_ok cfg st d"
  using assms(1)
proof induction
  case fresh
  show ?case by (simp add: store_ok_def disk_ok_def new_store_def)
next
  case (crash st d)
  then show ?case by (simp add: store_ok_def new_store_def)
next
  case opened
  then show ?case by (blast intro: store_open_ok(1))
next
  case closed
  then show ?case by (blast intro: store_close_ok)
next
  case stored
  then show ?case using cfg by (blast intro: store_put_ok)
next
  case erased
  then show ?case by (blast intro: store_erase_ok)
next
  case verified
  then show ?case by (blast intro: store_verify_all_ok)
next
  case bounded
  then show ?case by (blast intro: store_enforce_bounds_ok)
qed

lemma store_put_success:
  assumes run: "store_put cfg env p r st d = (Inr s, st', d')"
  obtains bs es c t where "st_open st" "bs = encode_plan_record p r (st_incarnation st) (st_sequence st + 1) (io_record_clock env)"
    "choose_evictions cfg (st_index st) (by_age (index_erase (pl_id p) (st_index st)))
       (length (st_index st) + (if index_find (pl_id p) (st_index st) = None then 1 else 0))
       (of_nat (length bs) - found_bytes (st_index st) (pl_id p) + index_bytes (st_index st)) = (es, c, t)"
    "c \<le> sc_max_records cfg" "t \<le> sc_max_total_bytes cfg"
    "s = summary_of_plan p (st_sequence st + 1) (length bs) (st_incarnation st) (io_summary_clock env)"
    "st' = st\<lparr>st_sequence := st_sequence st + 1, st_index := fold index_erase es
       (index_put (pl_id p) \<lparr>en_summary = s, en_path = record_file_name (pl_id p)\<rparr> (st_index st))\<rparr>"
proof -
  define bs where "bs = encode_plan_record p r (st_incarnation st) (st_sequence st + 1) (io_record_clock env)"
  obtain es c t where chosen: "choose_evictions cfg (st_index st) (by_age (index_erase (pl_id p) (st_index st)))
      (length (st_index st) + (if index_find (pl_id p) (st_index st) = None then 1 else 0))
      (of_nat (length bs) - found_bytes (st_index st) (pl_id p) + index_bytes (st_index st)) = (es, c, t)"
    by (metis prod_cases3)
  from run have "st_open st" by (auto simp: store_put_def split: if_splits)
  from run chosen have fits: "\<not> c > sc_max_records cfg" "\<not> t > sc_max_total_bytes cfg"
    unfolding store_put_def Let_def bs_def found_bytes_def by (auto split: if_splits)
  from run chosen have result:
    "s = summary_of_plan p (st_sequence st + 1) (length bs) (st_incarnation st) (io_summary_clock env) \<and>
     st' = st\<lparr>st_sequence := st_sequence st + 1, st_index := fold index_erase es
       (index_put (pl_id p) \<lparr>en_summary = summary_of_plan p (st_sequence st + 1) (length bs) (st_incarnation st)
          (io_summary_clock env), en_path = record_file_name (pl_id p)\<rparr> (st_index st))\<rparr>"
    unfolding store_put_def Let_def bs_def found_bytes_def by (auto split: if_splits prod.splits)
  show thesis
    by (rule that [OF \<open>st_open st\<close> bs_def chosen]) (use fits result in auto)
qed




section \<open>A concrete history\<close>

definition quiet_env :: io_env where
  "quiet_env =
     \<lparr>io_write = \<lambda>_. WriteDone, io_read = \<lambda>_. ReadDone, io_regular = \<lambda>_. True, io_remove = \<lambda>_. True,
      io_create_root = True, io_list_staging = True, io_list_records = True, io_stat_meta = True,
      io_record_clock = 5, io_summary_clock = 6\<rparr>"

definition plain_config :: store_config where
  "plain_config = default_store_config\<lparr>sc_root := ''plans''\<rparr>"

definition first_session :: store where
  "first_session = \<lparr>st_open = True, st_epoch = 1, st_incarnation = 1, st_sequence = 0, st_index = []\<rparr>"

definition first_disk :: disk where
  "first_disk = [(meta_name, encode_meta 1 1 0)]"

definition ones :: digest where "ones = replicate 32 1"

definition stored_request :: planning_request where
  "stored_request = bare_request\<lparr>canonical_digest := ones, canonical_bytes := 0\<rparr>"

definition stored_bytes :: bytes where
  "stored_bytes = encode_plan_record (small_plan ones) stored_request 1 1 5"

definition stored_entry :: store_entry where
  "stored_entry = \<lparr>en_summary = summary_of_plan (small_plan ones) 1 (length stored_bytes) 1 6,
     en_path = record_file_name ones\<rparr>"

definition stored_state :: store where
  "stored_state = first_session\<lparr>st_sequence := 1, st_index := [(ones, stored_entry)]\<rparr>"

definition stored_disk :: disk where
  "stored_disk = [(meta_name, encode_meta 1 1 1), (record_file_name ones, stored_bytes)]"

lemma plain_config_sizes [simp]:
  "sc_max_record_bytes plain_config = 16777216" "sc_max_records plain_config = 4096"
  "sc_max_total_bytes plain_config = 536870912" "sc_root plain_config = ''plans''"
  by (simp_all add: plain_config_def default_store_config_def limit_defs)

lemma record_bound: "sc_max_record_bytes plain_config \<le> kMaxPlanRecordBytes"
  by (simp add: limit_defs)

lemma first_open: "store_open plain_config quiet_env new_store [] = (kOk, first_session, first_disk)"
  by (simp add: store_open_def remove_stale_def begin_session_def persist_meta_def write_file_atomic_def
      rebuild_store_index_def rebuild_entry_def quiet_env_def new_store_def first_session_def first_disk_def)

lemma first_reachable: "reachable plain_config first_session first_disk"
  by (rule reachable.opened [OF reachable.fresh _ _ first_open])
    (simp_all add: quiet_env_def may_open_def)

lemma stored_plan_valid: "is_ok (validate_plan (small_plan ones) stored_request)"
proof -
  have valid: "is_ok (check_identity small_request (small_plan (canonical_digest small_request)))"
    "is_ok (check_contents small_request (small_plan (canonical_digest small_request)))"
    using small_plan_valid by (auto simp: validate_plan_def and_then_def split: if_splits)
  have "is_ok (check_contents stored_request (small_plan ones))"
    using valid(2) unfolding stored_request_def
    by (subst (asm) small_request_bare)
      (simp only: check_contents_digest [where r = bare_request and ?d2.0 = "[]"])
  moreover have "is_ok (check_identity stored_request (small_plan ones))"
    using valid(1)
    by (simp add: check_identity_iff small_plan_def stored_request_def bare_request_def small_request_def
        current_bindings_def)
  ultimately show ?thesis by (simp add: validate_plan_def and_then_def)
qed

lemma meta_length: "length (encode_meta e i q) = 34"
  by (simp add: encode_meta_def Let_def put_raw_def)

lemma length_put_string: "length (put_string s) = 4 + length s"
  by (simp add: put_string_def put_raw_def)

lemma stored_bytes_length: "length stored_bytes \<le> 2000"
  by (simp add: stored_bytes_def encode_plan_record_layout record_layout_def Let_def length_record_head
      put_record_fields_def header_of_plan_def encode_bindings_def length_put_string put_digest_def put_raw_def
      length_sha256_hash kDigestBytes_def stored_request_def ones_def plan_encode_def small_plan_def
      put_tagged_def put_list_def put_stage_def put_path_def put_hop_def put_allocation_def put_stats_def
      plain_path_def)

lemma stored_plan_ok: "plan_record_ok (small_plan ones)"
proof -
  have "\<not> is_zero ones" by code_simp
  then show ?thesis
    by (simp add: plan_record_ok_def small_plan_def plain_path_def limit_defs short_id_text_def stage_ok_def
        path_ok_def hop_ok_def allocation_ok_def stats_ok_def) (simp add: ones_def)
qed

lemma stored_put:
  "store_put plain_config quiet_env (small_plan ones) stored_request first_session first_disk
   = (Inr (en_summary stored_entry), stored_state, stored_disk)"
proof -
  have "encode_plan_record (small_plan ones) stored_request 1 1 5 = stored_bytes" by (simp add: stored_bytes_def)
  moreover have "pl_id (small_plan ones) = ones" "pl_input_digest (small_plan ones) = ones"
    "canonical_digest stored_request = ones"
    by (simp_all add: small_plan_def stored_request_def)
  moreover have "(of_nat (length stored_bytes) :: u64) \<le> 536870912"
    using stored_bytes_length by (simp add: word_le_nat_alt unat_of_nat)
  ultimately show ?thesis
    using stored_plan_valid stored_bytes_length
    by (simp add: store_put_def first_session_def first_disk_def quiet_env_def index_find_def index_erase_def
        by_age_def index_bytes_def write_file_atomic_def persist_meta_def index_put_def not_less
        stored_state_def stored_disk_def stored_entry_def Let_def)
qed

lemma stored_reachable: "reachable plain_config stored_state stored_disk"
  by (rule reachable.stored [OF first_reachable stored_plan_ok stored_put])

section \<open>Properties\<close>



text \<open>
  C11: a successful \<open>put\<close> leaves the store inside its bounds. The number of records and their total
  size are within the configured limits, the new plan is listed under its identity with the next
  sequence number, and of the other records only the oldest are dropped: a dropped record never
  has a later sequence number than one that stays, and what stays is unchanged.
\<close>

theorem put_keeps_bounds:
  assumes "reachable cfg st d" "sc_max_record_bytes cfg \<le> kMaxPlanRecordBytes"
    and "store_put cfg env p r st d = (Inr s, st', d')"
  shows "record_count st' \<le> sc_max_records cfg \<and> total_stored st' \<le> sc_max_total_bytes cfg \<and>
    index_find (pl_id p) (st_index st') = Some \<lparr>en_summary = s, en_path = record_file_name (pl_id p)\<rparr> \<and>
    ss_id s = pl_id p \<and> ss_sequence s = st_sequence st + 1 \<and> st_sequence st' = st_sequence st + 1 \<and>
    (\<forall>k e. k \<noteq> pl_id p \<longrightarrow> index_find k (st_index st') = Some e \<longrightarrow>
       index_find k (st_index st) = Some e \<and>
       (\<forall>j f. index_find j (st_index st) = Some f \<longrightarrow> index_find j (st_index st') = None \<longrightarrow>
          ss_sequence (en_summary f) \<le> ss_sequence (en_summary e)))"
proof -
  from assms(3) obtain bs es c t where st: "st_open st"
    and "bs = encode_plan_record p r (st_incarnation st) (st_sequence st + 1) (io_record_clock env)"
    and chosen: "choose_evictions cfg (st_index st) (by_age (index_erase (pl_id p) (st_index st)))
       (length (st_index st) + (if index_find (pl_id p) (st_index st) = None then 1 else 0))
       (of_nat (length bs) - found_bytes (st_index st) (pl_id p) + index_bytes (st_index st)) = (es, c, t)"
    and fits: "c \<le> sc_max_records cfg" "t \<le> sc_max_total_bytes cfg"
    and s: "s = summary_of_plan p (st_sequence st + 1) (length bs) (st_incarnation st) (io_summary_clock env)"
    and st': "st' = st\<lparr>st_sequence := st_sequence st + 1, st_index := fold index_erase es
       (index_put (pl_id p) \<lparr>en_summary = s, en_path = record_file_name (pl_id p)\<rparr> (st_index st))\<rparr>" by (rule store_put_success)
  have wf: "index_wf (st_index st)"
    using reachable_ok [OF assms(1,2)] st by (simp add: store_ok_def index_ok_def)
  have index: "st_index st' = fold index_erase es
      (index_put (pl_id p) \<lparr>en_summary = s, en_path = record_file_name (pl_id p)\<rparr> (st_index st))"
    by (simp add: st')
  note left = evicted_index [OF wf chosen fits(1) index]
  have "total_stored st' = t"
    unfolding total_stored_def left(2) left(3) by (simp add: entry_bytes_def s summary_of_plan_def)
  then show ?thesis
    using left(1,4,6,7) fits(2) by (auto simp: record_count_def st' s summary_of_plan_def simp del: fold_simps)
qed

theorem put_keeps_bounds_witness:
  "index_find ones (st_index stored_state) = Some stored_entry \<and> record_count stored_state \<le> 4096 \<and>
   st_sequence stored_state = st_sequence first_session + 1"
  using put_keeps_bounds [OF first_reachable record_bound stored_put]
  by (simp add: small_plan_def stored_entry_def)

text \<open>
  C12: opening fences off the past. A successful open of a reachable store runs under the successor
  of the persisted epoch and incarnation (one, on a fresh directory) with the persisted sequence
  number, and every record it lists was written under a strictly earlier incarnation. This needs
  the metadata file to answer the existence query: a query that fails counts as a fresh directory.
\<close>

theorem open_fences_off_the_past:
  assumes "reachable cfg st d" "sc_max_record_bytes cfg \<le> kMaxPlanRecordBytes"
    and "io_stat_meta env" "may_open d" "store_open cfg env st d = (kOk, st', d')"
  shows "st_open st' \<and> (case map_of d meta_name of
        None \<Rightarrow> st_epoch st' = 1 \<and> st_incarnation st' = 1 \<and> st_sequence st' = 0
      | Some bs \<Rightarrow> decode_meta bs = Inr (st_epoch st' - 1, st_incarnation st' - 1, st_sequence st')) \<and>
    (\<forall>k e. index_find k (st_index st') = Some e \<longrightarrow> ss_incarnation (en_summary e) < st_incarnation st')"
  using store_open_ok(2) [OF assms(5) reachable_ok [OF assms(1,2)] assms(3,4)]
  by (auto simp: decode_meta_iff split: option.splits)

theorem open_fences_off_the_past_witness:
  "\<exists>st' d' f. store_open plain_config quiet_env new_store stored_disk = (kOk, st', d') \<and>
     index_find ones (st_index st') = Some f \<and> ss_incarnation (en_summary f) < st_incarnation st'"
proof -
  define e where "e = \<lparr>en_summary = summary_of_plan (small_plan ones) 1 (length stored_bytes) 1 5,
    en_path = record_file_name ones\<rparr>"
  have digest: "pl_id (small_plan ones) = ones" "canonical_digest stored_request = pl_input_digest (small_plan ones)"
    by (simp_all add: small_plan_def stored_request_def)
  have dec: "decode_plan_record stored_bytes
      = Inr (small_plan ones, summary_of_plan (small_plan ones) 1 (length stored_bytes) 1 5)"
    using put_record_decodes [OF stored_plan_ok digest(2), of 1 1 5] stored_bytes_length
    by (simp add: stored_bytes_def limit_defs)
  have open1: "store_open plain_config quiet_env new_store stored_disk =
      (kOk, \<lparr>st_open = True, st_epoch = 2, st_incarnation = 2, st_sequence = 1, st_index = [(ones, e)]\<rparr>,
       [(meta_name, encode_meta 2 2 1), (record_file_name ones, stored_bytes)])"
    using dec stored_bytes_length record_not_staging [OF is_record_name_file [of ones]] meta_not_staging
    by (simp add: store_open_def remove_stale_def begin_session_def persist_meta_def write_file_atomic_def
        rebuild_store_index_def rebuild_entry_def quiet_env_def new_store_def stored_disk_def read_file_def
        meta_length decode_meta_iff [THEN iffD2] kMetaBytes_def index_put_def index_erase_def e_def
        summary_of_plan_def digest Let_def)
  have "may_open stored_disk" by (simp add: may_open_def stored_disk_def encode_meta_inject)
  from open_fences_off_the_past [OF reachable.crash [OF stored_reachable] record_bound _ this open1]
  have "ss_incarnation (en_summary e) < 2" by (simp add: index_find_def quiet_env_def)
  with open1 show ?thesis by (simp add: index_find_def)
qed

end
