(* ===== verification/Spec2Isabelle.thy ===== *)
theory Spec2Isabelle
  imports Planner Wire Store
begin

text \<open>
  Collective Path Planner: a verification development of the planner library under src/.
\<close>

end
